(* ===== verification/Prelude.thy ===== *)
theory Prelude
  imports "HOL-Library.Word" "HOL-Library.Monad_Syntax"
begin

text \<open>
  Shared vocabulary of the ducknng development: the machine types of the C sources, buffers and
  pointers as lists, the loops that scan an array for its first matching slot, and the lemmas on
  them that every component uses.

  Conventions.
  \<^item> \<open>size_t\<close> is 64 bits wide, as on every target for which \<open>SIZE_MAX = UINT64_MAX\<close>.
  \<^item> A pointer that may be \<open>NULL\<close> is an \<open>option\<close>; a non-null byte pointer is the list of
    bytes readable from it, so \<open>p + n\<close> is \<open>drop n p\<close>.
  \<^item> A C string is the list of its characters before the terminating NUL.
  \<^item> Output parameters are results, so the guards on null output pointers have no counterpart.
\<close>

unbundle bit_operations_syntax

type_synonym u8 = "8 word"
type_synonym u16 = "16 word"
type_synonym u32 = "32 word"
type_synonym u64 = "64 word"
type_synonym size_t = "64 word"
type_synonym bytes = "u8 list"
type_synonym cstring = "string option"

text \<open>Collections: layout facts of byte formats, and the bounds of machine-word arithmetic.\<close>

named_theorems layout
named_theorems word_bounds

section \<open>Early returns\<close>

text \<open>The \<open>if (!cond) return -1;\<close> guards of the sources, in the option monad.\<close>

definition require :: "bool \<Rightarrow> unit option" where
  "require b = (if b then Some () else None)"

lemma require_eq_Some [simp]: "require b = Some u \<longleftrightarrow> b"
  by (simp add: require_def)

lemma require_bind [simp]:
  "(require b \<bind> f) = (if b then f () else None)"
  by (simp add: require_def)

definition deref :: "'a list option \<Rightarrow> 'a list" where
  "deref p = (case p of None \<Rightarrow> [] | Some xs \<Rightarrow> xs)"

lemma deref_simps [simp]: "deref None = []" "deref (Some xs) = xs"
  by (simp_all add: deref_def)

text \<open>A C string argument that is neither \<open>NULL\<close> nor empty (\<open>s && s[0]\<close>).\<close>

definition nonempty :: "cstring \<Rightarrow> bool" where
  "nonempty s = (s \<noteq> None \<and> s \<noteq> Some [])"

lemma nonempty_simps [simp]: "\<not> nonempty None" "nonempty (Some t) \<longleftrightarrow> t \<noteq> []"
  by (simp_all add: nonempty_def)

lemma nonempty_cases: "nonempty s \<Longrightarrow> \<exists>c cs. s = Some (c # cs)"
  by (cases s) (auto simp: neq_Nil_conv)

section \<open>Buffers\<close>

text \<open>\<open>poke d off bs\<close> is the buffer \<open>d\<close> after \<open>memcpy (d + off, bs, length bs)\<close>.\<close>

definition poke :: "'a list \<Rightarrow> nat \<Rightarrow> 'a list \<Rightarrow> 'a list" where
  "poke d off bs = take off d @ bs @ drop (off + length bs) d"

lemma length_poke [simp]: "off + length bs \<le> length d \<Longrightarrow> length (poke d off bs) = length d"
  by (simp add: poke_def)

lemma poke_Nil [simp]: "poke d off [] = d"
  by (simp add: poke_def)

lemma poke_append:
  "off = length a \<Longrightarrow> length a \<le> length d \<Longrightarrow> poke (poke d 0 a) off b = poke d 0 (a @ b)"
  by (simp add: poke_def add.commute)

lemma poke_inside:
  "off + length b \<le> length a \<Longrightarrow> poke (poke d 0 a) off b = poke d 0 (poke a off b)"
  by (simp add: poke_def)

lemma take_poke [simp]: "length bs \<le> length d \<Longrightarrow> take (length bs) (poke d 0 bs) = bs"
  by (simp add: poke_def)

lemma drop_poke: "length bs \<le> n \<Longrightarrow> drop n (poke d 0 bs) = drop n d"
  by (simp add: poke_def)

section \<open>Array scans\<close>

text \<open>
  \<open>find_idx P xs\<close> is the loop \<open>for (i = 0; i < n; i++) if (P (xs[i])) break;\<close>: the first
  index whose element satisfies \<open>P\<close>.
\<close>

fun find_idx :: "('a \<Rightarrow> bool) \<Rightarrow> 'a list \<Rightarrow> nat option" where
  "find_idx P [] = None"
| "find_idx P (x # xs) = (if P x then Some 0 else map_option Suc (find_idx P xs))"

lemma find_idx_None [simp]: "find_idx P xs = None \<longleftrightarrow> (\<forall>x \<in> set xs. \<not> P x)"
  by (induction xs) auto

lemma find_idx_Some:
  "find_idx P xs = Some i \<longleftrightarrow> i < length xs \<and> P (xs ! i) \<and> (\<forall>j < i. \<not> P (xs ! j))"
proof (induction xs arbitrary: i)
  case Nil
  then show ?case by simp
next
  case (Cons x xs)
  show ?case by (cases i) (auto simp: Cons.IH less_Suc_eq_0_disj)
qed

lemma find_idx_SomeD:
  assumes "find_idx P xs = Some i"
  shows "i < length xs" and "P (xs ! i)" and "xs ! i \<in> set xs"
  using assms by (auto simp: find_idx_Some)

lemma find_idx_cong: "(\<And>x. x \<in> set xs \<Longrightarrow> P x \<longleftrightarrow> Q x) \<Longrightarrow> find_idx P xs = find_idx Q xs"
  by (induction xs) auto

lemma find_idx_append_None:
  "find_idx P xs = None \<Longrightarrow> find_idx P (xs @ ys) = map_option (\<lambda>i. length xs + i) (find_idx P ys)"
  by (induction xs) (auto simp: option.map_comp o_def option.map_ident cong: option.map_cong)

lemma find_idx_append_Some: "find_idx P xs = Some i \<Longrightarrow> find_idx P (xs @ ys) = Some i"
  by (auto simp: find_idx_Some nth_append)

text \<open>Removal of the element at \<open>i\<close>, the tail shifted down by one.\<close>

definition remove_nth :: "nat \<Rightarrow> 'a list \<Rightarrow> 'a list" where
  "remove_nth i xs = take i xs @ drop (Suc i) xs"

lemma length_remove_nth: "i < length xs \<Longrightarrow> Suc (length (remove_nth i xs)) = length xs"
  by (simp add: remove_nth_def)

lemma set_remove_nth_subset: "set (remove_nth i xs) \<subseteq> set xs"
  by (auto simp: remove_nth_def dest: in_set_takeD in_set_dropD)

lemma map_remove_nth: "map f (remove_nth i xs) = remove_nth i (map f xs)"
  by (simp add: remove_nth_def take_map drop_map)

lemma nth_split: "i < length xs \<Longrightarrow> xs = take i xs @ xs ! i # drop (Suc i) xs"
  by (simp add: id_take_nth_drop)

lemma distinct_remove_nth: "distinct xs \<Longrightarrow> distinct (remove_nth i xs)"
proof (cases "i < length xs")
  case True
  assume "distinct xs"
  then have "distinct (take i xs @ xs ! i # drop (Suc i) xs)"
    using nth_split [OF True] by simp
  then show ?thesis by (simp add: remove_nth_def)
qed (simp add: remove_nth_def)

lemma set_remove_nth_distinct:
  assumes "distinct xs" "i < length xs"
  shows "set (remove_nth i xs) = set xs - {xs ! i}"
proof -
  have eq: "xs = take i xs @ xs ! i # drop (Suc i) xs"
    using assms(2) by (rule nth_split)
  then have d: "distinct (take i xs @ xs ! i # drop (Suc i) xs)"
    using assms(1) by simp
  have "set xs = set (take i xs @ xs ! i # drop (Suc i) xs)"
    using eq by simp
  with d show ?thesis by (auto simp: remove_nth_def)
qed

lemma filter_remove_nth_other:
  assumes "i < length xs" "\<not> P (xs ! i)"
  shows "filter P (remove_nth i xs) = filter P xs"
proof -
  have "filter P xs = filter P (take i xs @ xs ! i # drop (Suc i) xs)"
    using nth_split [OF assms(1)] by simp
  with assms(2) show ?thesis by (simp add: remove_nth_def)
qed

lemma filter_key_out: "k \<notin> f ` set xs \<Longrightarrow> filter (\<lambda>x. f x \<noteq> k) xs = xs"
  by (induction xs) auto

lemma filter_key_remove_nth:
  assumes "distinct (map f xs)" "i < length xs"
  shows "remove_nth i xs = filter (\<lambda>x. f x \<noteq> f (xs ! i)) xs"
proof -
  define y ys zs where "y = xs ! i" and "ys = take i xs" and "zs = drop (Suc i) xs"
  have split: "xs = ys @ y # zs" unfolding y_def ys_def zs_def using assms(2) by (rule nth_split)
  have "f y \<notin> f ` set ys" "f y \<notin> f ` set zs"
    using assms(1) unfolding split by auto
  then have "filter (\<lambda>x. f x \<noteq> f y) xs = ys @ zs"
    unfolding split by (simp add: filter_key_out)
  then show ?thesis by (simp add: remove_nth_def y_def ys_def zs_def)
qed

section \<open>Growth of an array capacity\<close>

text \<open>
  The reallocation loop \<open>while (cap < want) cap *= 2;\<close> over mathematical integers; the
  callers' capacities stay far below the width of \<open>size_t\<close>.
\<close>

function double_until :: "nat \<Rightarrow> nat \<Rightarrow> nat" where
  "double_until cap want = (if 0 < cap \<and> cap < want then double_until (cap * 2) want else cap)"
  by pat_completeness auto
termination
  by (relation "measure (\<lambda>(cap, want). want - cap)") auto

declare double_until.simps [simp del]

lemma double_until_ge: "0 < cap \<Longrightarrow> want \<le> double_until cap want \<and> cap \<le> double_until cap want"
proof (induction cap want rule: double_until.induct)
  case (1 cap want)
  then show ?case
    by (cases "cap < want") (auto simp: double_until.simps [of cap want])
qed

section \<open>Bits of bytes\<close>

lemma and_0xff [simp]: "(x :: 'a::len word) AND 0xff = take_bit 8 x"
  by (simp add: take_bit_eq_mask mask_eq_exp_minus_1)

lemma bit_u8_out: "8 \<le> n \<Longrightarrow> \<not> bit (w :: u8) n"
  using bit_imp_le_length [of w n] by auto

lemma bit_u16_out: "16 \<le> n \<Longrightarrow> \<not> bit (w :: u16) n"
  using bit_imp_le_length [of w n] by auto

lemma bit_u32_out: "32 \<le> n \<Longrightarrow> \<not> bit (w :: u32) n"
  using bit_imp_le_length [of w n] by auto

lemmas bit_out = bit_u8_out bit_u16_out bit_u32_out

lemma unat_u64_less [word_bounds]: "unat (x :: u64) < 2 ^ 64"
  using unsigned_less [of x, where 'a = nat] by simp

lemma unat_u32_less [word_bounds]: "unat (x :: u32) < 2 ^ 32"
  using unsigned_less [of x, where 'a = nat] by simp

lemma unat_u8_less [word_bounds]: "unat (x :: u8) < 256"
  using unsigned_less [of x, where 'a = nat] by simp

lemma unat_of_nat_u64 [word_bounds]: "n < 2 ^ 64 \<Longrightarrow> unat (of_nat n :: u64) = n"
  by (simp add: unat_of_nat)

lemma unat_ucast_u32_u64 [simp]: "unat (ucast (x :: u32) :: u64) = unat x"
  by (simp add: unsigned_ucast_eq take_bit_nat_eq_self_iff order_less_trans [OF unat_u32_less])

section \<open>Characters\<close>

abbreviation code :: "char \<Rightarrow> nat" where
  "code c \<equiv> of_char c"

lemma code_less: "code c < 256"
  using nat_of_char_less_256 [of c] by simp

definition ascii_lower :: "char \<Rightarrow> char" where
  "ascii_lower c = (if 65 \<le> code c \<and> code c \<le> 90 then char_of (code c + 32) else c)"

definition ascii_upper :: "char \<Rightarrow> char" where
  "ascii_upper c = (if 97 \<le> code c \<and> code c \<le> 122 then char_of (code c - 32) else c)"

text \<open>A C string holds no NUL.\<close>

definition nul_free :: "string \<Rightarrow> bool" where
  "nul_free s \<longleftrightarrow> (\<forall>c \<in> set s. code c \<noteq> 0)"

lemma nul_free_simps [simp]:
  "nul_free []" "nul_free (c # s) \<longleftrightarrow> code c \<noteq> 0 \<and> nul_free s"
  "nul_free (s @ t) \<longleftrightarrow> nul_free s \<and> nul_free t"
  by (auto simp: nul_free_def)

section \<open>Conversions of \<open>snprintf\<close>\<close>

text \<open>\<open>%u\<close> and \<open>%llu\<close>, \<open>%d\<close>, and \<open>%04x\<close> of a byte.\<close>

definition digit :: "nat \<Rightarrow> char" where
  "digit n = ''0123456789'' ! n"

fun fmt_u :: "nat \<Rightarrow> string" where
  "fmt_u n = (if n < 10 then [digit n] else fmt_u (n div 10) @ [digit (n mod 10)])"

declare fmt_u.simps [simp del]

definition fmt_d :: "int \<Rightarrow> string" where
  "fmt_d i = (if i < 0 then CHR ''-'' # fmt_u (nat (- i)) else fmt_u (nat i))"

definition xdigit :: "nat \<Rightarrow> char" where
  "xdigit n = ''0123456789abcdef'' ! n"

definition fmt_04x :: "nat \<Rightarrow> string" where
  "fmt_04x n = map (\<lambda>k. xdigit (n div 16 ^ k mod 16)) [3, 2, 1, 0]"

lemma ascii_upper_idem: "ascii_upper (ascii_upper c) = ascii_upper c"
proof -
  have "code (ascii_upper c) < 97 \<or> 122 < code (ascii_upper c)"
    using code_less [of c] by (auto simp: ascii_upper_def)
  then show ?thesis by (auto simp: ascii_upper_def [of "ascii_upper c"])
qed

text \<open>A full ring whose oldest element, at \<open>s\<close>, is overwritten.\<close>

lemma ring_shift:
  assumes "s < n" "length es = n"
  shows "map (\<lambda>i. es[s := e] ! (((s + 1) mod n + i) mod n)) [0..<n] =
    tl (map (\<lambda>i. es ! ((s + i) mod n)) [0..<n]) @ [e]" (is "?l = ?r")
proof (rule nth_equalityI)
  show "length ?l = length ?r" using assms by simp
  fix i
  assume "i < length ?l"
  then have i: "i < n" by simp
  have idx: "((s + 1) mod n + i) mod n = (s + (i + 1)) mod n"
    by (simp add: mod_add_left_eq add.assoc)
  show "?l ! i = ?r ! i"
  proof (cases "i = n - 1")
    case True
    then have "s + (i + 1) = n + s" using i by simp
    then have "(s + (i + 1)) mod n = s" using assms(1) by simp
    then show ?thesis using True i assms idx by (simp add: nth_append)
  next
    case False
    then have i': "i + 1 < n" "i < n - Suc 0" using i by simp_all
    have "(s + (i + 1)) mod n \<noteq> s"
    proof
      assume eq: "(s + (i + 1)) mod n = s"
      show False
      proof (cases "s + (i + 1) < n")
        case True
        with eq show False by simp
      next
        case False
        then have "(s + (i + 1)) mod n = s + (i + 1) - n" using assms(1) i' by (simp add: mod_if)
        with eq False i' show False by simp
      qed
    qed
    then show ?thesis using i i' assms idx by (simp add: nth_append nth_tl)
  qed
qed

end
