(* ===== verification/Checked.thy ===== *)
theory Checked
  imports Prelude
begin

text \<open>
  Overflow-checked arithmetic (\<open>ducknng_checked.c\<close>): \<open>None\<close> is the return code \<open>-1\<close>, \<open>Some\<close>
  the value stored through \<open>out\<close>. The lemmas state the exact condition under which each
  operation succeeds and that its result is the mathematical one.
\<close>

abbreviation SIZE_MAX :: size_t where "SIZE_MAX \<equiv> 0xffffffffffffffff"
abbreviation UINT64_MAX :: u64 where "UINT64_MAX \<equiv> 0xffffffffffffffff"

definition ducknng_size_add :: "size_t \<Rightarrow> size_t \<Rightarrow> size_t option" where
  "ducknng_size_add a b = (if b > SIZE_MAX - a then None else Some (a + b))"

definition ducknng_size_mul :: "size_t \<Rightarrow> size_t \<Rightarrow> size_t option" where
  "ducknng_size_mul a b = (if a \<noteq> 0 \<and> b > SIZE_MAX div a then None else Some (a * b))"

definition ducknng_u64_add :: "u64 \<Rightarrow> u64 \<Rightarrow> u64 option" where
  "ducknng_u64_add a b = (if b > UINT64_MAX - a then None else Some (a + b))"

definition ducknng_u64_mul :: "u64 \<Rightarrow> u64 \<Rightarrow> u64 option" where
  "ducknng_u64_mul a b = (if a \<noteq> 0 \<and> b > UINT64_MAX div a then None else Some (a * b))"

lemma unat_SIZE_MAX [simp]: "unat SIZE_MAX = 2 ^ 64 - 1"
  by simp

lemma size_add_guard: "b > SIZE_MAX - a \<longleftrightarrow> 2 ^ 64 \<le> unat a + unat b"
proof -
  have "a \<le> SIZE_MAX" using unat_u64_less [of a] by (simp add: word_le_nat_alt)
  then have "unat (SIZE_MAX - a) = 2 ^ 64 - 1 - unat a"
    by (simp add: unat_sub)
  then show ?thesis
    using unat_u64_less [of a] by (simp add: word_less_nat_alt) linarith
qed

lemma unat_add_no_overflow:
  "unat (a :: u64) + unat b < 2 ^ 64 \<Longrightarrow> unat (a + b) = unat a + unat b"
  by (simp add: unat_word_ariths)

lemma unat_mult_no_overflow:
  "unat (a :: u64) * unat b < 2 ^ 64 \<Longrightarrow> unat (a * b) = unat a * unat b"
  by (simp add: unat_word_ariths)

lemma size_add_Some:
  "ducknng_size_add a b = Some c \<longleftrightarrow> unat a + unat b < 2 ^ 64 \<and> c = a + b"
  using size_add_guard [of a b] by (auto simp: ducknng_size_add_def)

lemma size_add_SomeD [dest]:
  "ducknng_size_add a b = Some c \<Longrightarrow> unat c = unat a + unat b"
  using unat_add_no_overflow [of a b] by (simp add: size_add_Some)

lemma size_add_ok [simp]:
  "unat a + unat b < 2 ^ 64 \<Longrightarrow> ducknng_size_add a b = Some (a + b)"
  by (simp add: size_add_Some)

lemma size_mul_guard: "a \<noteq> 0 \<and> b > SIZE_MAX div a \<longleftrightarrow> 2 ^ 64 \<le> unat a * unat b"
proof (cases "a = 0")
  case True
  then show ?thesis by simp
next
  case False
  then have pos: "0 < unat a" by (simp add: unat_gt_0)
  have "b > SIZE_MAX div a \<longleftrightarrow> (2 ^ 64 - 1) div unat a < unat b"
    by (simp add: word_less_nat_alt unat_div)
  also have "\<dots> \<longleftrightarrow> 2 ^ 64 - 1 < unat b * unat a"
    using pos by (rule div_less_iff_less_mult)
  also have "\<dots> \<longleftrightarrow> 2 ^ 64 \<le> unat a * unat b"
    by (auto simp: mult.commute)
  finally show ?thesis using False by simp
qed

lemma size_mul_Some:
  "ducknng_size_mul a b = Some c \<longleftrightarrow> unat a * unat b < 2 ^ 64 \<and> c = a * b"
  using size_mul_guard [of a b] by (auto simp: ducknng_size_mul_def)

lemma u64_ops_eq: "ducknng_u64_add = ducknng_size_add" "ducknng_u64_mul = ducknng_size_mul"
  by (simp_all add: fun_eq_iff ducknng_u64_add_def ducknng_size_add_def
      ducknng_u64_mul_def ducknng_size_mul_def)

end
