(* ===== verification/Interfaces.thy ===== *)
theory Interfaces
  imports Prelude
begin

text \<open>
  The contracts the components rely on.
  \<^item> \<open>prefix_codec\<close>: an encoder whose output a decoder reads back from the front of any longer
    input; the client lemmas are unique decodability and the decoding of a whole sequence.
  \<^item> \<open>keyed_table\<close>: an array of records with unique keys, scanned by its lookups; the client
    lemmas say that it behaves as a finite map.
  \<^item> \<open>machine\<close>: a step relation with an inductive invariant; the client lemmas lift it to the
    reachable states.
\<close>

section \<open>Self-delimiting encodings\<close>

text \<open>Decode \<open>n\<close> values one after the other.\<close>

fun decode_n :: "(bytes \<Rightarrow> ('a \<times> bytes) option) \<Rightarrow> nat \<Rightarrow> bytes \<Rightarrow> ('a list \<times> bytes) option" where
  "decode_n dec 0 bs = Some ([], bs)"
| "decode_n dec (Suc n) bs = do {
     (x, bs') \<leftarrow> dec bs;
     (xs, bs'') \<leftarrow> decode_n dec n bs';
     Some (x # xs, bs'') }"

text \<open>A buffer whose length a \<open>size_t\<close> can hold.\<close>

abbreviation fits :: "'a list \<Rightarrow> bool" where
  "fits bs \<equiv> length bs < 2 ^ 64"

locale prefix_codec =
  fixes enc :: "'a \<Rightarrow> bytes"
    and dec :: "bytes \<Rightarrow> ('a \<times> bytes) option"
    and ok :: "'a \<Rightarrow> bool"
  assumes dec_enc: "ok a \<Longrightarrow> fits (enc a @ rest) \<Longrightarrow> dec (enc a @ rest) = Some (a, rest)"
begin

lemma enc_unique:
  assumes "ok a" "ok b" "enc a @ r = enc b @ s" "fits (enc a @ r)"
  shows "a = b \<and> r = s"
proof -
  have "fits (enc b @ s)" using assms(3,4) by metis
  then have "Some (a, r) = Some (b, s)"
    using dec_enc [OF assms(1,4)] dec_enc [OF assms(2)] unfolding assms(3) by metis
  then show ?thesis by simp
qed

lemma enc_prefix_free:
  "ok a \<Longrightarrow> ok b \<Longrightarrow> fits (enc b) \<Longrightarrow> enc b = enc a @ s \<Longrightarrow> a = b \<and> s = []"
  using enc_unique [of b a "[]" s] by simp

lemma decode_n_concat:
  "\<forall>x \<in> set xs. ok x \<Longrightarrow> fits (concat (map enc xs) @ rest) \<Longrightarrow>
     decode_n dec (length xs) (concat (map enc xs) @ rest) = Some (xs, rest)"
  by (induction xs) (simp_all add: dec_enc)

lemma concat_unique:
  assumes "\<forall>x \<in> set xs. ok x" "\<forall>y \<in> set ys. ok y" "length xs = length ys"
    and "concat (map enc xs) @ r = concat (map enc ys) @ s" "fits (concat (map enc xs) @ r)"
  shows "xs = ys \<and> r = s"
proof -
  have "fits (concat (map enc ys) @ s)" using assms(4,5) by metis
  then have "Some (xs, r) = Some (ys, s)"
    using decode_n_concat [OF assms(1,5)] decode_n_concat [OF assms(2)]
    unfolding assms(3,4) by metis
  then show ?thesis by simp
qed

end

section \<open>Tables with unique keys\<close>

locale keyed_table =
  fixes entries :: "'t \<Rightarrow> 'r list"
    and key :: "'r \<Rightarrow> 'k"
    and lookup :: "'t \<Rightarrow> 'k \<Rightarrow> 'r option"
    and add :: "'r \<Rightarrow> 't \<Rightarrow> 't"
    and del :: "'k \<Rightarrow> 't \<Rightarrow> 't"
    and invar :: "'t \<Rightarrow> bool"
    and good :: "'r \<Rightarrow> bool"
    and key_ok :: "'k \<Rightarrow> bool"
  assumes keys_distinct: "invar t \<Longrightarrow> distinct (map key (entries t))"
    and lookup_find: "invar t \<Longrightarrow> key_ok k \<Longrightarrow> lookup t k = find (\<lambda>r. key r = k) (entries t)"
    and entries_add:
      "invar t \<Longrightarrow> good r \<Longrightarrow> key r \<notin> key ` set (entries t) \<Longrightarrow> entries (add r t) = entries t @ [r]"
    and entries_del: "invar t \<Longrightarrow> entries (del k t) = filter (\<lambda>r. key r \<noteq> k) (entries t)"
    and invar_add: "invar t \<Longrightarrow> good r \<Longrightarrow> key r \<notin> key ` set (entries t) \<Longrightarrow> invar (add r t)"
    and invar_del: "invar t \<Longrightarrow> invar (del k t)"
begin

lemma lookup_None: "invar t \<Longrightarrow> key_ok k \<Longrightarrow> lookup t k = None \<longleftrightarrow> k \<notin> key ` set (entries t)"
  by (auto simp: lookup_find find_None_iff)

lemma lookup_Some:
  "invar t \<Longrightarrow> key_ok k \<Longrightarrow> lookup t k = Some r \<longleftrightarrow> r \<in> set (entries t) \<and> key r = k"
proof
  assume "invar t" "key_ok k" "lookup t k = Some r"
  then show "r \<in> set (entries t) \<and> key r = k"
    by (auto simp: lookup_find find_Some_iff)
next
  assume inv: "invar t" "key_ok k" and r: "r \<in> set (entries t) \<and> key r = k"
  then obtain r' where r': "lookup t k = Some r'"
    using lookup_None [OF inv] by (cases "lookup t k") auto
  then have "r' \<in> set (entries t)" "key r' = k"
    using inv by (auto simp: lookup_find find_Some_iff)
  with r keys_distinct [OF inv(1)] have "r' = r"
    by (auto simp: distinct_map inj_on_def)
  with r' show "lookup t k = Some r" by simp
qed

lemma lookup_add:
  assumes "invar t" "good r" "key r \<notin> key ` set (entries t)" "key_ok k"
  shows "lookup (add r t) k = (if k = key r then Some r else lookup t k)"
proof -
  have inv: "invar (add r t)" and ent: "entries (add r t) = entries t @ [r]"
    using assms by (simp_all add: invar_add entries_add)
  show ?thesis
  proof (cases "k = key r")
    case True
    then show ?thesis using inv ent assms(4) by (simp add: lookup_Some)
  next
    case False
    show ?thesis
    proof (cases "lookup t k")
      case None
      then have "lookup (add r t) k = None"
        using inv ent False assms by (auto simp: lookup_None)
      with None False show ?thesis by simp
    next
      case (Some x)
      then have "lookup (add r t) k = Some x"
        using inv ent assms by (simp add: lookup_Some)
      with Some False show ?thesis by simp
    qed
  qed
qed

lemma lookup_del:
  assumes "invar t" "key_ok k'"
  shows "lookup (del k t) k' = (if k' = k then None else lookup t k')"
proof -
  have inv: "invar (del k t)" and ent: "entries (del k t) = filter (\<lambda>r. key r \<noteq> k) (entries t)"
    using assms by (simp_all add: invar_del entries_del)
  show ?thesis
  proof (cases "k' = k")
    case True
    then show ?thesis using inv ent assms(2) by (auto simp: lookup_None)
  next
    case False
    show ?thesis
    proof (cases "lookup t k'")
      case None
      then have "lookup (del k t) k' = None"
        using inv ent assms by (auto simp: lookup_None)
      with None False show ?thesis by simp
    next
      case (Some x)
      then have "lookup (del k t) k' = Some x"
        using inv ent assms False by (auto simp: lookup_Some)
      with Some False show ?thesis by simp
    qed
  qed
qed

lemma del_absent: "invar t \<Longrightarrow> key_ok k \<Longrightarrow> lookup t k = None \<Longrightarrow> entries (del k t) = entries t"
  by (auto simp: entries_del lookup_None intro!: filter_True)

lemma del_add:
  assumes "invar t" "good r" "key r \<notin> key ` set (entries t)"
  shows "entries (del (key r) (add r t)) = entries t"
proof -
  have "filter (\<lambda>x. key x \<noteq> key r) (entries t) = entries t"
    using assms(3) by (intro filter_True ballI) (metis image_eqI)
  with assms show ?thesis by (simp add: entries_del entries_add invar_add)
qed

end

section \<open>Invariants of step relations\<close>

inductive reachable :: "('s \<Rightarrow> bool) \<Rightarrow> ('s \<Rightarrow> 's \<Rightarrow> bool) \<Rightarrow> 's \<Rightarrow> bool"
  for init step where
  reach_init: "init s \<Longrightarrow> reachable init step s"
| reach_step: "reachable init step s \<Longrightarrow> step s t \<Longrightarrow> reachable init step t"

locale machine =
  fixes init :: "'s \<Rightarrow> bool"
    and step :: "'s \<Rightarrow> 's \<Rightarrow> bool"
    and inv :: "'s \<Rightarrow> bool"
  assumes inv_init: "init s \<Longrightarrow> inv s"
    and inv_step: "inv s \<Longrightarrow> step s t \<Longrightarrow> inv t"
begin

lemma reachable_inv: "reachable init step s \<Longrightarrow> inv s"
  by (induction rule: reachable.induct) (auto intro: inv_init inv_step)

lemma rtranclp_inv: "step\<^sup>*\<^sup>* s t \<Longrightarrow> inv s \<Longrightarrow> inv t"
  by (induction rule: rtranclp_induct) (auto intro: inv_step)

lemma reachable_rtranclp: "step\<^sup>*\<^sup>* s t \<Longrightarrow> reachable init step s \<Longrightarrow> reachable init step t"
  by (induction rule: rtranclp_induct) (auto intro: reach_step)

end

end
