(* ===== verification/Wire.thy ===== *)
theory Wire
  imports Checked Interfaces
begin

text \<open>
  The framed RPC envelope (\<open>ducknng_wire_core.c\<close>, \<open>ducknng_wire.c\<close>). The encoder writes a 22-byte
  little-endian header, the counted name and error strings and the payload into a caller-supplied
  buffer; the decoder validates the header and returns slices of the received bytes.

  The lemmas show that the encoder and the decoder are inverse to each other, that the encoder
  stays within the size it reports, and that the prefix encoder produces the same bytes as the
  whole-frame encoder.
\<close>

section \<open>Constants and records\<close>

abbreviation DUCKNNG_WIRE_VERSION :: u8 where "DUCKNNG_WIRE_VERSION \<equiv> 1"
abbreviation DUCKNNG_MAX_METHOD_NAME_LEN :: "'a::len word" where "DUCKNNG_MAX_METHOD_NAME_LEN \<equiv> 128"
abbreviation DUCKNNG_WIRE_HEADER_LEN :: size_t where "DUCKNNG_WIRE_HEADER_LEN \<equiv> 22"
abbreviation DUCKNNG_RPC_STATUS_MASK :: u32 where "DUCKNNG_RPC_STATUS_MASK \<equiv> 0xff000000"
abbreviation DUCKNNG_RPC_FLAGS_MASK :: u32 where "DUCKNNG_RPC_FLAGS_MASK \<equiv> 0x00ffffff"
abbreviation DUCKNNG_UPLOAD_TOKEN_MAX :: u16 where "DUCKNNG_UPLOAD_TOKEN_MAX \<equiv> 256"

abbreviation DUCKNNG_RPC_MANIFEST :: u8 where "DUCKNNG_RPC_MANIFEST \<equiv> 0"
abbreviation DUCKNNG_RPC_CALL :: u8 where "DUCKNNG_RPC_CALL \<equiv> 1"
abbreviation DUCKNNG_RPC_RESULT :: u8 where "DUCKNNG_RPC_RESULT \<equiv> 2"
abbreviation DUCKNNG_RPC_ERROR :: u8 where "DUCKNNG_RPC_ERROR \<equiv> 3"
abbreviation DUCKNNG_RPC_EVENT :: u8 where "DUCKNNG_RPC_EVENT \<equiv> 4"

abbreviation DUCKNNG_STATUS_OK :: "'a::{ring_1}" where "DUCKNNG_STATUS_OK \<equiv> 0"
abbreviation DUCKNNG_STATUS_INVALID :: "'a::{ring_1}" where "DUCKNNG_STATUS_INVALID \<equiv> 1"
abbreviation DUCKNNG_STATUS_NOT_FOUND :: "'a::{ring_1}" where "DUCKNNG_STATUS_NOT_FOUND \<equiv> 2"
abbreviation DUCKNNG_STATUS_BUSY :: "'a::{ring_1}" where "DUCKNNG_STATUS_BUSY \<equiv> 3"
abbreviation DUCKNNG_STATUS_INTERNAL :: "'a::{ring_1}" where "DUCKNNG_STATUS_INTERNAL \<equiv> 6"
abbreviation DUCKNNG_STATUS_UNAUTHORIZED :: "'a::{ring_1}" where "DUCKNNG_STATUS_UNAUTHORIZED \<equiv> 9"
abbreviation DUCKNNG_STATUS_DISABLED :: "'a::{ring_1}" where "DUCKNNG_STATUS_DISABLED \<equiv> 10"
abbreviation DUCKNNG_STATUS_UNSPECIFIED :: "'a::{ring_1}" where "DUCKNNG_STATUS_UNSPECIFIED \<equiv> 255"

text \<open>
  A decoded frame. Its three pointers point into the received bytes, so each is the suffix of the
  input that starts there; the counted slices are \<open>frame_name\<close>, \<open>frame_error\<close>, \<open>frame_payload\<close>.
\<close>

record ducknng_frame =
  f_version :: u8
  f_type :: u8
  f_status :: u8
  f_flags :: u32
  f_name :: bytes
  f_name_len :: u32
  f_error :: bytes
  f_error_len :: u32
  f_payload :: bytes
  f_payload_len :: u64

definition frame_name :: "ducknng_frame \<Rightarrow> bytes" where
  "frame_name f = take (unat (f_name_len f)) (f_name f)"

definition frame_error :: "ducknng_frame \<Rightarrow> bytes" where
  "frame_error f = take (unat (f_error_len f)) (f_error f)"

definition frame_payload :: "ducknng_frame \<Rightarrow> bytes" where
  "frame_payload f = take (unat (f_payload_len f)) (f_payload f)"

text \<open>The encoder's input. The \<open>int32_t\<close> status is an integer.\<close>

record ducknng_frame_parts =
  p_type :: u8
  p_status :: int
  p_flags :: u32
  p_name :: "bytes option"
  p_name_len :: size_t
  p_error :: "bytes option"
  p_error_len :: size_t
  p_payload :: "bytes option"
  p_payload_len :: size_t

text \<open>The caller's obligation on the pointers: each non-null one reaches as far as its count.\<close>

definition readable :: "bytes option \<Rightarrow> size_t \<Rightarrow> bool" where
  "readable p n = (case p of None \<Rightarrow> True | Some b \<Rightarrow> unat n \<le> length b)"

definition parts_readable :: "ducknng_frame_parts \<Rightarrow> bool" where
  "parts_readable p \<longleftrightarrow> readable (p_name p) (p_name_len p) \<and> readable (p_error p) (p_error_len p)
     \<and> readable (p_payload p) (p_payload_len p)"

definition counted :: "bytes option \<Rightarrow> size_t \<Rightarrow> bytes" where
  "counted p n = take (unat n) (deref p)"

section \<open>Little-endian integers\<close>

definition ducknng_wire_le16_read :: "bytes \<Rightarrow> u16" where
  "ducknng_wire_le16_read p = ucast (p ! 0) OR push_bit 8 (ucast (p ! 1))"

definition ducknng_wire_le32_read :: "bytes \<Rightarrow> u32" where
  "ducknng_wire_le32_read p = ucast (p ! 0) OR push_bit 8 (ucast (p ! 1)) OR
     push_bit 16 (ucast (p ! 2)) OR push_bit 24 (ucast (p ! 3))"

definition ducknng_wire_le64_read :: "bytes \<Rightarrow> u64" where
  "ducknng_wire_le64_read p = ucast (ducknng_wire_le32_read p) OR
     push_bit 32 (ucast (ducknng_wire_le32_read (drop 4 p)))"

definition le32_bytes :: "u32 \<Rightarrow> bytes" where
  "le32_bytes v = [ucast (v AND 0xff), ucast (drop_bit 8 v AND 0xff),
     ucast (drop_bit 16 v AND 0xff), ucast (drop_bit 24 v AND 0xff)]"

definition ducknng_wire_le32_write :: "bytes \<Rightarrow> nat \<Rightarrow> u32 \<Rightarrow> bytes" where
  "ducknng_wire_le32_write d off v = poke d off (le32_bytes v)"

definition le64_bytes :: "u64 \<Rightarrow> bytes" where
  "le64_bytes v = le32_bytes (ucast v) @ le32_bytes (ucast (drop_bit 32 v))"

definition ducknng_wire_le64_write :: "bytes \<Rightarrow> nat \<Rightarrow> u64 \<Rightarrow> bytes" where
  "ducknng_wire_le64_write d off v =
     ducknng_wire_le32_write (ducknng_wire_le32_write d off (ucast v)) (off + 4)
       (ucast (drop_bit 32 v))"

section \<open>Encoding\<close>

text \<open>
  The validation shared by the measuring and encoding entry points: \<open>None\<close> is the return code
  \<open>-1\<close> with \<open>*required = 0\<close>, \<open>Some n\<close> success with the exact frame size.
\<close>

definition ducknng_frame_parts_validate :: "ducknng_frame_parts \<Rightarrow> bool \<Rightarrow> size_t option" where
  "ducknng_frame_parts_validate parts require_payload_pointer = do {
     require (\<not> p_type parts > DUCKNNG_RPC_EVENT);
     require (\<not> p_name_len parts > DUCKNNG_MAX_METHOD_NAME_LEN);
     require (\<not> p_error_len parts > 0xffffffff);
     require (\<not> (p_flags parts AND NOT DUCKNNG_RPC_FLAGS_MASK) \<noteq> 0);
     require (\<not> (p_name_len parts > 0 \<and> p_name parts = None));
     require (\<not> (p_error_len parts > 0 \<and> p_error parts = None));
     require (\<not> (require_payload_pointer \<and> p_payload_len parts > 0 \<and> p_payload parts = None));
     require (if p_type parts = DUCKNNG_RPC_ERROR
              then \<not> (p_status parts \<le> DUCKNNG_STATUS_OK \<or>
                      p_status parts > DUCKNNG_STATUS_DISABLED \<or> p_error_len parts = 0)
              else \<not> (p_status parts \<noteq> DUCKNNG_STATUS_OK \<or> p_error_len parts \<noteq> 0));
     total \<leftarrow> ducknng_size_add DUCKNNG_WIRE_HEADER_LEN (p_name_len parts);
     total \<leftarrow> ducknng_size_add total (p_error_len parts);
     ducknng_size_add total (p_payload_len parts) }"

definition ducknng_frame_measure :: "ducknng_frame_parts \<Rightarrow> size_t option" where
  "ducknng_frame_measure parts = ducknng_frame_parts_validate parts True"

text \<open>Returns the offset just past the prefix and the written buffer.\<close>

definition ducknng_wire_write_prefix :: "ducknng_frame_parts \<Rightarrow> bytes \<Rightarrow> nat \<times> bytes" where
  "ducknng_wire_write_prefix parts destination =
     (let d = poke destination 0 (replicate 22 0);
          d = poke d 0 [DUCKNNG_WIRE_VERSION];
          d = poke d 1 [p_type parts];
          wire_flags = p_flags parts OR push_bit 24 (word_of_int (p_status parts) :: u32);
          d = ducknng_wire_le32_write d 2 wire_flags;
          d = ducknng_wire_le32_write d 6 (ucast (p_name_len parts));
          d = ducknng_wire_le32_write d 10 (ucast (p_error_len parts));
          d = ducknng_wire_le64_write d 14 (p_payload_len parts);
          offset = 22;
          (offset, d) =
            (if p_name_len parts > 0
             then (offset + unat (p_name_len parts), poke d offset (counted (p_name parts) (p_name_len parts)))
             else (offset, d));
          (offset, d) =
            (if p_error_len parts > 0
             then (offset + unat (p_error_len parts), poke d offset (counted (p_error parts) (p_error_len parts)))
             else (offset, d))
      in (offset, d))"

text \<open>Encoders return the code, \<open>*written\<close> and the destination buffer.\<close>

definition ducknng_encode_frame_prefix ::
  "ducknng_frame_parts \<Rightarrow> bytes option \<Rightarrow> size_t \<Rightarrow> int \<times> size_t \<times> bytes option" where
  "ducknng_encode_frame_prefix parts destination capacity =
     (case ducknng_frame_parts_validate parts False of
        None \<Rightarrow> (-1, 0, destination)
      | Some required \<Rightarrow>
          let prefix_size = required - p_payload_len parts in
          (case destination of
             None \<Rightarrow> (-1, prefix_size, None)
           | Some d \<Rightarrow>
               if capacity < prefix_size then (-1, prefix_size, Some d)
               else (0, prefix_size, Some (snd (ducknng_wire_write_prefix parts d)))))"

definition ducknng_encode_frame_bytes ::
  "ducknng_frame_parts \<Rightarrow> bytes option \<Rightarrow> size_t \<Rightarrow> int \<times> size_t \<times> bytes option" where
  "ducknng_encode_frame_bytes parts destination capacity =
     (case ducknng_frame_parts_validate parts True of
        None \<Rightarrow> (-1, 0, destination)
      | Some required \<Rightarrow>
          (case destination of
             None \<Rightarrow> (-1, required, None)
           | Some d \<Rightarrow>
               if capacity < required then (-1, required, Some d)
               else
                 (let (offset, d) = ducknng_wire_write_prefix parts d;
                      d = (if p_payload_len parts > 0
                           then poke d offset (counted (p_payload parts) (p_payload_len parts))
                           else d)
                  in (0, required, Some d))))"

section \<open>Decoding\<close>

definition ducknng_decode_frame_bytes :: "bytes option \<Rightarrow> size_t \<Rightarrow> ducknng_frame option" where
  "ducknng_decode_frame_bytes data len = do {
     d \<leftarrow> data;
     require (\<not> len < DUCKNNG_WIRE_HEADER_LEN);
     let version = d ! 0;
     let type = d ! 1;
     require (\<not> (version \<noteq> DUCKNNG_WIRE_VERSION \<or> type > DUCKNNG_RPC_EVENT));
     let wire_flags = ducknng_wire_le32_read (drop 2 d);
     let name_len = ducknng_wire_le32_read (drop 6 d);
     let error_len = ducknng_wire_le32_read (drop 10 d);
     let payload_len = ducknng_wire_le64_read (drop 14 d);
     let status = drop_bit 24 (wire_flags AND DUCKNNG_RPC_STATUS_MASK);
     require (\<not> name_len > DUCKNNG_MAX_METHOD_NAME_LEN);
     fixed_len \<leftarrow> ducknng_size_add DUCKNNG_WIRE_HEADER_LEN (ucast name_len);
     fixed_len \<leftarrow> ducknng_size_add fixed_len (ucast error_len);
     require (\<not> len < fixed_len);
     let body_len = len - fixed_len;
     require (\<not> payload_len \<noteq> body_len);
     frame_status \<leftarrow>
       (if type = DUCKNNG_RPC_ERROR
        then (if status > DUCKNNG_STATUS_DISABLED \<or> error_len = 0 then None
              else Some (if status \<noteq> 0 then ucast status else DUCKNNG_STATUS_UNSPECIFIED))
        else (if status \<noteq> DUCKNNG_STATUS_OK \<or> error_len \<noteq> 0 then None
              else Some DUCKNNG_STATUS_OK));
     let name = drop 22 d;
     let error = drop (unat name_len) name;
     Some \<lparr> f_version = version, f_type = type, f_status = frame_status,
       f_flags = wire_flags AND DUCKNNG_RPC_FLAGS_MASK,
       f_name = name, f_name_len = name_len, f_error = error, f_error_len = error_len,
       f_payload = drop (unat error_len) error, f_payload_len = payload_len \<rparr> }"

definition bytes_of :: "string \<Rightarrow> bytes" where
  "bytes_of s = map of_char s"

definition ducknng_frame_name_equals :: "ducknng_frame \<Rightarrow> cstring \<Rightarrow> bool" where
  "ducknng_frame_name_equals frame name =
     (case name of None \<Rightarrow> False
      | Some s \<Rightarrow> (let n = length s in
          f_name_len frame = of_nat n \<and> take n (f_name frame) = bytes_of s))"

text \<open>
  The prefix of an upload batch: a 64-bit session id, a 16-bit token length, the token. The result
  is the session id, the token pointer, the token length and the offset of the batch.
\<close>

definition ducknng_upload_append_parse_prefix ::
  "bytes option \<Rightarrow> size_t \<Rightarrow> (u64 \<times> bytes \<times> size_t \<times> size_t) option" where
  "ducknng_upload_append_parse_prefix payload payload_len = do {
     p \<leftarrow> payload;
     require (\<not> payload_len < 10);
     let token_len = ducknng_wire_le16_read (drop 8 p);
     require (\<not> (token_len = 0 \<or> token_len > DUCKNNG_UPLOAD_TOKEN_MAX \<or>
                 (ucast token_len :: size_t) > payload_len - 10));
     Some (ducknng_wire_le64_read p, drop 10 p, ucast token_len, 10 + ucast token_len) }"

section \<open>Messages\<close>

text \<open>
  Replies are built into a message whose body \<open>nng_msg_alloc\<close> provides: \<open>msg_alloc n\<close> is the body
  of a fresh message of \<open>n\<close> bytes, \<open>None\<close> when the allocation fails.
\<close>

definition ducknng_decode_request :: "bytes option \<Rightarrow> ducknng_frame option" where
  "ducknng_decode_request msg = do {
     body \<leftarrow> msg;
     ducknng_decode_frame_bytes (Some body) (of_nat (length body)) }"

definition ducknng_build_reply_status ::
  "(size_t \<Rightarrow> bytes option) \<Rightarrow> u8 \<Rightarrow> cstring \<Rightarrow> u32 \<Rightarrow> int \<Rightarrow> cstring \<Rightarrow> bytes option \<Rightarrow> u64
     \<Rightarrow> bytes option" where
  "ducknng_build_reply_status msg_alloc type name flags status error payload payload_len = do {
     let parts = \<lparr> p_type = type, p_status = status, p_flags = flags,
       p_name = map_option bytes_of name, p_name_len = of_nat (length (deref name)),
       p_error = map_option bytes_of error, p_error_len = of_nat (length (deref error)),
       p_payload = payload, p_payload_len = payload_len \<rparr>;
     required \<leftarrow> ducknng_frame_measure parts;
     body \<leftarrow> msg_alloc required;
     let (rc, written, body') = ducknng_encode_frame_bytes parts (Some body) (of_nat (length body));
     require (\<not> (rc \<noteq> 0 \<or> written \<noteq> required));
     body' }"

definition ducknng_build_reply ::
  "(size_t \<Rightarrow> bytes option) \<Rightarrow> u8 \<Rightarrow> cstring \<Rightarrow> u32 \<Rightarrow> cstring \<Rightarrow> bytes option \<Rightarrow> u64
     \<Rightarrow> bytes option" where
  "ducknng_build_reply msg_alloc type name flags error payload payload_len =
     ducknng_build_reply_status msg_alloc type name flags DUCKNNG_STATUS_OK error payload payload_len"

definition ducknng_error_msg ::
  "(size_t \<Rightarrow> bytes option) \<Rightarrow> cstring \<Rightarrow> int \<Rightarrow> cstring \<Rightarrow> bytes option" where
  "ducknng_error_msg msg_alloc name errcode message =
     (let errcode = (if errcode \<le> DUCKNNG_STATUS_OK \<or> errcode > DUCKNNG_STATUS_DISABLED
                  then DUCKNNG_STATUS_INTERNAL else errcode)
      in ducknng_build_reply_status msg_alloc DUCKNNG_RPC_ERROR name 0 errcode
           (if message \<noteq> None then message else Some ''ducknng: unspecified error'') None 0)"

section \<open>Layout of a frame\<close>

lemma length_le32_bytes [simp]: "length (le32_bytes v) = 4"
  by (simp add: le32_bytes_def)

lemma length_le64_bytes [simp]: "length (le64_bytes v) = 8"
  by (simp add: le64_bytes_def)

lemma le32_read_bytes [simp]: "ducknng_wire_le32_read (le32_bytes v @ r) = v"
proof (rule bit_word_eqI)
  fix n assume "n < LENGTH(32)"
  then consider "n < 8" | "8 \<le> n" "n < 16" | "16 \<le> n" "n < 24" | "24 \<le> n" "n < 32"
    by fastforce
  then show "bit (ducknng_wire_le32_read (le32_bytes v @ r)) n = bit v n"
    by cases (auto simp: ducknng_wire_le32_read_def le32_bytes_def bit_simps bit_u8_out)
qed

lemma le32_bytes_read:
  assumes "4 \<le> length d"
  shows "le32_bytes (ducknng_wire_le32_read d) = take 4 d"
proof -
  obtain a b c e r where d: "d = a # b # c # e # r"
    using assms by (auto simp: numeral_eq_Suc Suc_le_length_iff)
  have "ucast (take_bit 8 (ducknng_wire_le32_read d)) = a"
    "ucast (take_bit 8 (drop_bit 8 (ducknng_wire_le32_read d))) = b"
    "ucast (take_bit 8 (drop_bit 16 (ducknng_wire_le32_read d))) = c"
    "ucast (take_bit 8 (drop_bit 24 (ducknng_wire_le32_read d))) = e"
    by (rule bit_word_eqI, auto simp: d ducknng_wire_le32_read_def bit_simps bit_u8_out)+
  then show ?thesis by (simp add: d le32_bytes_def)
qed

lemma le64_read_bytes [simp]: "ducknng_wire_le64_read (le64_bytes v @ r) = v"
proof (rule bit_word_eqI)
  fix n assume n: "n < LENGTH(64)"
  have "drop 4 (le64_bytes v @ r) = le32_bytes (ucast (drop_bit 32 v)) @ r"
    by (simp add: le64_bytes_def)
  then have "ducknng_wire_le64_read (le64_bytes v @ r) =
      ucast (ucast v :: u32) OR push_bit 32 (ucast (ucast (drop_bit 32 v) :: u32))"
    by (simp add: ducknng_wire_le64_read_def) (simp add: le64_bytes_def)
  then show "bit (ducknng_wire_le64_read (le64_bytes v @ r)) n = bit v n"
    using n by (cases "n < 32") (auto simp: bit_simps)
qed

lemma le64_bytes_read:
  assumes "8 \<le> length d"
  shows "le64_bytes (ducknng_wire_le64_read d) = take 8 d"
proof -
  let ?lo = "ducknng_wire_le32_read d" and ?hi = "ducknng_wire_le32_read (drop 4 d)"
  have "ucast (ducknng_wire_le64_read d) = ?lo"
    by (rule bit_word_eqI) (auto simp: ducknng_wire_le64_read_def bit_simps)
  moreover have "ucast (drop_bit 32 (ducknng_wire_le64_read d)) = ?hi"
    by (rule bit_word_eqI) (auto simp: ducknng_wire_le64_read_def bit_simps bit_u32_out)
  moreover have "take 8 d = take 4 d @ take 4 (drop 4 d)"
    using take_add [of 4 4 d] by simp
  ultimately show ?thesis
    using assms by (simp add: le64_bytes_def le32_bytes_read)
qed

text \<open>The header and the whole frame as the concatenation of their fields.\<close>

definition control_word :: "ducknng_frame_parts \<Rightarrow> u32" where
  "control_word p = p_flags p OR push_bit 24 (word_of_int (p_status p))"

definition header_bytes :: "ducknng_frame_parts \<Rightarrow> bytes" where
  "header_bytes p = [DUCKNNG_WIRE_VERSION, p_type p] @ le32_bytes (control_word p) @
     le32_bytes (ucast (p_name_len p)) @ le32_bytes (ucast (p_error_len p)) @
     le64_bytes (p_payload_len p)"

definition prefix_bytes :: "ducknng_frame_parts \<Rightarrow> bytes" where
  "prefix_bytes p = header_bytes p @ counted (p_name p) (p_name_len p) @
     counted (p_error p) (p_error_len p)"

definition frame_bytes :: "ducknng_frame_parts \<Rightarrow> bytes" where
  "frame_bytes p = prefix_bytes p @ counted (p_payload p) (p_payload_len p)"

lemma length_header_bytes [simp]: "length (header_bytes p) = 22"
  by (simp add: header_bytes_def)

lemma counted_0 [simp]: "counted p 0 = []"
  by (simp add: counted_def)

lemma length_counted:
  "readable p n \<Longrightarrow> \<not> (n > 0 \<and> p = None) \<Longrightarrow> length (counted p n) = unat n"
  by (cases p) (auto simp: counted_def readable_def word_neq_0_conv [symmetric])

text \<open>What a successful validation says.\<close>

lemma validate_SomeD:
  assumes "ducknng_frame_parts_validate p rp = Some n"
  shows "\<not> p_type p > DUCKNNG_RPC_EVENT" "unat (p_name_len p) \<le> 128" "unat (p_error_len p) < 2 ^ 32"
    "p_flags p AND NOT DUCKNNG_RPC_FLAGS_MASK = 0"
    "\<not> (p_name_len p > 0 \<and> p_name p = None)" "\<not> (p_error_len p > 0 \<and> p_error p = None)"
    "rp \<Longrightarrow> \<not> (p_payload_len p > 0 \<and> p_payload p = None)"
    "if p_type p = DUCKNNG_RPC_ERROR then 0 < p_status p \<and> p_status p \<le> 10 \<and> p_error_len p \<noteq> 0
     else p_status p = 0 \<and> p_error_len p = 0"
    "unat n = 22 + unat (p_name_len p) + unat (p_error_len p) + unat (p_payload_len p)"
proof -
  obtain t1 t2 where t: "ducknng_size_add 22 (p_name_len p) = Some t1"
      "ducknng_size_add t1 (p_error_len p) = Some t2" "ducknng_size_add t2 (p_payload_len p) = Some n"
    using assms by (auto simp: ducknng_frame_parts_validate_def bind_eq_Some_conv split: if_splits)
  then show "unat n = 22 + unat (p_name_len p) + unat (p_error_len p) + unat (p_payload_len p)"
    by (auto dest!: size_add_SomeD)
  show "\<not> p_type p > DUCKNNG_RPC_EVENT" "p_flags p AND NOT DUCKNNG_RPC_FLAGS_MASK = 0"
    "\<not> (p_name_len p > 0 \<and> p_name p = None)" "\<not> (p_error_len p > 0 \<and> p_error p = None)"
    "rp \<Longrightarrow> \<not> (p_payload_len p > 0 \<and> p_payload p = None)"
    using assms by (auto simp: ducknng_frame_parts_validate_def split: if_splits)
  show "if p_type p = DUCKNNG_RPC_ERROR then 0 < p_status p \<and> p_status p \<le> 10 \<and> p_error_len p \<noteq> 0
     else p_status p = 0 \<and> p_error_len p = 0"
    using assms by (auto simp: ducknng_frame_parts_validate_def split: if_splits)
  have "p_name_len p \<le> 128" "p_error_len p \<le> 0xffffffff"
    using assms by (auto simp: ducknng_frame_parts_validate_def not_less split: if_splits)
  then show "unat (p_name_len p) \<le> 128" "unat (p_error_len p) < 2 ^ 32"
    by (simp_all add: word_le_nat_alt)
qed

section \<open>The encoder writes the layout\<close>

lemma header_pokes:
  "ducknng_wire_le64_write (ducknng_wire_le32_write (ducknng_wire_le32_write
     (ducknng_wire_le32_write (poke (poke (poke d 0 (replicate 22 0)) 0 [v]) 1 [t]) 2 a) 6 b) 10 c) 14 l
   = poke d 0 ([v, t] @ le32_bytes a @ le32_bytes b @ le32_bytes c @ le64_bytes l)"
proof -
  obtain a0 a1 a2 a3 where a: "le32_bytes a = [a0, a1, a2, a3]" by (simp add: le32_bytes_def)
  obtain b0 b1 b2 b3 where b: "le32_bytes b = [b0, b1, b2, b3]" by (simp add: le32_bytes_def)
  obtain c0 c1 c2 c3 where c: "le32_bytes c = [c0, c1, c2, c3]" by (simp add: le32_bytes_def)
  obtain l0 l1 l2 l3 where l: "le32_bytes (ucast l) = [l0, l1, l2, l3]" by (simp add: le32_bytes_def)
  obtain h0 h1 h2 h3 where h: "le32_bytes (ucast (drop_bit 32 l)) = [h0, h1, h2, h3]"
    by (simp add: le32_bytes_def)
  show ?thesis
    unfolding ducknng_wire_le64_write_def ducknng_wire_le32_write_def le64_bytes_def a b c l h
    by (simp add: poke_inside) (simp add: poke_def eval_nat_numeral)
qed

lemma write_prefix_layout:
  assumes "readable (p_name p) (p_name_len p)" "\<not> (p_name_len p > 0 \<and> p_name p = None)"
    and "readable (p_error p) (p_error_len p)" "\<not> (p_error_len p > 0 \<and> p_error p = None)"
    and "22 + unat (p_name_len p) + unat (p_error_len p) \<le> length d"
  shows "ducknng_wire_write_prefix p d =
    (22 + unat (p_name_len p) + unat (p_error_len p), poke d 0 (prefix_bytes p))"
proof -
  let ?n = "counted (p_name p) (p_name_len p)" and ?e = "counted (p_error p) (p_error_len p)"
  have len: "length ?n = unat (p_name_len p)" "length ?e = unat (p_error_len p)"
    using assms by (simp_all add: length_counted)
  have hdr: "ducknng_wire_le64_write (ducknng_wire_le32_write (ducknng_wire_le32_write
      (ducknng_wire_le32_write (poke (poke (poke d 0 (replicate 22 0)) 0 [DUCKNNG_WIRE_VERSION]) 1 [p_type p]) 2
        (p_flags p OR push_bit 24 (word_of_int (p_status p)))) 6 (ucast (p_name_len p))) 10
      (ucast (p_error_len p))) 14 (p_payload_len p) = poke d 0 (header_bytes p)"
    by (simp only: header_pokes header_bytes_def control_word_def)
  have name: "poke (poke d 0 (header_bytes p)) 22 ?n = poke d 0 (header_bytes p @ ?n)"
    using assms(5) by (intro poke_append) simp_all
  have err: "poke (poke d 0 (header_bytes p @ ?n)) (22 + unat (p_name_len p)) ?e =
      poke d 0 (prefix_bytes p)"
    using assms(5) len by (subst poke_append) (simp_all add: prefix_bytes_def)
  show ?thesis
    unfolding ducknng_wire_write_prefix_def hdr Let_def
    using name err len by (cases "p_name_len p = 0"; cases "p_error_len p = 0")
      (simp_all add: word_neq_0_conv [symmetric] prefix_bytes_def)
qed

lemma parts_readableD:
  assumes "parts_readable p"
  shows "readable (p_name p) (p_name_len p)" "readable (p_error p) (p_error_len p)"
    "readable (p_payload p) (p_payload_len p)"
  using assms by (simp_all add: parts_readable_def)

lemma length_prefix_bytes:
  assumes "parts_readable p" "ducknng_frame_parts_validate p rp = Some n"
  shows "length (prefix_bytes p) = 22 + unat (p_name_len p) + unat (p_error_len p)"
  using validate_SomeD [OF assms(2)] parts_readableD [OF assms(1)]
  by (simp add: prefix_bytes_def length_counted)

lemma length_frame_bytes:
  assumes "parts_readable p" "ducknng_frame_parts_validate p True = Some n"
  shows "length (frame_bytes p) = unat n"
  using validate_SomeD [OF assms(2)] parts_readableD [OF assms(1)] length_prefix_bytes [OF assms]
  by (simp add: frame_bytes_def length_counted)

lemma encode_layout:
  assumes "parts_readable p" "ducknng_frame_parts_validate p True = Some n"
    and "n \<le> capacity" "unat capacity \<le> length d"
  shows "ducknng_encode_frame_bytes p (Some d) capacity = (0, n, Some (poke d 0 (frame_bytes p)))"
proof -
  have n: "unat n \<le> length d" using assms(3,4) by (simp add: word_le_nat_alt)
  note v = validate_SomeD [OF assms(2)] parts_readableD [OF assms(1)]
  have "ducknng_wire_write_prefix p d =
      (22 + unat (p_name_len p) + unat (p_error_len p), poke d 0 (prefix_bytes p))"
    using v n by (intro write_prefix_layout) simp_all
  moreover have "poke (poke d 0 (prefix_bytes p)) (22 + unat (p_name_len p) + unat (p_error_len p))
      (counted (p_payload p) (p_payload_len p)) = poke d 0 (frame_bytes p)"
    using v(9) n length_prefix_bytes [OF assms(1,2)] by (subst poke_append) (simp_all add: frame_bytes_def)
  ultimately show ?thesis
    using assms(2,3) by (cases "p_payload_len p = 0")
      (auto simp: ducknng_encode_frame_bytes_def word_neq_0_conv [symmetric] frame_bytes_def not_less)
qed

section \<open>The decoder inverts the layout\<close>

lemma header_fields:
  assumes "d = header_bytes p @ r"
  shows "d ! 0 = DUCKNNG_WIRE_VERSION" "d ! 1 = p_type p"
    "ducknng_wire_le32_read (drop 2 d) = control_word p"
    "ducknng_wire_le32_read (drop 6 d) = ucast (p_name_len p)"
    "ducknng_wire_le32_read (drop 10 d) = ucast (p_error_len p)"
    "ducknng_wire_le64_read (drop 14 d) = p_payload_len p"
    "drop 22 d = r"
  by (simp_all add: assms header_bytes_def numeral_2_eq_2)

lemma wire_masks:
  "DUCKNNG_RPC_FLAGS_MASK = mask 24" "DUCKNNG_RPC_STATUS_MASK = NOT (mask 24)"
  by (simp_all add: mask_eq_exp_minus_1)

lemma control_word_split:
  assumes "p_flags p AND NOT DUCKNNG_RPC_FLAGS_MASK = 0" "0 \<le> p_status p" "p_status p < 256"
  shows "drop_bit 24 (control_word p AND DUCKNNG_RPC_STATUS_MASK) = word_of_int (p_status p)"
    "control_word p AND DUCKNNG_RPC_FLAGS_MASK = p_flags p"
proof -
  have f: "bit (p_flags p) n \<Longrightarrow> n < 24" for n
  proof (rule ccontr)
    assume b: "bit (p_flags p) n" and n: "\<not> n < 24"
    then have "bit (p_flags p AND NOT (mask 24)) n"
      using bit_imp_le_length [OF b] by (simp add: bit_simps)
    with assms(1) show False by (simp add: wire_masks)
  qed
  have "take_bit 8 (p_status p) = p_status p"
    using assms(2,3) by (simp add: take_bit_int_eq_self)
  then have s: "bit (p_status p) n \<Longrightarrow> n < 8" for n
    by (metis bit_take_bit_iff)
  show "drop_bit 24 (control_word p AND DUCKNNG_RPC_STATUS_MASK) = word_of_int (p_status p)"
    unfolding wire_masks control_word_def
    by (rule bit_word_eqI) (auto simp: bit_simps dest: f s)
  show "control_word p AND DUCKNNG_RPC_FLAGS_MASK = p_flags p"
    unfolding wire_masks control_word_def
    by (rule bit_word_eqI) (auto simp: bit_simps dest: f)
qed

lemma ucast_u64_u32_small:
  "unat (x :: u64) < 2 ^ 32 \<Longrightarrow> unat (ucast x :: u32) = unat x"
  by (simp add: unsigned_ucast_eq take_bit_nat_eq_self)

lemma decode_layout:
  assumes "parts_readable p" "ducknng_frame_parts_validate p True = Some n"
  shows "\<exists>f. ducknng_decode_frame_bytes (Some (frame_bytes p @ r)) n = Some f \<and>
    f_version f = DUCKNNG_WIRE_VERSION \<and> f_type f = p_type p \<and>
    f_status f = word_of_int (p_status p) \<and> f_flags f = p_flags p \<and>
    frame_name f = counted (p_name p) (p_name_len p) \<and>
    frame_error f = counted (p_error p) (p_error_len p) \<and>
    frame_payload f = counted (p_payload p) (p_payload_len p)"
proof -
  note v = validate_SomeD [OF assms(2)] and rd = parts_readableD [OF assms(1)]
  let ?n = "counted (p_name p) (p_name_len p)" and ?e = "counted (p_error p) (p_error_len p)"
    and ?l = "counted (p_payload p) (p_payload_len p)"
  have h: "frame_bytes p @ r = header_bytes p @ ?n @ ?e @ ?l @ r"
    by (simp add: frame_bytes_def prefix_bytes_def)
  have st: "0 \<le> p_status p" "p_status p < 256" using v(8) by (auto split: if_splits)
  have len: "length ?n = unat (p_name_len p)" "length ?e = unat (p_error_len p)"
      "length ?l = unat (p_payload_len p)"
    using v rd by (simp_all add: length_counted)
  have nl: "unat (ucast (p_name_len p) :: u32) = unat (p_name_len p)"
      "unat (ucast (p_error_len p) :: u32) = unat (p_error_len p)"
    using v(2,3) by (simp_all add: ucast_u64_u32_small)
  then have uc: "(ucast (ucast (p_name_len p) :: u32) :: u64) = p_name_len p"
      "(ucast (ucast (p_error_len p) :: u32) :: u64) = p_error_len p"
    by (simp_all add: word_unat_eq_iff)
  define fixed where "fixed = 22 + p_name_len p + p_error_len p"
  have add: "ducknng_size_add 22 (p_name_len p) = Some (22 + p_name_len p)"
      "ducknng_size_add (22 + p_name_len p) (p_error_len p) = Some fixed"
    using v(2,3) by (auto simp: unat_word_ariths fixed_def)
  then have uf: "unat fixed = 22 + unat (p_name_len p) + unat (p_error_len p)"
    by (auto dest!: size_add_SomeD)
  have bl: "n - fixed = p_payload_len p" "\<not> n < fixed" "\<not> n < 22"
    using v(9) uf by (simp_all add: word_unat_eq_iff unat_sub word_le_nat_alt word_less_nat_alt)
  let ?s = "word_of_int (p_status p) :: u32"
  have us: "unat ?s = nat (p_status p)"
    using st by (simp add: unsigned_of_int take_bit_int_eq_self)
  have stat: "(if p_type p = DUCKNNG_RPC_ERROR
      then (if ?s > DUCKNNG_STATUS_DISABLED \<or> (ucast (p_error_len p) :: u32) = 0 then None
            else Some (if ?s \<noteq> 0 then ucast ?s else DUCKNNG_STATUS_UNSPECIFIED))
      else (if ?s \<noteq> DUCKNNG_STATUS_OK \<or> (ucast (p_error_len p) :: u32) \<noteq> 0 then None
            else Some DUCKNNG_STATUS_OK)) = Some (word_of_int (p_status p) :: u8)"
    using v(8) us nl(2) st
    by (auto simp: word_less_nat_alt word_unat_eq_iff unsigned_of_int take_bit_int_eq_self
        unsigned_ucast_eq take_bit_nat_eq_self split: if_splits)
  show ?thesis
    unfolding ducknng_decode_frame_bytes_def Let_def Option.bind.bind_lunit header_fields [OF h]
      control_word_split [OF v(4) st] uc stat
    using v(1,2) bl nl len add
    by (simp add: frame_name_def frame_error_def frame_payload_def word_less_nat_alt [where 'a = 32])
qed

section \<open>The encoder inverts the decoder\<close>

text \<open>The encoder's input for the fields of a decoded frame.\<close>

definition parts_of_frame :: "ducknng_frame \<Rightarrow> ducknng_frame_parts" where
  "parts_of_frame f = \<lparr> p_type = f_type f, p_status = uint (f_status f), p_flags = f_flags f,
     p_name = Some (f_name f), p_name_len = ucast (f_name_len f),
     p_error = Some (f_error f), p_error_len = ucast (f_error_len f),
     p_payload = Some (f_payload f), p_payload_len = f_payload_len f \<rparr>"

lemma decode_SomeD:
  assumes "ducknng_decode_frame_bytes (Some d) len = Some f"
  defines "w \<equiv> ducknng_wire_le32_read (drop 2 d)"
  shows "22 \<le> unat len" "d ! 0 = DUCKNNG_WIRE_VERSION" "f_version f = d ! 0" "f_type f = d ! 1"
    "\<not> f_type f > DUCKNNG_RPC_EVENT" "f_flags f = w AND DUCKNNG_RPC_FLAGS_MASK"
    "f_name f = drop 22 d" "f_name_len f = ducknng_wire_le32_read (drop 6 d)"
    "unat (f_name_len f) \<le> 128"
    "f_error f = drop (unat (f_name_len f)) (f_name f)"
    "f_error_len f = ducknng_wire_le32_read (drop 10 d)"
    "f_payload f = drop (unat (f_error_len f)) (f_error f)"
    "f_payload_len f = ducknng_wire_le64_read (drop 14 d)"
    "unat len = 22 + unat (f_name_len f) + unat (f_error_len f) + unat (f_payload_len f)"
    "if f_type f = DUCKNNG_RPC_ERROR
     then drop_bit 24 (w AND DUCKNNG_RPC_STATUS_MASK) \<le> 10 \<and> f_error_len f \<noteq> 0 \<and>
       f_status f = (if drop_bit 24 (w AND DUCKNNG_RPC_STATUS_MASK) \<noteq> 0
                     then ucast (drop_bit 24 (w AND DUCKNNG_RPC_STATUS_MASK)) else 255)
     else drop_bit 24 (w AND DUCKNNG_RPC_STATUS_MASK) = 0 \<and> f_error_len f = 0 \<and> f_status f = 0"
proof -
  show "22 \<le> unat len" "d ! 0 = DUCKNNG_WIRE_VERSION" "f_version f = d ! 0" "f_type f = d ! 1"
    "\<not> f_type f > DUCKNNG_RPC_EVENT" "f_flags f = w AND DUCKNNG_RPC_FLAGS_MASK"
    "f_name f = drop 22 d" "f_name_len f = ducknng_wire_le32_read (drop 6 d)"
    "f_error f = drop (unat (f_name_len f)) (f_name f)"
    "f_error_len f = ducknng_wire_le32_read (drop 10 d)"
    "f_payload f = drop (unat (f_error_len f)) (f_error f)"
    "f_payload_len f = ducknng_wire_le64_read (drop 14 d)"
    using assms(1) unfolding ducknng_decode_frame_bytes_def Let_def w_def
    by (auto simp: bind_eq_Some_conv word_less_nat_alt [of len] split: if_splits)
  show "unat (f_name_len f) \<le> 128"
    using assms(1) unfolding ducknng_decode_frame_bytes_def Let_def
    by (auto simp: bind_eq_Some_conv word_less_nat_alt [where 'a = 32] split: if_splits)
  obtain t1 t2 where t: "ducknng_size_add 22 (ucast (f_name_len f)) = Some t1"
      "ducknng_size_add t1 (ucast (f_error_len f)) = Some t2" "t2 \<le> len" "f_payload_len f = len - t2"
    using assms(1) unfolding ducknng_decode_frame_bytes_def Let_def
    by (auto simp: bind_eq_Some_conv not_less split: if_splits)
  then show "unat len = 22 + unat (f_name_len f) + unat (f_error_len f) + unat (f_payload_len f)"
    by (auto simp: unat_sub word_le_nat_alt dest!: size_add_SomeD)
  show "if f_type f = DUCKNNG_RPC_ERROR
     then drop_bit 24 (w AND DUCKNNG_RPC_STATUS_MASK) \<le> 10 \<and> f_error_len f \<noteq> 0 \<and>
       f_status f = (if drop_bit 24 (w AND DUCKNNG_RPC_STATUS_MASK) \<noteq> 0
                     then ucast (drop_bit 24 (w AND DUCKNNG_RPC_STATUS_MASK)) else 255)
     else drop_bit 24 (w AND DUCKNNG_RPC_STATUS_MASK) = 0 \<and> f_error_len f = 0 \<and> f_status f = 0"
    using assms(1) unfolding ducknng_decode_frame_bytes_def Let_def w_def
    by (auto simp: bind_eq_Some_conv not_less split: if_splits)
qed

lemma control_word_join:
  fixes w :: u32
  shows "(w AND DUCKNNG_RPC_FLAGS_MASK) OR push_bit 24 (drop_bit 24 (w AND DUCKNNG_RPC_STATUS_MASK)) = w"
  unfolding wire_masks by (rule bit_word_eqI) (auto simp: bit_simps)

lemma decode_status:
  assumes "ducknng_decode_frame_bytes (Some d) len = Some f" "f_status f \<noteq> 255"
  shows "word_of_int (uint (f_status f)) =
      drop_bit 24 (ducknng_wire_le32_read (drop 2 d) AND DUCKNNG_RPC_STATUS_MASK)"
    and "if f_type f = DUCKNNG_RPC_ERROR then 0 < uint (f_status f) \<and> uint (f_status f) \<le> 10
         else f_status f = 0"
proof -
  let ?s = "drop_bit 24 (ducknng_wire_le32_read (drop 2 d) AND DUCKNNG_RPC_STATUS_MASK)"
  note st = decode_SomeD(15) [OF assms(1)]
  have uu: "uint (ucast ?s :: u8) = uint ?s" if "?s \<le> 10"
    using that unfolding word_le_def by (simp only: unsigned_ucast_eq) (auto simp: take_bit_int_eq_self)
  have "word_of_int (uint (f_status f)) = ?s \<and>
      (if f_type f = DUCKNNG_RPC_ERROR then 0 < uint (f_status f) \<and> uint (f_status f) \<le> 10
         else f_status f = 0)"
  proof (cases "f_type f = DUCKNNG_RPC_ERROR")
    case True
    with st assms(2) have s: "?s \<le> 10" "?s \<noteq> 0" "f_status f = ucast ?s"
      by (simp_all only: if_True) (auto split: if_splits)
    then have "uint (f_status f) = uint ?s" using uu by simp
    with s(1,2) True show ?thesis
      by (simp only: word_of_int_uint word_le_def) (simp add: uint_0_iff order_less_le)
  next
    case False
    with st show ?thesis by (simp only: if_False) auto
  qed
  then show "word_of_int (uint (f_status f)) = ?s"
    "if f_type f = DUCKNNG_RPC_ERROR then 0 < uint (f_status f) \<and> uint (f_status f) \<le> 10
         else f_status f = 0" by simp_all
qed

lemma decode_validates:
  assumes "ducknng_decode_frame_bytes (Some d) len = Some f" "f_status f \<noteq> 255"
  shows "ducknng_frame_measure (parts_of_frame f) = Some len"
proof -
  note v = decode_SomeD [OF assms(1)]
  let ?n = "ucast (f_name_len f) :: u64" and ?e = "ucast (f_error_len f) :: u64"
  have b: "unat ?n \<le> 128" "unat ?e < 2 ^ 32" using v(9) unat_u32_less by simp_all
  have a1: "ducknng_size_add 22 ?n = Some (22 + ?n)" and u1: "unat (22 + ?n) = 22 + unat ?n"
    using b by (auto simp: unat_word_ariths)
  have a2: "ducknng_size_add (22 + ?n) ?e = Some (22 + ?n + ?e)"
    and u2: "unat (22 + ?n + ?e) = 22 + unat ?n + unat ?e"
    using b by (auto simp: unat_word_ariths)
  have u3: "unat (22 + ?n + ?e) + unat (f_payload_len f) = unat len"
    using v(14) u2 by simp
  then have a3: "ducknng_size_add (22 + ?n + ?e) (f_payload_len f) = Some len"
    using unat_u64_less [of len] by (simp add: size_add_Some word_unat_eq_iff unat_add_no_overflow)
  have m: "f_flags f AND NOT DUCKNNG_RPC_FLAGS_MASK = 0"
    unfolding v(6) by (rule bit_word_eqI) (auto simp: bit_simps)
  have e0: "?e = 0 \<longleftrightarrow> f_error_len f = 0" by (auto simp: word_unat_eq_iff)
  have g: "\<not> ?n > 128" "\<not> ?e > 0xffffffff" using b by (simp_all add: word_less_nat_alt)
  have t: "f_type f = DUCKNNG_RPC_ERROR \<longrightarrow> f_error_len f \<noteq> 0"
      "f_type f \<noteq> DUCKNNG_RPC_ERROR \<longrightarrow> f_error_len f = 0"
    using v(15) by (auto split: if_splits)
  show ?thesis
    using g m v(5) decode_status(2) [OF assms] t e0 a1 a2 a3
    by (auto simp: ducknng_frame_measure_def ducknng_frame_parts_validate_def parts_of_frame_def
        split: if_splits)
qed

lemma decode_readable:
  assumes "ducknng_decode_frame_bytes (Some d) len = Some f" "unat len \<le> length d"
  shows "parts_readable (parts_of_frame f)"
  using decode_SomeD(14) [OF assms(1)] assms(2)
  by (simp add: parts_readable_def readable_def parts_of_frame_def decode_SomeD(7,10,12) [OF assms(1)])
    linarith

lemma decode_header:
  assumes "ducknng_decode_frame_bytes (Some d) len = Some f" "unat len \<le> length d" "f_status f \<noteq> 255"
  shows "header_bytes (parts_of_frame f) = take 22 d"
proof -
  note v = decode_SomeD [OF assms(1)]
  have long: "22 \<le> length d" using v(1) assms(2) by simp
  have cw: "control_word (parts_of_frame f) = ducknng_wire_le32_read (drop 2 d)"
    unfolding control_word_def using decode_status(1) [OF assms(1,3)] v(6)
      control_word_join [of "ducknng_wire_le32_read (drop 2 d)"]
    by (simp only: parts_of_frame_def ducknng_frame_parts.simps)
  have uc: "ucast (ucast x :: u64) = x" for x :: u32
    by (rule bit_word_eqI) (auto simp: bit_simps)
  have "take 22 d = take 1 d @ take 1 (drop 1 d) @ take 4 (drop 2 d) @ take 4 (drop 6 d)
      @ take 4 (drop 10 d) @ take 8 (drop 14 d)"
    using take_add [of 1 21 d] take_add [of 1 20 "drop 1 d"] take_add [of 4 16 "drop 2 d"]
      take_add [of 4 12 "drop 6 d"] take_add [of 4 8 "drop 10 d"] by (simp add: numeral_2_eq_2)
  moreover have "take 1 d = [d ! 0]" "take 1 (drop 1 d) = [d ! 1]"
    using long by (cases d; cases "tl d"; simp)+
  ultimately show ?thesis
    using long v(2,4) by (simp add: header_bytes_def cw) 
      (simp add: parts_of_frame_def uc v(8,11,13) le32_bytes_read le64_bytes_read)
qed

lemma decode_bytes:
  assumes "ducknng_decode_frame_bytes (Some d) len = Some f" "unat len \<le> length d" "f_status f \<noteq> 255"
  shows "frame_bytes (parts_of_frame f) = take (unat len) d"
proof -
  note v = decode_SomeD [OF assms(1)]
  let ?n = "unat (f_name_len f)" and ?e = "unat (f_error_len f)" and ?p = "unat (f_payload_len f)"
  have "take (unat len) d = take 22 d @ take ?n (drop 22 d) @ take ?e (drop ?n (drop 22 d)) @
      take ?p (drop ?e (drop ?n (drop 22 d)))"
    unfolding v(14) using take_add [of 22 "?n + ?e + ?p" d] take_add [of ?n "?e + ?p" "drop 22 d"]
      take_add [of ?e ?p "drop ?n (drop 22 d)"] by (simp add: ac_simps)
  then show ?thesis
    unfolding frame_bytes_def prefix_bytes_def decode_header [OF assms]
    by (simp add: parts_of_frame_def counted_def v(7,10,12))
qed

section \<open>Replies\<close>

text \<open>The arguments for which a reply is a valid frame.\<close>

definition reply_ok ::
  "u8 \<Rightarrow> cstring \<Rightarrow> u32 \<Rightarrow> int \<Rightarrow> cstring \<Rightarrow> bytes option \<Rightarrow> u64 \<Rightarrow> bool" where
  "reply_ok type name flags status error payload payload_len \<longleftrightarrow>
     \<not> type > DUCKNNG_RPC_EVENT \<and> length (deref name) \<le> 128 \<and> length (deref error) < 2 ^ 32 \<and>
     flags AND NOT DUCKNNG_RPC_FLAGS_MASK = 0 \<and> readable payload payload_len \<and>
     (payload_len > 0 \<longrightarrow> payload \<noteq> None) \<and>
     (if type = DUCKNNG_RPC_ERROR then 0 < status \<and> status \<le> 10 \<and> deref error \<noteq> []
      else status = 0 \<and> deref error = []) \<and>
     22 + length (deref name) + length (deref error) + unat payload_len < 2 ^ 64"

definition reply_parts ::
  "u8 \<Rightarrow> cstring \<Rightarrow> u32 \<Rightarrow> int \<Rightarrow> cstring \<Rightarrow> bytes option \<Rightarrow> u64 \<Rightarrow> ducknng_frame_parts" where
  "reply_parts type name flags status error payload payload_len =
     \<lparr> p_type = type, p_status = status, p_flags = flags,
       p_name = map_option bytes_of name, p_name_len = of_nat (length (deref name)),
       p_error = map_option bytes_of error, p_error_len = of_nat (length (deref error)),
       p_payload = payload, p_payload_len = payload_len \<rparr>"

lemma length_bytes_of [simp]: "length (bytes_of s) = length s"
  by (simp add: bytes_of_def)

lemma deref_map_bytes_of [simp]: "deref (map_option bytes_of s) = bytes_of (deref s)"
  by (cases s) (simp_all add: bytes_of_def)

lemma reply_lens:
  assumes "reply_ok type name flags status error payload payload_len"
  shows "unat (of_nat (length (deref name)) :: u64) = length (deref name)"
    "unat (of_nat (length (deref error)) :: u64) = length (deref error)"
  using assms by (simp_all add: reply_ok_def unat_of_nat_u64)

lemma reply_parts_readable:
  assumes "reply_ok type name flags status error payload payload_len"
  shows "parts_readable (reply_parts type name flags status error payload payload_len)"
  using assms reply_lens [OF assms]
  by (cases name; cases error)
    (simp_all add: parts_readable_def readable_def reply_parts_def reply_ok_def)

lemma reply_parts_validate:
  assumes "reply_ok type name flags status error payload payload_len"
  shows "\<exists>n. ducknng_frame_parts_validate
    (reply_parts type name flags status error payload payload_len) True = Some n"
proof -
  let ?n = "of_nat (length (deref name)) :: u64" and ?e = "of_nat (length (deref error)) :: u64"
  note ok = assms [unfolded reply_ok_def] and len = reply_lens [OF assms]
  have g: "\<not> ?n > 128" "\<not> ?e > 0xffffffff"
    using ok len by (simp_all add: word_less_nat_alt)
  have z: "?e = 0 \<longleftrightarrow> deref error = []" "?n > 0 \<longrightarrow> name \<noteq> None" "?e > 0 \<longrightarrow> error \<noteq> None"
    using len by (cases name; cases error; simp add: word_unat_eq_iff)+
  have u1: "unat (22 + ?n) = 22 + length (deref name)"
    using ok len by (subst unat_add_no_overflow) simp_all
  have u2: "unat (22 + ?n + ?e) = 22 + length (deref name) + length (deref error)"
    using ok len u1 by (subst unat_add_no_overflow) simp_all
  have "ducknng_size_add 22 ?n = Some (22 + ?n)" "ducknng_size_add (22 + ?n) ?e = Some (22 + ?n + ?e)"
      "ducknng_size_add (22 + ?n + ?e) payload_len = Some (22 + ?n + ?e + payload_len)"
    using ok len u1 u2 by (simp_all add: size_add_Some)
  then show ?thesis
    using g z ok by (auto simp: ducknng_frame_parts_validate_def reply_parts_def)
qed

lemma build_reply_decodes:
  assumes alloc: "\<And>n. \<exists>b. msg_alloc n = Some b \<and> length b = unat n"
    and ok: "reply_ok type name flags status error payload payload_len"
  shows "\<exists>body f. ducknng_build_reply_status msg_alloc type name flags status error payload payload_len
      = Some body \<and> ducknng_decode_request (Some body) = Some f \<and> f_type f = type \<and>
    f_status f = word_of_int status \<and> f_flags f = flags \<and> frame_name f = bytes_of (deref name) \<and>
    frame_error f = bytes_of (deref error) \<and> frame_payload f = counted payload payload_len"
proof -
  define p where "p = reply_parts type name flags status error payload payload_len"
  have rd: "parts_readable p" unfolding p_def by (rule reply_parts_readable [OF ok])
  obtain n where v: "ducknng_frame_parts_validate p True = Some n"
    unfolding p_def using reply_parts_validate [OF ok] by blast
  obtain b where b: "msg_alloc n = Some b" "length b = unat n" using alloc by blast
  have cap: "n \<le> of_nat (length b)" "unat (of_nat (length b) :: u64) \<le> length b" using b(2) by simp_all
  have len: "length (frame_bytes p) = unat n" using length_frame_bytes [OF rd v] .
  have out: "poke b 0 (frame_bytes p) = frame_bytes p" using len b(2) by (simp add: poke_def)
  have "ducknng_build_reply_status msg_alloc type name flags status error payload payload_len
      = Some (frame_bytes p)"
    using encode_layout [OF rd v cap] v b out
    unfolding ducknng_build_reply_status_def Let_def reply_parts_def [symmetric] p_def [symmetric]
    by (simp add: ducknng_frame_measure_def)
  moreover obtain f where "ducknng_decode_request (Some (frame_bytes p)) = Some f"
    "f_type f = p_type p" "f_status f = word_of_int (p_status p)" "f_flags f = p_flags p"
    "frame_name f = counted (p_name p) (p_name_len p)" "frame_error f = counted (p_error p) (p_error_len p)"
    "frame_payload f = counted (p_payload p) (p_payload_len p)"
    using decode_layout [OF rd v, of "[]"] len by (auto simp: ducknng_decode_request_def)
  moreover have "counted (p_name p) (p_name_len p) = bytes_of (deref name)"
      "counted (p_error p) (p_error_len p) = bytes_of (deref error)"
    using reply_lens [OF ok] by (simp_all add: counted_def p_def reply_parts_def)
  ultimately show ?thesis by (auto simp: p_def reply_parts_def)
qed

section \<open>The upload prefix\<close>

text \<open>What a client writes in front of an upload batch, and the server's reading of it.\<close>

definition le16_bytes :: "u16 \<Rightarrow> bytes" where
  "le16_bytes v = [ucast (v AND 0xff), ucast (drop_bit 8 v AND 0xff)]"

definition upload_prefix :: "u64 \<times> bytes \<Rightarrow> bytes" where
  "upload_prefix = (\<lambda>(sid, token). le64_bytes sid @ le16_bytes (of_nat (length token)) @ token)"

definition upload_parse :: "bytes \<Rightarrow> ((u64 \<times> bytes) \<times> bytes) option" where
  "upload_parse bs = do {
     (sid, token, token_len, off) \<leftarrow> ducknng_upload_append_parse_prefix (Some bs) (of_nat (length bs));
     Some ((sid, take (unat token_len) token), drop (unat off) bs) }"

definition upload_token_ok :: "u64 \<times> bytes \<Rightarrow> bool" where
  "upload_token_ok = (\<lambda>(sid, token). token \<noteq> [] \<and> length token \<le> 256)"

lemma le16_read_bytes [simp]: "ducknng_wire_le16_read (le16_bytes v @ r) = v"
proof (rule bit_word_eqI)
  fix n assume "n < LENGTH(16)"
  then consider "n < 8" | "8 \<le> n" "n < 16" by fastforce
  then show "bit (ducknng_wire_le16_read (le16_bytes v @ r)) n = bit v n"
    by cases (auto simp: ducknng_wire_le16_read_def le16_bytes_def bit_simps bit_u8_out)
qed

lemma unat_ucast_u16_u64 [simp]: "unat (ucast (x :: u16) :: u64) = unat x"
  by (simp add: unsigned_ucast_eq take_bit_nat_eq_self_iff
      order_less_trans [OF unsigned_less [of x, where 'a = nat]])

lemma upload_parse_prefix:
  assumes "upload_token_ok a" "fits (upload_prefix a @ rest)"
  shows "upload_parse (upload_prefix a @ rest) = Some (a, rest)"
proof -
  obtain sid token where a: "a = (sid, token)" by (cases a)
  let ?t = "of_nat (length token) :: u16"
  define bs where "bs = upload_prefix a @ rest"
  have ok: "token \<noteq> []" "length token \<le> 256" using assms(1) by (simp_all add: upload_token_ok_def a)
  have t: "unat ?t = length token" using ok by (simp add: unat_of_nat)
  have bs: "bs = le64_bytes sid @ le16_bytes ?t @ token @ rest" by (simp add: bs_def upload_prefix_def a)
  have d8: "drop 8 bs = le16_bytes ?t @ token @ rest" by (simp add: bs)
  have d10: "drop 10 bs = token @ rest" by (simp add: bs le16_bytes_def)
  have lbs: "length bs = 10 + length token + length rest" by (simp add: bs le16_bytes_def)
  then have n: "unat (of_nat (length bs) :: u64) = 10 + length token + length rest"
    using assms(2) by (simp only: bs_def [symmetric] unat_of_nat_u64)
  then have ge: "(10 :: u64) \<le> of_nat (length bs)" by (simp add: word_le_nat_alt)
  then have sub: "unat (of_nat (length bs) - 10 :: u64) = length token + length rest"
    using n by (simp add: unat_sub)
  have rd: "ducknng_wire_le16_read (drop 8 bs) = ?t" "ducknng_wire_le64_read bs = sid"
    unfolding d8 by (simp, simp add: bs)
  have u10: "unat (10 + ucast ?t :: u64) = 10 + length token"
    using t ok by (simp add: unat_word_ariths)
  have "ducknng_upload_append_parse_prefix (Some bs) (of_nat (length bs)) =
      Some (sid, token @ rest, ucast ?t, 10 + ucast ?t)"
    unfolding ducknng_upload_append_parse_prefix_def Let_def Option.bind.bind_lunit rd d10
    using ge t ok sub by (auto simp: word_less_nat_alt word_unat_eq_iff word_le_nat_alt)
  moreover have "drop (10 + length token) bs = rest"
    using drop_drop [of "length token" 10 bs] d10 by (simp add: add.commute)
  ultimately show ?thesis
    unfolding upload_parse_def bs_def [symmetric] using t u10 by (simp add: a)
qed

interpretation upload: prefix_codec upload_prefix upload_parse upload_token_ok
  by unfold_locales (rule upload_parse_prefix)

section \<open>Properties\<close>

text \<open>
  C1. Every frame the encoder accepts is decoded back. For readable parts that validate to size
  \<open>n\<close> and a buffer with room for it, the encoder returns 0, reports exactly \<open>n\<close> bytes written,
  leaves the rest of the buffer alone, and the decoder run on those \<open>n\<close> bytes succeeds with the
  same type, status, flags, name, error and payload.
\<close>

theorem frame_roundtrip:
  assumes "parts_readable p" "ducknng_frame_measure p = Some n"
    and "n \<le> capacity" "unat capacity \<le> length d"
  shows "\<exists>out f. ducknng_encode_frame_bytes p (Some d) capacity = (0, n, Some out) \<and>
    length out = length d \<and> drop (unat n) out = drop (unat n) d \<and>
    ducknng_decode_frame_bytes (Some out) n = Some f \<and>
    f_version f = DUCKNNG_WIRE_VERSION \<and> f_type f = p_type p \<and>
    f_status f = word_of_int (p_status p) \<and> f_flags f = p_flags p \<and>
    frame_name f = counted (p_name p) (p_name_len p) \<and>
    frame_error f = counted (p_error p) (p_error_len p) \<and>
    frame_payload f = counted (p_payload p) (p_payload_len p)"
proof -
  have v: "ducknng_frame_parts_validate p True = Some n"
    using assms(2) by (simp add: ducknng_frame_measure_def)
  have len: "length (frame_bytes p) = unat n" "unat n \<le> length d"
    using length_frame_bytes [OF assms(1) v] assms(3,4) by (simp_all add: word_le_nat_alt)
  have out: "poke d 0 (frame_bytes p) = frame_bytes p @ drop (unat n) d"
    using len by (simp add: poke_def)
  then have "length (poke d 0 (frame_bytes p)) = length d"
      "drop (unat n) (poke d 0 (frame_bytes p)) = drop (unat n) d"
    using len by simp_all
  then show ?thesis
    using encode_layout [OF assms(1) v assms(3,4)] decode_layout [OF assms(1) v, of "drop (unat n) d"]
    unfolding out by blast
qed

definition sample_parts :: ducknng_frame_parts where
  "sample_parts = \<lparr> p_type = DUCKNNG_RPC_ERROR, p_status = 9, p_flags = 4,
     p_name = Some [101, 120], p_name_len = 2, p_error = Some [110, 111, 33], p_error_len = 3,
     p_payload = Some [7], p_payload_len = 1 \<rparr>"

lemma sample_parts_ok:
  "parts_readable sample_parts" "ducknng_frame_measure sample_parts = Some 28"
  by (simp_all add: sample_parts_def parts_readable_def readable_def ducknng_frame_measure_def
      ducknng_frame_parts_validate_def ducknng_size_add_def)

theorem frame_roundtrip_witness:
  "\<exists>out f. ducknng_encode_frame_bytes sample_parts (Some (replicate 30 0)) 30 = (0, 28, Some out) \<and>
    ducknng_decode_frame_bytes (Some out) 28 = Some f \<and> f_status f = 9 \<and> frame_name f = [101, 120] \<and>
    frame_error f = [110, 111, 33] \<and> frame_payload f = [7]"
proof -
  have "(28 :: u64) \<le> 30" "unat (30 :: u64) \<le> length (replicate 30 (0 :: u8))" by simp_all
  from frame_roundtrip [OF sample_parts_ok this] show ?thesis
    by (auto simp: sample_parts_def counted_def)
qed


definition sample_frame :: bytes where
  "sample_frame = [1, 1, 4, 0, 0, 0, 2, 0, 0, 0, 0, 0, 0, 0, 1, 0, 0, 0, 0, 0, 0, 0, 101, 120, 7]"

lemma sample_frame_fields:
  "ducknng_wire_le32_read (drop 2 sample_frame) = 4" "ducknng_wire_le32_read (drop 6 sample_frame) = 2"
  "ducknng_wire_le32_read (drop 10 sample_frame) = 0" "ducknng_wire_le64_read (drop 14 sample_frame) = 1"
  by (simp_all add: sample_frame_def ducknng_wire_le32_read_def ducknng_wire_le64_read_def)

lemma sample_frame_decodes:
  "ducknng_decode_frame_bytes (Some sample_frame) 25 = Some \<lparr> f_version = 1, f_type = 1, f_status = 0,
     f_flags = 4, f_name = [101, 120, 7], f_name_len = 2, f_error = [7], f_error_len = 0,
     f_payload = [7], f_payload_len = 1 \<rparr>"
  unfolding ducknng_decode_frame_bytes_def sample_frame_fields Let_def Option.bind.bind_lunit
  by (simp add: sample_frame_def)


text \<open>
  The prefix encoder and the whole-frame encoder agree. When the whole frame validates and fits,
  the prefix encoder succeeds, reports the frame size minus the payload, and copying the payload
  right behind its output gives the buffer the whole-frame encoder produces.
\<close>

theorem prefix_then_payload:
  assumes "parts_readable p" "ducknng_frame_measure p = Some n"
    and "n \<le> capacity" "unat capacity \<le> length d"
  shows "\<exists>out. ducknng_encode_frame_prefix p (Some d) capacity = (0, n - p_payload_len p, Some out) \<and>
    ducknng_encode_frame_bytes p (Some d) capacity =
      (0, n, Some (poke out (unat (n - p_payload_len p)) (counted (p_payload p) (p_payload_len p))))"
proof -
  have v: "ducknng_frame_parts_validate p True = Some n"
    using assms(2) by (simp add: ducknng_frame_measure_def)
  note f = validate_SomeD [OF v] and rd = parts_readableD [OF assms(1)]
  have v0: "ducknng_frame_parts_validate p False = Some n"
    using v by (auto simp: ducknng_frame_parts_validate_def split: if_splits)
  have le: "p_payload_len p \<le> n" "unat n \<le> length d"
    using f(9) assms(3,4) by (simp_all add: word_le_nat_alt)
  then have u: "unat (n - p_payload_len p) = 22 + unat (p_name_len p) + unat (p_error_len p)"
    using f(9) by (simp add: unat_sub)
  then have cap: "\<not> capacity < n - p_payload_len p"
    using f(9) assms(3) by (simp add: word_less_nat_alt word_le_nat_alt)
  have w: "ducknng_wire_write_prefix p d = (unat (n - p_payload_len p), poke d 0 (prefix_bytes p))"
    unfolding u using f rd le by (intro write_prefix_layout) simp_all
  have pre: "ducknng_encode_frame_prefix p (Some d) capacity =
      (0, n - p_payload_len p, Some (poke d 0 (prefix_bytes p)))"
    using v0 cap w by (simp add: ducknng_encode_frame_prefix_def)
  have "poke (poke d 0 (prefix_bytes p)) (unat (n - p_payload_len p))
      (counted (p_payload p) (p_payload_len p)) = poke d 0 (frame_bytes p)"
    using u le f(9) length_prefix_bytes [OF assms(1) v]
    by (subst poke_append) (simp_all add: frame_bytes_def)
  with pre encode_layout [OF assms(1) v assms(3,4)] show ?thesis by simp
qed

theorem prefix_then_payload_witness:
  "\<exists>out. ducknng_encode_frame_prefix sample_parts (Some (replicate 30 0)) 30 = (0, 27, Some out) \<and>
    ducknng_encode_frame_bytes sample_parts (Some (replicate 30 0)) 30 = (0, 28, Some (poke out 27 [7]))"
proof -
  have "(28 :: u64) \<le> 30" "unat (30 :: u64) \<le> length (replicate 30 (0 :: u8))" by simp_all
  from prefix_then_payload [OF sample_parts_ok this] show ?thesis
    by (simp add: sample_parts_def counted_def)
qed

text \<open>
  C16. The encoder never writes outside the frame. It returns 0 or -1. On -1 the buffer is unchanged
  and the reported size is 0 for invalid parts, else the size a retry needs. On 0 the reported size
  is the measured one, it is within the capacity, and the buffer beyond it is unchanged.
\<close>

theorem encode_within_bounds:
  assumes "parts_readable p" "\<And>d. dst = Some d \<Longrightarrow> unat capacity \<le> length d"
    and "ducknng_encode_frame_bytes p dst capacity = (rc, w, dst')"
  shows "(rc = -1 \<and> dst' = dst \<and>
      (ducknng_frame_measure p = None \<and> w = 0 \<or>
       ducknng_frame_measure p = Some w \<and> (dst = None \<or> capacity < w))) \<or>
    (rc = 0 \<and> ducknng_frame_measure p = Some w \<and> w \<le> capacity \<and>
      (\<exists>d d'. dst = Some d \<and> dst' = Some d' \<and> length d' = length d \<and>
        drop (unat w) d' = drop (unat w) d))"
proof (cases "ducknng_frame_parts_validate p True")
  case None
  with assms(3) show ?thesis by (simp add: ducknng_encode_frame_bytes_def ducknng_frame_measure_def)
next
  case (Some n)
  show ?thesis
  proof (cases "dst = None \<or> capacity < n")
    case True
    with Some assms(3) show ?thesis
      by (auto simp: ducknng_encode_frame_bytes_def ducknng_frame_measure_def split: option.splits)
  next
    case False
    then obtain d where d: "dst = Some d" "n \<le> capacity" by auto
    have cap: "unat capacity \<le> length d" using assms(2) d(1) by simp
    have len: "length (frame_bytes p) = unat n" "unat n \<le> length d"
      using length_frame_bytes [OF assms(1) Some] d(2) cap by (simp_all add: word_le_nat_alt)
    show ?thesis
      using encode_layout [OF assms(1) Some d(2) cap] assms(3) d Some len
      by (auto simp: ducknng_frame_measure_def drop_poke)
  qed
qed

theorem encode_within_bounds_witness:
  "\<exists>w dst'. ducknng_encode_frame_bytes sample_parts (Some [1, 2, 3]) 3 = (-1, w, dst') \<and>
     dst' = Some [1, 2, 3] \<and> w = 28"
proof -
  obtain rc w dst' where e: "ducknng_encode_frame_bytes sample_parts (Some [1, 2, 3]) 3 = (rc, w, dst')"
    using prod_cases3 by blast
  have "unat (3 :: u64) \<le> length d" if "Some [1, 2, 3 :: u8] = Some d" for d
    using that by auto
  from encode_within_bounds [OF sample_parts_ok(1) this e] show ?thesis
    using e sample_parts_ok(2) by (auto simp: word_le_nat_alt)
qed

text \<open>
  C17. An error reply always reaches the peer. For a name of at most 128 characters, a message that
  is absent or non-empty and shorter than 2^32, and a message allocator that delivers the requested
  size, \<open>ducknng_error_msg\<close> builds a message for every status code: it decodes as an error frame
  with that name and text and no payload, and a code outside 1..10 arrives as the internal-error status.
\<close>

theorem error_msg_decodes:
  assumes alloc: "\<And>n. \<exists>b. msg_alloc n = Some b \<and> length b = unat n"
    and "length (deref name) \<le> 128" "message \<noteq> Some []" "length (deref message) < 2 ^ 32"
  shows "\<exists>body f. ducknng_error_msg msg_alloc name errcode message = Some body \<and>
    ducknng_decode_request (Some body) = Some f \<and> f_type f = DUCKNNG_RPC_ERROR \<and>
    f_status f = (if 1 \<le> errcode \<and> errcode \<le> 10 then word_of_int errcode else DUCKNNG_STATUS_INTERNAL) \<and>
    frame_name f = bytes_of (deref name) \<and> frame_payload f = [] \<and>
    frame_error f = bytes_of (if message \<noteq> None then deref message else ''ducknng: unspecified error'')"
proof -
  let ?m = "if message \<noteq> None then message else Some ''ducknng: unspecified error''"
    and ?c = "if errcode \<le> 0 \<or> errcode > 10 then 6 else errcode"
  have "length (deref ?m) < 2 ^ 32" "deref ?m \<noteq> []" using assms(3,4) by (cases message; auto)+
  then have "reply_ok DUCKNNG_RPC_ERROR name 0 ?c ?m None 0"
    using assms(2) by (auto simp: reply_ok_def readable_def)
  from build_reply_decodes [OF alloc this] show ?thesis
    by (cases message) (auto simp: ducknng_error_msg_def Let_def counted_def)
qed

theorem error_msg_decodes_witness:
  "\<exists>body f. ducknng_error_msg (\<lambda>n. Some (replicate (unat n) 0)) (Some ''exec'') 77 (Some ''no'') = Some body \<and>
     ducknng_decode_request (Some body) = Some f \<and> f_status f = 6 \<and> frame_error f = [110, 111]"
  using error_msg_decodes [of "\<lambda>n. Some (replicate (unat n) 0)" "Some ''exec''" "Some ''no''" 77]
  by (auto simp: bytes_of_def)

text \<open>An empty text gives no message, whatever the allocator does: an error frame must have a text.\<close>

lemma error_msg_empty: "ducknng_error_msg msg_alloc name errcode (Some []) = None"
  by (simp add: ducknng_error_msg_def ducknng_build_reply_status_def ducknng_frame_measure_def ducknng_frame_parts_validate_def Let_def)

text \<open>
  The prefix of an upload batch. Whatever the parser accepts has a token of 1 to 256 bytes that
  lies inside the payload and a batch offset right behind it; and the parser reads back every prefix
  a client writes (session id, counted token) and leaves exactly the batch.
\<close>

theorem upload_prefix_parse:
  "(ducknng_upload_append_parse_prefix (Some p) len = Some (sid, tok, tlen, off) \<longrightarrow>
      1 \<le> unat tlen \<and> unat tlen \<le> 256 \<and> off = 10 + tlen \<and> unat off = 10 + unat tlen \<and>
      unat off \<le> unat len \<and> tok = drop 10 p) \<and>
   (token \<noteq> [] \<and> length token \<le> 256 \<and> fits (upload_prefix (sid', token) @ batch) \<longrightarrow>
      upload_parse (upload_prefix (sid', token) @ batch) = Some ((sid', token), batch))"
proof (intro conjI impI)
  assume "ducknng_upload_append_parse_prefix (Some p) len = Some (sid, tok, tlen, off)"
  then have a: "10 \<le> len" and t: "tlen = ucast (ducknng_wire_le16_read (drop 8 p))"
      "ducknng_wire_le16_read (drop 8 p) \<noteq> 0" "ducknng_wire_le16_read (drop 8 p) \<le> 256"
      "tlen \<le> len - 10" and o: "off = 10 + tlen" "tok = drop 10 p"
    by (auto simp: ducknng_upload_append_parse_prefix_def Let_def not_less split: if_splits)
  have "unat tlen = unat (ducknng_wire_le16_read (drop 8 p))" using t(1) by simp
  moreover have "1 \<le> unat (ducknng_wire_le16_read (drop 8 p))"
      "unat (ducknng_wire_le16_read (drop 8 p)) \<le> 256"
    using t(2,3) unat_gt_0 [of "ducknng_wire_le16_read (drop 8 p)"]
    by (simp_all add: word_le_nat_alt del: unat_gt_0)
  ultimately show "1 \<le> unat tlen" "unat tlen \<le> 256" by simp_all
  then show "unat off = 10 + unat tlen" using o by (simp add: unat_word_ariths)
  then show "unat off \<le> unat len" using t(4) a by (simp add: word_le_nat_alt unat_sub)
  show "off = 10 + tlen" "tok = drop 10 p" using o by simp_all
next
  assume "token \<noteq> [] \<and> length token \<le> 256 \<and> fits (upload_prefix (sid', token) @ batch)"
  then show "upload_parse (upload_prefix (sid', token) @ batch) = Some ((sid', token), batch)"
    by (intro upload.dec_enc) (simp_all add: upload_token_ok_def)
qed

theorem upload_prefix_parse_witness:
  "upload_parse (upload_prefix (5, [9, 9]) @ [1, 2, 3]) = Some ((5, [9, 9]), [1, 2, 3])"
  using upload_prefix_parse [where token = "[9, 9]" and sid' = 5 and batch = "[1, 2, 3]"]
  by (simp add: upload_prefix_def le16_bytes_def)

end
