(* ===== verification/QuackCore.thy ===== *)
theory QuackCore
  imports Checked Interfaces "HOL-Library.Signed_Division"
begin

text \<open>
  The byte kernel of Quack batches (\<open>ducknng_quack_core.c\<close>): a writer that either measures or fills
  a fixed buffer, a bounds-checked reader, LEB128 integers, counted strings, and the classification
  of column types.

  The lemmas show that the measuring and the filling pass agree, that a reader gets back what a
  writer wrote, that readers never go past their input and never lose bits of an integer, and that
  the type comparison is structural equality.
\<close>

section \<open>Writer\<close>

datatype ducknng_qk_status = DUCKNNG_QK_OK | DUCKNNG_QK_INVALID | DUCKNNG_QK_OVERFLOW
  | DUCKNNG_QK_NO_SPACE | DUCKNNG_QK_TRUNCATED

datatype ducknng_qk_writer_mode = DUCKNNG_QK_WRITER_MEASURE | DUCKNNG_QK_WRITER_FIXED

record ducknng_qk_writer =
  w_data :: "bytes option"
  w_capacity :: size_t
  w_position :: size_t
  w_mode :: ducknng_qk_writer_mode
  w_status :: ducknng_qk_status

definition ducknng_qk_writer_fail ::
  "ducknng_qk_writer \<Rightarrow> ducknng_qk_status \<Rightarrow> int \<times> ducknng_qk_writer" where
  "ducknng_qk_writer_fail w s = (-1, w\<lparr>w_status := s\<rparr>)"

definition ducknng_qk_writer_init_measure :: ducknng_qk_writer where
  "ducknng_qk_writer_init_measure = \<lparr> w_data = None, w_capacity = 0, w_position = 0,
     w_mode = DUCKNNG_QK_WRITER_MEASURE, w_status = DUCKNNG_QK_OK \<rparr>"

definition ducknng_qk_writer_init_fixed :: "bytes option \<Rightarrow> size_t \<Rightarrow> ducknng_qk_writer" where
  "ducknng_qk_writer_init_fixed destination capacity =
     \<lparr> w_data = destination, w_capacity = capacity, w_position = 0,
       w_mode = DUCKNNG_QK_WRITER_FIXED,
       w_status = (if capacity > 0 \<and> destination = None then DUCKNNG_QK_INVALID else DUCKNNG_QK_OK) \<rparr>"

definition ducknng_qk_write_bytes ::
  "ducknng_qk_writer \<Rightarrow> bytes option \<Rightarrow> size_t \<Rightarrow> int \<times> ducknng_qk_writer" where
  "ducknng_qk_write_bytes w source n =
     (if w_status w \<noteq> DUCKNNG_QK_OK then (-1, w)
      else if n > 0 \<and> source = None then ducknng_qk_writer_fail w DUCKNNG_QK_INVALID
      else case ducknng_size_add (w_position w) n of
        None \<Rightarrow> ducknng_qk_writer_fail w DUCKNNG_QK_OVERFLOW
      | Some next \<Rightarrow>
          (case w_mode w of
             DUCKNNG_QK_WRITER_FIXED \<Rightarrow>
               if next > w_capacity w then ducknng_qk_writer_fail w DUCKNNG_QK_NO_SPACE
               else (0, w\<lparr>w_data := (if n > 0
                         then map_option (\<lambda>d. poke d (unat (w_position w)) (take (unat n) (deref source)))
                                (w_data w)
                         else w_data w), w_position := next\<rparr>)
           | DUCKNNG_QK_WRITER_MEASURE \<Rightarrow> (0, w\<lparr>w_position := next\<rparr>)))"

definition ducknng_qk_write_u8 :: "ducknng_qk_writer \<Rightarrow> u8 \<Rightarrow> int \<times> ducknng_qk_writer" where
  "ducknng_qk_write_u8 w v = ducknng_qk_write_bytes w (Some [v]) 1"

definition ducknng_qk_write_u16le :: "ducknng_qk_writer \<Rightarrow> u16 \<Rightarrow> int \<times> ducknng_qk_writer" where
  "ducknng_qk_write_u16le w v =
     ducknng_qk_write_bytes w (Some [ucast (v AND 0xff), ucast (drop_bit 8 v)]) 2"

definition ducknng_qk_write_field :: "ducknng_qk_writer \<Rightarrow> u16 \<Rightarrow> int \<times> ducknng_qk_writer" where
  "ducknng_qk_write_field w field = ducknng_qk_write_u16le w field"

lemma unat_drop_bit_7_less: "drop_bit 7 (v :: u64) \<noteq> 0 \<Longrightarrow> unat (drop_bit 7 v) < unat v"
proof -
  assume "drop_bit 7 v \<noteq> 0"
  then have "v \<noteq> 0" by auto
  then have "0 < unat v" by (simp add: unat_gt_0)
  then show ?thesis by (simp add: unsigned_drop_bit_eq drop_bit_eq_div unat_div)
qed

function ducknng_qk_write_uleb128 :: "ducknng_qk_writer \<Rightarrow> u64 \<Rightarrow> int \<times> ducknng_qk_writer" where
  "ducknng_qk_write_uleb128 w v =
     (let byte = ucast (v AND 0x7f) :: u8;
          v' = drop_bit 7 v;
          byte = (if v' \<noteq> 0 then byte OR 0x80 else byte);
          (rc, w) = ducknng_qk_write_u8 w byte
      in if rc \<noteq> 0 then (-1, w)
         else if v' \<noteq> 0 then ducknng_qk_write_uleb128 w v' else (0, w))"
  by pat_completeness auto
termination
  by (relation "measure (\<lambda>(w, v). unat v)") (auto simp: unat_drop_bit_7_less)

declare ducknng_qk_write_uleb128.simps [simp del]

text \<open>
  The signed writer divides with C's truncating \<open>/\<close> and \<open>%\<close> (\<open>sdiv\<close>, \<open>smod\<close>) and corrects towards
  minus infinity. On \<open>int64_t\<close> no step overflows: \<open>next * 128\<close> lies between the value and the
  value minus 127 rounded to a multiple of 128, and the smallest \<open>int64_t\<close> is such a multiple.
\<close>

definition sleb_next :: "int \<Rightarrow> int" where
  "sleb_next v = (let next = v sdiv 128 in if v < 0 \<and> v smod 128 \<noteq> 0 then next - 1 else next)"

definition sleb_byte :: "int \<Rightarrow> u8" where
  "sleb_byte v = word_of_int (v - sleb_next v * 128)"

definition sleb_more :: "int \<Rightarrow> bool" where
  "sleb_more v = (let next = sleb_next v; sign = (sleb_byte v AND 0x40 \<noteq> 0)
     in \<not> ((next = 0 \<and> \<not> sign) \<or> (next = -1 \<and> sign)))"

lemma sleb_next_div: "sleb_next v = v div 128"
proof (cases "v < 0")
  case True
  have "(- v) div 128 = - (v div 128) - (if v mod 128 = 0 then 0 else 1)"
    by (simp add: zdiv_zminus1_eq_if)
  with True show ?thesis
    by (auto simp: sleb_next_def signed_divide_int_def signed_modulo_int_def Let_def
        zmod_zminus1_eq_if split: if_splits)
qed (auto simp: sleb_next_def signed_divide_int_def Let_def sgn_if)

lemma sleb_byte_mod: "sleb_byte v = word_of_int (v mod 128)"
  by (simp add: sleb_byte_def sleb_next_div minus_div_mult_eq_mod)

lemma sleb_more_less: "sleb_more v \<Longrightarrow> \<bar>sleb_next v\<bar> < \<bar>v\<bar>"
proof -
  assume m: "sleb_more v"
  have "v \<noteq> 0" using m by (auto simp: sleb_more_def sleb_byte_mod sleb_next_div Let_def)
  moreover have "v \<noteq> -1"
  proof
    assume "v = -1"
    with m show False by (simp add: sleb_more_def sleb_byte_mod sleb_next_div Let_def)
  qed
  ultimately show ?thesis unfolding sleb_next_div by (auto simp: abs_if)
qed

function ducknng_qk_write_sleb128 :: "ducknng_qk_writer \<Rightarrow> int \<Rightarrow> int \<times> ducknng_qk_writer" where
  "ducknng_qk_write_sleb128 w v =
     (let next = sleb_next v;
          byte = sleb_byte v;
          more = sleb_more v;
          byte = (if more then byte OR 0x80 else byte);
          (rc, w) = ducknng_qk_write_u8 w byte
      in if rc \<noteq> 0 then (-1, w)
         else if more then ducknng_qk_write_sleb128 w next else (0, w))"
  by pat_completeness auto
termination
  by (relation "measure (\<lambda>(w, v). nat \<bar>v\<bar>)") (auto dest: sleb_more_less)

declare ducknng_qk_write_sleb128.simps [simp del]

definition ducknng_qk_write_counted ::
  "ducknng_qk_writer \<Rightarrow> bytes option \<Rightarrow> size_t \<Rightarrow> int \<times> ducknng_qk_writer" where
  "ducknng_qk_write_counted w source n =
     (let (rc, w) = ducknng_qk_write_uleb128 w n
      in if rc \<noteq> 0 then (-1, w) else ducknng_qk_write_bytes w source n)"

section \<open>Reader\<close>

record ducknng_qk_reader =
  r_data :: "bytes option"
  r_len :: size_t
  r_off :: size_t
  r_materialized_values :: u64
  r_status :: ducknng_qk_status

text \<open>Read operations return \<open>None\<close> for \<open>-1\<close> and the value stored through \<open>out\<close> otherwise.\<close>

definition ducknng_qk_reader_fail ::
  "ducknng_qk_reader \<Rightarrow> ducknng_qk_status \<Rightarrow> 'a option \<times> ducknng_qk_reader" where
  "ducknng_qk_reader_fail r s = (None, r\<lparr>r_status := s\<rparr>)"

definition ducknng_qk_reader_init :: "bytes option \<Rightarrow> size_t \<Rightarrow> ducknng_qk_reader" where
  "ducknng_qk_reader_init data n =
     \<lparr> r_data = data, r_len = n, r_off = 0, r_materialized_values = 0,
       r_status = (if n > 0 \<and> data = None then DUCKNNG_QK_INVALID else DUCKNNG_QK_OK) \<rparr>"

definition ducknng_qk_reader_remaining :: "ducknng_qk_reader \<Rightarrow> size_t" where
  "ducknng_qk_reader_remaining r = (if r_off r > r_len r then 0 else r_len r - r_off r)"

definition ducknng_qk_reader_need ::
  "ducknng_qk_reader \<Rightarrow> size_t \<Rightarrow> unit option \<times> ducknng_qk_reader" where
  "ducknng_qk_reader_need r n =
     (if r_status r \<noteq> DUCKNNG_QK_OK then (None, r)
      else if r_off r > r_len r \<or> n > r_len r - r_off r
      then ducknng_qk_reader_fail r DUCKNNG_QK_TRUNCATED
      else (Some (), r))"

definition byte_at :: "ducknng_qk_reader \<Rightarrow> nat \<Rightarrow> u8" where
  "byte_at r i = deref (r_data r) ! (unat (r_off r) + i)"

definition ducknng_qk_read_u8 :: "ducknng_qk_reader \<Rightarrow> u8 option \<times> ducknng_qk_reader" where
  "ducknng_qk_read_u8 r =
     (case ducknng_qk_reader_need r 1 of
        (None, r) \<Rightarrow> (None, r)
      | (Some _, r) \<Rightarrow> (Some (byte_at r 0), r\<lparr>r_off := r_off r + 1\<rparr>))"

definition ducknng_qk_read_boolean :: "ducknng_qk_reader \<Rightarrow> u8 option \<times> ducknng_qk_reader" where
  "ducknng_qk_read_boolean r =
     (case ducknng_qk_read_u8 r of
        (None, r) \<Rightarrow> (None, r)
      | (Some v, r) \<Rightarrow> if v > 1 then ducknng_qk_reader_fail r DUCKNNG_QK_INVALID else (Some v, r))"

definition ducknng_qk_peek_u16le :: "ducknng_qk_reader \<Rightarrow> u16 option \<times> ducknng_qk_reader" where
  "ducknng_qk_peek_u16le r =
     (case ducknng_qk_reader_need r 2 of
        (None, r) \<Rightarrow> (None, r)
      | (Some _, r) \<Rightarrow> (Some (ucast (byte_at r 0) OR push_bit 8 (ucast (byte_at r 1))), r))"

definition ducknng_qk_read_u16le :: "ducknng_qk_reader \<Rightarrow> u16 option \<times> ducknng_qk_reader" where
  "ducknng_qk_read_u16le r =
     (case ducknng_qk_peek_u16le r of
        (None, r) \<Rightarrow> (None, r)
      | (Some v, r) \<Rightarrow> (Some v, r\<lparr>r_off := r_off r + 2\<rparr>))"

text \<open>The loops of the LEB128 readers, with the accumulated value and the shift as arguments.\<close>

function read_uleb_loop :: "ducknng_qk_reader \<Rightarrow> u64 \<Rightarrow> nat \<Rightarrow> u64 option \<times> ducknng_qk_reader" where
  "read_uleb_loop r value shift =
     (if shift \<ge> 64 then ducknng_qk_reader_fail r DUCKNNG_QK_OVERFLOW
      else case ducknng_qk_read_u8 r of
        (None, r) \<Rightarrow> (None, r)
      | (Some byte, r) \<Rightarrow>
          if shift = 63 \<and> byte AND 0x7e \<noteq> 0 then ducknng_qk_reader_fail r DUCKNNG_QK_OVERFLOW
          else let value = value OR push_bit shift (ucast (byte AND 0x7f))
            in if byte AND 0x80 = 0 then (Some value, r) else read_uleb_loop r value (shift + 7))"
  by pat_completeness auto
termination
  by (relation "measure (\<lambda>(r, value, shift). 64 - shift)") auto

declare read_uleb_loop.simps [simp del]

definition ducknng_qk_read_uleb128 :: "ducknng_qk_reader \<Rightarrow> u64 option \<times> ducknng_qk_reader" where
  "ducknng_qk_read_uleb128 r = read_uleb_loop r 0 0"

text \<open>The loop of the signed reader returns the bits, the last byte and the last shift.\<close>

function read_sleb_loop ::
  "ducknng_qk_reader \<Rightarrow> u64 \<Rightarrow> nat \<Rightarrow> (u64 \<times> u8 \<times> nat) option \<times> ducknng_qk_reader" where
  "read_sleb_loop r bits shift =
     (if shift \<ge> 64 then ducknng_qk_reader_fail r DUCKNNG_QK_OVERFLOW
      else case ducknng_qk_read_u8 r of
        (None, r) \<Rightarrow> (None, r)
      | (Some byte, r) \<Rightarrow>
          let payload = byte AND 0x7f in
          if shift = 63 \<and> payload \<noteq> 0 \<and> payload \<noteq> 0x7f
          then ducknng_qk_reader_fail r DUCKNNG_QK_OVERFLOW
          else let bits = bits OR push_bit shift (ucast payload)
            in if byte AND 0x80 = 0 then (Some (bits, byte, shift), r)
               else read_sleb_loop r bits (shift + 7))"
  by pat_completeness auto
termination
  by (relation "measure (\<lambda>(r, bits, shift). 64 - shift)") auto

declare read_sleb_loop.simps [simp del]

definition ducknng_qk_read_sleb128 :: "ducknng_qk_reader \<Rightarrow> int option \<times> ducknng_qk_reader" where
  "ducknng_qk_read_sleb128 r =
     (case read_sleb_loop r 0 0 of
        (None, r) \<Rightarrow> (None, r)
      | (Some (bits, byte, shift), r) \<Rightarrow>
          let bits = (if shift < 63 \<and> byte AND 0x40 \<noteq> 0
                      then bits OR push_bit (shift + 7) UINT64_MAX else bits)
          in (Some (sint bits), r))"

definition ducknng_qk_read_counted ::
  "ducknng_qk_reader \<Rightarrow> (bytes \<times> size_t) option \<times> ducknng_qk_reader" where
  "ducknng_qk_read_counted r =
     (case ducknng_qk_read_uleb128 r of
        (None, r) \<Rightarrow> (None, r)
      | (Some len, r) \<Rightarrow>
          if len > SIZE_MAX then ducknng_qk_reader_fail r DUCKNNG_QK_OVERFLOW
          else (case ducknng_qk_reader_need r len of
            (None, r) \<Rightarrow> (None, r)
          | (Some _, r) \<Rightarrow> (Some (drop (unat (r_off r)) (deref (r_data r)), len),
                            r\<lparr>r_off := r_off r + len\<rparr>)))"

definition ducknng_qk_skip :: "ducknng_qk_reader \<Rightarrow> size_t \<Rightarrow> unit option \<times> ducknng_qk_reader" where
  "ducknng_qk_skip r n =
     (case ducknng_qk_reader_need r n of
        (None, r) \<Rightarrow> (None, r)
      | (Some _, r) \<Rightarrow> (Some (), r\<lparr>r_off := r_off r + n\<rparr>))"

section \<open>What the writer emits\<close>

text \<open>The bytes of an unsigned and of a signed LEB128 integer.\<close>

function uleb :: "u64 \<Rightarrow> bytes" where
  "uleb v = (if drop_bit 7 v \<noteq> 0 then (ucast (v AND 0x7f) OR 0x80) # uleb (drop_bit 7 v)
             else [ucast (v AND 0x7f)])"
  by pat_completeness auto
termination
  by (relation "measure unat") (auto simp: unat_drop_bit_7_less)

declare uleb.simps [simp del]

function sleb :: "int \<Rightarrow> bytes" where
  "sleb v = (if sleb_more v then (sleb_byte v OR 0x80) # sleb (sleb_next v) else [sleb_byte v])"
  by pat_completeness auto
termination
  by (relation "measure (\<lambda>v. nat \<bar>v\<bar>)") (auto dest: sleb_more_less)

declare sleb.simps [simp del]

text \<open>Writing a list byte by byte, as the integer writers do.\<close>

fun write_u8s :: "ducknng_qk_writer \<Rightarrow> bytes \<Rightarrow> int \<times> ducknng_qk_writer" where
  "write_u8s w [] = (0, w)"
| "write_u8s w (b # bs) =
     (let (rc, w') = ducknng_qk_write_u8 w b in if rc \<noteq> 0 then (-1, w') else write_u8s w' bs)"

lemma write_uleb_bytes: "ducknng_qk_write_uleb128 w v = write_u8s w (uleb v)"
proof (induction w v rule: ducknng_qk_write_uleb128.induct)
  case (1 w v)
  then show ?case
    by (subst ducknng_qk_write_uleb128.simps, subst uleb.simps)
      (auto simp: Let_def split: prod.splits)
qed

lemma write_sleb_bytes: "ducknng_qk_write_sleb128 w v = write_u8s w (sleb v)"
proof (induction w v rule: ducknng_qk_write_sleb128.induct)
  case (1 w v)
  then show ?case
    by (subst ducknng_qk_write_sleb128.simps, subst sleb.simps)
      (auto simp: Let_def split: prod.splits)
qed

lemma uleb_not_Nil [simp]: "uleb v \<noteq> []"
  by (subst uleb.simps) simp

lemma sleb_not_Nil [simp]: "sleb v \<noteq> []"
  by (subst sleb.simps) simp

text \<open>
  The effect of a successful emission on a writer: the position advances, and in fixed mode the
  bytes are copied to the old position.
\<close>

definition emitted :: "ducknng_qk_writer \<Rightarrow> bytes \<Rightarrow> ducknng_qk_writer" where
  "emitted w bs = w\<lparr>w_data := (case w_mode w of
       DUCKNNG_QK_WRITER_FIXED \<Rightarrow> map_option (\<lambda>d. poke d (unat (w_position w)) bs) (w_data w)
     | DUCKNNG_QK_WRITER_MEASURE \<Rightarrow> w_data w), w_position := w_position w + of_nat (length bs)\<rparr>"

text \<open>A healthy writer, and whether it has room for some more bytes.\<close>

definition writer_ok :: "ducknng_qk_writer \<Rightarrow> bool" where
  "writer_ok w \<longleftrightarrow> w_status w = DUCKNNG_QK_OK \<and> (w_mode w = DUCKNNG_QK_WRITER_FIXED \<longrightarrow>
     w_data w \<noteq> None \<and> unat (w_capacity w) \<le> length (deref (w_data w)) \<and>
     unat (w_position w) \<le> unat (w_capacity w))"

definition room :: "ducknng_qk_writer \<Rightarrow> nat \<Rightarrow> bool" where
  "room w n \<longleftrightarrow> unat (w_position w) + n <
     (case w_mode w of DUCKNNG_QK_WRITER_FIXED \<Rightarrow> unat (w_capacity w) + 1
      | DUCKNNG_QK_WRITER_MEASURE \<Rightarrow> 2 ^ 64)"

lemma room_fits: "room w n \<Longrightarrow> unat (w_position w) + n < 2 ^ 64"
  using unat_u64_less [of "w_capacity w"]
  by (auto simp: room_def split: ducknng_qk_writer_mode.splits)

lemma emitted_position:
  assumes "room w (length bs)"
  shows "unat (w_position (emitted w bs)) = unat (w_position w) + length bs"
proof -
  have "unat (of_nat (length bs) :: u64) = length bs"
    using room_fits [OF assms] by (intro unat_of_nat_u64) simp
  with room_fits [OF assms] show ?thesis
    by (simp add: emitted_def unat_add_no_overflow)
qed

lemma emitted_fields [simp]:
  "w_status (emitted w bs) = w_status w" "w_mode (emitted w bs) = w_mode w"
  "w_capacity (emitted w bs) = w_capacity w"
  by (simp_all add: emitted_def)

lemma writer_ok_emitted:
  assumes "writer_ok w" "room w (length bs)"
  shows "writer_ok (emitted w bs)"
proof (cases "w_mode w")
  case DUCKNNG_QK_WRITER_MEASURE
  with assms(1) show ?thesis by (simp add: writer_ok_def)
next
  case DUCKNNG_QK_WRITER_FIXED
  then obtain d where d: "w_data w = Some d" "unat (w_capacity w) \<le> length d"
    using assms(1) by (auto simp: writer_ok_def)
  have "unat (w_position w) + length bs \<le> unat (w_capacity w)"
    using assms(2) DUCKNNG_QK_WRITER_FIXED by (simp add: room_def)
  moreover have "deref (w_data (emitted w bs)) = poke d (unat (w_position w)) bs"
    using d DUCKNNG_QK_WRITER_FIXED by (simp add: emitted_def)
  moreover have "w_data (emitted w bs) \<noteq> None"
    using d DUCKNNG_QK_WRITER_FIXED by (simp add: emitted_def)
  ultimately show ?thesis
    using assms(1) d emitted_position [OF assms(2)] by (simp add: writer_ok_def)
qed

lemma poke_poke:
  "off + length a \<le> length d \<Longrightarrow> poke (poke d off a) (off + length a) b = poke d off (a @ b)"
  by (simp add: poke_def ac_simps)

lemma emitted_append:
  assumes "writer_ok w" "room w (length a)"
  shows "emitted (emitted w a) b = emitted w (a @ b)"
proof (cases "w_mode w")
  case DUCKNNG_QK_WRITER_MEASURE
  then show ?thesis by (simp add: emitted_def ac_simps)
next
  case DUCKNNG_QK_WRITER_FIXED
  then obtain d where d: "w_data w = Some d" "unat (w_position w) + length a \<le> length d"
    using assms by (auto simp: writer_ok_def room_def)
  have "unat (w_position w + of_nat (length a)) = unat (w_position w) + length a"
    using emitted_position [OF assms(2)] by (simp add: emitted_def)
  with d DUCKNNG_QK_WRITER_FIXED show ?thesis
    by (simp add: emitted_def poke_poke add.assoc)
qed

lemma write_bytes_room:
  assumes "writer_ok w" "fits bs" "room w (length bs)"
  shows "ducknng_qk_write_bytes w (Some bs) (of_nat (length bs)) = (0, emitted w bs)"
proof -
  have u: "unat (of_nat (length bs) :: u64) = length bs" using assms(2) by (rule unat_of_nat_u64)
  have add: "ducknng_size_add (w_position w) (of_nat (length bs)) = Some (w_position w + of_nat (length bs))"
    using room_fits [OF assms(3)] u by simp
  show ?thesis
  proof (cases "w_mode w")
    case DUCKNNG_QK_WRITER_MEASURE
    with assms(1) add show ?thesis by (simp add: ducknng_qk_write_bytes_def emitted_def writer_ok_def)
  next
    case DUCKNNG_QK_WRITER_FIXED
    have "unat (w_position w + of_nat (length bs)) = unat (w_position w) + length bs"
      using emitted_position [OF assms(3)] by (simp add: emitted_def)
    then have "\<not> w_position w + of_nat (length bs) > w_capacity w"
      using assms(3) DUCKNNG_QK_WRITER_FIXED by (simp add: room_def word_less_nat_alt)
    moreover have "(of_nat (length bs) :: u64) > 0 \<longleftrightarrow> bs \<noteq> []"
      using u by (auto simp: word_less_nat_alt)
    moreover obtain d where "w_data w = Some d"
      using assms(1) DUCKNNG_QK_WRITER_FIXED by (auto simp: writer_ok_def)
    ultimately show ?thesis
      using assms(1) add u DUCKNNG_QK_WRITER_FIXED
      by (auto simp: ducknng_qk_write_bytes_def emitted_def writer_ok_def)
  qed
qed

text \<open>
  A failed emission: the writer is in an error state and nothing past the capacity has changed.
\<close>

definition spoiled :: "ducknng_qk_writer \<Rightarrow> ducknng_qk_writer \<Rightarrow> bool" where
  "spoiled w w' \<longleftrightarrow> w_status w' \<noteq> DUCKNNG_QK_OK \<and> w_capacity w' = w_capacity w \<and>
     length (deref (w_data w')) = length (deref (w_data w)) \<and>
     drop (unat (w_capacity w)) (deref (w_data w')) = drop (unat (w_capacity w)) (deref (w_data w))"

lemma write_bytes_no_room:
  assumes "writer_ok w" "fits bs" "\<not> room w (length bs)"
  shows "\<exists>w'. ducknng_qk_write_bytes w (Some bs) (of_nat (length bs)) = (-1, w') \<and> spoiled w w'"
proof -
  let ?n = "of_nat (length bs) :: u64"
  have u: "unat ?n = length bs" using assms(2) by (rule unat_of_nat_u64)
  show ?thesis
  proof (cases "ducknng_size_add (w_position w) ?n")
    case None
    with assms(1) show ?thesis
      by (simp add: ducknng_qk_write_bytes_def writer_ok_def ducknng_qk_writer_fail_def spoiled_def)
  next
    case (Some nx)
    then have u2: "unat nx = unat (w_position w) + length bs" using u by auto
    then have "w_mode w = DUCKNNG_QK_WRITER_FIXED"
      using assms(3) unat_u64_less [of nx]
      by (cases "w_mode w") (auto simp: room_def)
    moreover from this u2 assms(3) have "nx > w_capacity w"
      by (simp add: room_def word_less_nat_alt)
    ultimately show ?thesis
      using Some assms(1)
      by (simp add: ducknng_qk_write_bytes_def writer_ok_def ducknng_qk_writer_fail_def spoiled_def)
  qed
qed

lemma spoiled_emitted:
  assumes "writer_ok w" "room w (length bs)" "spoiled (emitted w bs) w'"
  shows "spoiled w w'"
proof (cases "w_mode w")
  case DUCKNNG_QK_WRITER_MEASURE
  with assms(3) show ?thesis by (simp add: spoiled_def emitted_def)
next
  case DUCKNNG_QK_WRITER_FIXED
  then obtain d where d: "w_data w = Some d" "unat (w_position w) + length bs \<le> unat (w_capacity w)"
      "unat (w_capacity w) \<le> length d"
    using assms(1,2) by (auto simp: writer_ok_def room_def)
  have "deref (w_data (emitted w bs)) = poke d (unat (w_position w)) bs"
    using d(1) DUCKNNG_QK_WRITER_FIXED by (simp add: emitted_def)
  moreover have "length (poke d (unat (w_position w)) bs) = length d"
      "drop (unat (w_capacity w)) (poke d (unat (w_position w)) bs) = drop (unat (w_capacity w)) d"
    using d by (simp_all add: poke_def)
  ultimately show ?thesis using assms(3) d(1) by (simp add: spoiled_def)
qed

lemma write_u8_eq: "ducknng_qk_write_u8 w b = ducknng_qk_write_bytes w (Some [b]) (of_nat (length [b]))"
  by (simp add: ducknng_qk_write_u8_def)

lemma room_split: "room (emitted w a) n \<longleftrightarrow> room w (length a + n)" if "room w (length a)"
  using emitted_position [OF that]
  by (simp add: room_def add.assoc split: ducknng_qk_writer_mode.splits)

lemma room_mono: "room w n \<Longrightarrow> m \<le> n \<Longrightarrow> room w m"
  by (auto simp: room_def)

lemma emitted_Nil [simp]: "writer_ok w \<Longrightarrow> emitted w [] = w"
  by (cases "w_data w") (auto simp: emitted_def split: ducknng_qk_writer_mode.splits)

lemma write_u8s_room:
  "writer_ok w \<Longrightarrow> room w (length bs) \<Longrightarrow> write_u8s w bs = (0, emitted w bs)"
proof (induction bs arbitrary: w)
  case Nil
  then show ?case by simp
next
  case (Cons b bs)
  have r: "room w (length [b])" using Cons.prems(2) by (rule room_mono) simp
  then have "room (emitted w [b]) (length bs)"
    using Cons.prems(2) by (subst room_split) simp_all
  then have "write_u8s (emitted w [b]) bs = (0, emitted w (b # bs))"
    using Cons.IH [OF writer_ok_emitted [OF Cons.prems(1) r]] emitted_append [OF Cons.prems(1) r]
    by simp
  with write_bytes_room [OF Cons.prems(1) _ r] show ?case
    by (simp add: write_u8_eq)
qed

lemma write_u8s_no_room:
  "writer_ok w \<Longrightarrow> \<not> room w (length bs) \<Longrightarrow> room w 0 \<Longrightarrow>
     \<exists>w'. write_u8s w bs = (-1, w') \<and> spoiled w w'"
proof (induction bs arbitrary: w)
  case Nil
  then show ?case by simp
next
  case (Cons b bs)
  show ?case
  proof (cases "room w (length [b])")
    case True
    have "\<not> room (emitted w [b]) (length bs)" "room (emitted w [b]) 0"
      using Cons.prems(2) True by (simp_all add: room_split [OF True])
    from Cons.IH [OF writer_ok_emitted [OF Cons.prems(1) True] this]
    obtain w' where "write_u8s (emitted w [b]) bs = (-1, w')" "spoiled (emitted w [b]) w'" by blast
    with write_bytes_room [OF Cons.prems(1) _ True] spoiled_emitted [OF Cons.prems(1) True]
    show ?thesis by (auto simp: write_u8_eq)
  next
    case False
    with write_bytes_no_room [OF Cons.prems(1) _ False] show ?thesis
      by (auto simp: write_u8_eq)
  qed
qed

section \<open>Sequences of writes\<close>

text \<open>A batch is written as a sequence of items.\<close>

datatype qk_item = QBytes bytes | QU8 u8 | QU16 u16 | QUleb u64 | QSleb int | QCounted bytes

fun write_item :: "ducknng_qk_writer \<Rightarrow> qk_item \<Rightarrow> int \<times> ducknng_qk_writer" where
  "write_item w (QBytes bs) = ducknng_qk_write_bytes w (Some bs) (of_nat (length bs))"
| "write_item w (QU8 v) = ducknng_qk_write_u8 w v"
| "write_item w (QU16 v) = ducknng_qk_write_field w v"
| "write_item w (QUleb v) = ducknng_qk_write_uleb128 w v"
| "write_item w (QSleb v) = ducknng_qk_write_sleb128 w v"
| "write_item w (QCounted bs) = ducknng_qk_write_counted w (Some bs) (of_nat (length bs))"

fun item_bytes :: "qk_item \<Rightarrow> bytes" where
  "item_bytes (QBytes bs) = bs"
| "item_bytes (QU8 v) = [v]"
| "item_bytes (QU16 v) = [ucast (v AND 0xff), ucast (drop_bit 8 v)]"
| "item_bytes (QUleb v) = uleb v"
| "item_bytes (QSleb v) = sleb v"
| "item_bytes (QCounted bs) = uleb (of_nat (length bs)) @ bs"

fun item_ok :: "qk_item \<Rightarrow> bool" where
  "item_ok (QBytes bs) = fits bs"
| "item_ok (QSleb v) = (- (2 ^ 63) \<le> v \<and> v < 2 ^ 63)"
| "item_ok (QCounted bs) = fits bs"
| "item_ok _ = True"

fun write_items :: "ducknng_qk_writer \<Rightarrow> qk_item list \<Rightarrow> int \<times> ducknng_qk_writer" where
  "write_items w [] = (0, w)"
| "write_items w (i # is) = (let (rc, w') = write_item w i in if rc \<noteq> 0 then (-1, w') else write_items w' is)"

definition items_bytes :: "qk_item list \<Rightarrow> bytes" where
  "items_bytes is = concat (map item_bytes is)"

lemma write_item_room:
  assumes "writer_ok w" "item_ok i" "room w (length (item_bytes i))"
  shows "write_item w i = (0, emitted w (item_bytes i))"
proof (cases i)
  case (QU16 v)
  then show ?thesis
    using write_bytes_room [OF assms(1), of "item_bytes i"] assms(3)
    by (simp add: ducknng_qk_write_field_def ducknng_qk_write_u16le_def)
next
  case (QU8 v)
  then show ?thesis using write_bytes_room [OF assms(1), of "item_bytes i"] assms(3)
    by (simp add: write_u8_eq)
next
  case (QCounted bs)
  let ?u = "uleb (of_nat (length bs))"
  have r: "room w (length ?u)" using assms(3) by (rule room_mono) (simp add: QCounted)
  have "room (emitted w ?u) (length bs)" using assms(3) by (simp add: room_split [OF r] QCounted)
  then show ?thesis
    using write_bytes_room [OF writer_ok_emitted [OF assms(1) r], of bs] assms(2)
      write_u8s_room [OF assms(1) r] emitted_append [OF assms(1) r]
    by (simp add: QCounted ducknng_qk_write_counted_def write_uleb_bytes)
qed (use assms in \<open>simp_all add: write_bytes_room write_uleb_bytes write_sleb_bytes write_u8s_room\<close>)

lemma write_item_no_room:
  assumes "writer_ok w" "item_ok i" "\<not> room w (length (item_bytes i))" "room w 0"
  shows "\<exists>w'. write_item w i = (-1, w') \<and> spoiled w w'"
proof (cases i)
  case (QU16 v)
  then show ?thesis
    using write_bytes_no_room [OF assms(1), of "item_bytes i"] assms(3)
    by (simp add: ducknng_qk_write_field_def ducknng_qk_write_u16le_def)
next
  case (QU8 v)
  then show ?thesis using write_bytes_no_room [OF assms(1), of "item_bytes i"] assms(3)
    by (simp add: write_u8_eq)
next
  case (QCounted bs)
  let ?u = "uleb (of_nat (length bs))"
  show ?thesis
  proof (cases "room w (length ?u)")
    case True
    have "\<not> room (emitted w ?u) (length bs)" using assms(3) by (simp add: room_split [OF True] QCounted)
    with write_bytes_no_room [OF writer_ok_emitted [OF assms(1) True], of bs] assms(2)
      write_u8s_room [OF assms(1) True] spoiled_emitted [OF assms(1) True]
    show ?thesis by (auto simp: QCounted ducknng_qk_write_counted_def write_uleb_bytes)
  next
    case False
    with write_u8s_no_room [OF assms(1) False assms(4)] show ?thesis
      by (auto simp: QCounted ducknng_qk_write_counted_def write_uleb_bytes)
  qed
qed (use assms in \<open>auto simp: write_bytes_no_room write_uleb_bytes write_sleb_bytes write_u8s_no_room\<close>)

lemma items_bytes_simps [simp]: "items_bytes [] = []" "items_bytes (i # is) = item_bytes i @ items_bytes is"
  by (simp_all add: items_bytes_def)

lemma write_items_room:
  "writer_ok w \<Longrightarrow> \<forall>i \<in> set is. item_ok i \<Longrightarrow> room w (length (items_bytes is)) \<Longrightarrow>
     write_items w is = (0, emitted w (items_bytes is))"
proof (induction "is" arbitrary: w)
  case (Cons i "is")
  have r: "room w (length (item_bytes i))" using Cons.prems(3) by (rule room_mono) simp
  have "room (emitted w (item_bytes i)) (length (items_bytes is))"
    using Cons.prems(3) by (simp add: room_split [OF r])
  with Cons.IH [OF writer_ok_emitted [OF Cons.prems(1) r]] Cons.prems(2) show ?case
    by (simp add: write_item_room [OF Cons.prems(1) _ r] emitted_append [OF Cons.prems(1) r])
qed simp

lemma write_items_no_room:
  "writer_ok w \<Longrightarrow> \<forall>i \<in> set is. item_ok i \<Longrightarrow> room w 0 \<Longrightarrow> \<not> room w (length (items_bytes is)) \<Longrightarrow>
     \<exists>w'. write_items w is = (-1, w') \<and> spoiled w w'"
proof (induction "is" arbitrary: w)
  case (Cons i "is")
  show ?case
  proof (cases "room w (length (item_bytes i))")
    case True
    have "room (emitted w (item_bytes i)) 0" "\<not> room (emitted w (item_bytes i)) (length (items_bytes is))"
      using Cons.prems(4) True by (simp_all add: room_split [OF True])
    with Cons.IH [OF writer_ok_emitted [OF Cons.prems(1) True]] Cons.prems(2)
      write_item_room [OF Cons.prems(1) _ True] spoiled_emitted [OF Cons.prems(1) True]
    show ?thesis by auto
  next
    case False
    with write_item_no_room [OF Cons.prems(1) _ False] Cons.prems show ?thesis by auto
  qed
qed simp

section \<open>What the reader consumes\<close>

text \<open>A healthy reader and the bytes it has yet to read.\<close>

definition reader_ok :: "ducknng_qk_reader \<Rightarrow> bool" where
  "reader_ok r \<longleftrightarrow> r_status r = DUCKNNG_QK_OK \<and> unat (r_off r) \<le> unat (r_len r) \<and>
     unat (r_len r) \<le> length (deref (r_data r))"

definition pending :: "ducknng_qk_reader \<Rightarrow> bytes" where
  "pending r = take (unat (r_len r) - unat (r_off r)) (drop (unat (r_off r)) (deref (r_data r)))"

definition advance :: "ducknng_qk_reader \<Rightarrow> nat \<Rightarrow> ducknng_qk_reader" where
  "advance r n = r\<lparr>r_off := r_off r + of_nat n\<rparr>"

lemma length_pending: "reader_ok r \<Longrightarrow> length (pending r) = unat (r_len r) - unat (r_off r)"
  unfolding pending_def reader_ok_def by auto

lemma unat_advance:
  assumes "reader_ok r" "n \<le> length (pending r)"
  shows "unat (r_off (advance r n)) = unat (r_off r) + n"
proof -
  have "unat (r_off r) + n \<le> unat (r_len r)"
    using assms length_pending [OF assms(1)] unfolding reader_ok_def by linarith
  then have "unat (r_off r) + n < 2 ^ 64" using unat_u64_less [of "r_len r"] by linarith
  then show ?thesis by (simp add: advance_def unat_word_ariths unat_of_nat)
qed

lemma advance_fields [simp]:
  "r_status (advance r n) = r_status r" "r_len (advance r n) = r_len r" "r_data (advance r n) = r_data r"
  by (simp_all add: advance_def)

lemma reader_ok_advance:
  assumes "reader_ok r" "n \<le> length (pending r)"
  shows "reader_ok (advance r n)"
  using assms unat_advance [OF assms] length_pending [OF assms(1)] unfolding reader_ok_def by simp linarith

lemma pending_advance:
  assumes "reader_ok r" "n \<le> length (pending r)"
  shows "pending (advance r n) = drop n (pending r)"
  unfolding pending_def unat_advance [OF assms] by (simp add: drop_take ac_simps)

lemma advance_advance [simp]: "advance (advance r m) n = advance r (m + n)"
  by (simp add: advance_def ac_simps)

lemma need_ok:
  assumes "reader_ok r" "unat n \<le> length (pending r)"
  shows "ducknng_qk_reader_need r n = (Some (), r)"
proof -
  have "r_off r \<le> r_len r" using assms(1) by (simp add: reader_ok_def word_le_nat_alt)
  moreover from this have "unat (r_len r - r_off r) = length (pending r)"
    by (simp add: unat_sub word_le_nat_alt length_pending [OF assms(1)])
  ultimately show ?thesis
    using assms by (auto simp: ducknng_qk_reader_need_def reader_ok_def word_less_nat_alt word_le_nat_alt)
qed

lemma need_fail:
  assumes "reader_ok r" "\<not> unat n \<le> length (pending r)"
  shows "ducknng_qk_reader_need r n = (None, r\<lparr>r_status := DUCKNNG_QK_TRUNCATED\<rparr>)"
proof -
  have "r_off r \<le> r_len r" using assms(1) by (simp add: reader_ok_def word_le_nat_alt)
  moreover from this have "unat (r_len r - r_off r) = length (pending r)"
    by (simp add: unat_sub word_le_nat_alt length_pending [OF assms(1)])
  ultimately show ?thesis
    using assms
    by (auto simp: ducknng_qk_reader_need_def ducknng_qk_reader_fail_def reader_ok_def word_less_nat_alt)
qed

lemma byte_at_pending:
  "reader_ok r \<Longrightarrow> i < length (pending r) \<Longrightarrow> byte_at r i = pending r ! i"
  by (simp add: byte_at_def pending_def reader_ok_def)

lemma read_u8_Cons:
  assumes "reader_ok r" "pending r = b # bs"
  shows "ducknng_qk_read_u8 r = (Some b, advance r 1)"
  using need_ok [OF assms(1), of 1] byte_at_pending [OF assms(1), of 0] assms(2)
  by (simp add: ducknng_qk_read_u8_def advance_def)

lemma read_u8_Nil:
  assumes "reader_ok r" "pending r = []"
  shows "ducknng_qk_read_u8 r = (None, r\<lparr>r_status := DUCKNNG_QK_TRUNCATED\<rparr>)"
  using need_fail [OF assms(1), of 1] assms(2) by (simp add: ducknng_qk_read_u8_def)

lemma reader_step:
  assumes "reader_ok r" "pending r = b # bs"
  shows "reader_ok (advance r 1)" "pending (advance r 1) = bs"
  using reader_ok_advance [OF assms(1), of 1] pending_advance [OF assms(1), of 1] assms(2) by simp_all

section \<open>LEB128 round trips\<close>

lemma and_7f: "(x :: 'a::len word) AND 0x7f = take_bit 7 x"
  by (simp add: take_bit_eq_mask mask_eq_exp_minus_1)

lemma and_80: "(x :: u8) AND 0x80 = 0 \<longleftrightarrow> \<not> bit x 7"
  using and_exp_eq_0_iff_not_bit [of x 7] by simp

lemma and_40: "(x :: u8) AND 0x40 = 0 \<longleftrightarrow> \<not> bit x 6"
  using and_exp_eq_0_iff_not_bit [of x 6] by simp

lemma or_80_bits: "bit ((x :: u8) OR 0x80) n \<longleftrightarrow> bit x n \<or> n = 7"
proof -
  have "bit (2 ^ 7 :: u8) n \<longleftrightarrow> n = 7" unfolding bit_exp_iff by auto
  moreover have "(0x80 :: u8) = 2 ^ 7" by simp
  ultimately show ?thesis by (simp only: bit_or_iff)
qed

lemma group_byte:
  "(ucast (take_bit 7 (v :: u64)) OR 0x80 :: u8) AND 0x7f = ucast (take_bit 7 v)"
  "(ucast (take_bit 7 v) :: u8) AND 0x7f = ucast (take_bit 7 v)"
  "(ucast (take_bit 7 v) OR 0x80 :: u8) AND 0x80 \<noteq> 0"
  "(ucast (take_bit 7 v) :: u8) AND 0x80 = 0"
  unfolding and_7f and_80
  by (rule bit_word_eqI, auto simp: bit_simps or_80_bits simp del: bit_or_iff)+

lemma uleb_accumulate:
  fixes V :: u64
  shows "take_bit s V OR push_bit s (ucast (ucast (take_bit 7 (drop_bit s V)) :: u8)) = take_bit (s + 7) V"
  by (rule bit_word_eqI) (auto simp: bit_simps)

lemma take_bit_all: "drop_bit n (V :: u64) = 0 \<Longrightarrow> take_bit n V = V"
  using bits_ident [of n V] by simp

lemma uleb_last_group:
  assumes "63 \<le> s"
  shows "(ucast (take_bit 7 (drop_bit s (V :: u64))) :: u8) AND 0x7e = 0"
    "drop_bit 7 (drop_bit s V) = 0"
proof -
  have z: "drop_bit 7 (drop_bit s V) = 0"
    by (rule bit_word_eqI) (use assms in \<open>auto simp: bit_simps\<close>)
  show "(ucast (take_bit 7 (drop_bit s V)) :: u8) AND 0x7e = 0"
  proof (rule bit_word_eqI)
    fix n
    have "\<not> bit V (s + n)" if "n \<noteq> 0" using bit_imp_le_length [of V "s + n"] assms that by auto
    then show "bit ((ucast (take_bit 7 (drop_bit s V)) :: u8) AND 0x7e) n = bit 0 n"
      by (cases "n = 0") (auto simp: bit_simps)
  qed
  show "drop_bit 7 (drop_bit s V) = 0" by (rule z)
qed

lemma drop_bit_0_if_large: "64 \<le> s \<Longrightarrow> drop_bit s (V :: u64) = 0"
  by (rule bit_word_eqI) (auto simp: bit_simps)

lemma read_uleb_loop_bytes:
  assumes "reader_ok r" "pending r = uleb (drop_bit s V) @ rest" "s < 64"
  shows "read_uleb_loop r (take_bit s V) s = (Some V, advance r (length (uleb (drop_bit s V))))"
  using assms
proof (induction "64 - s" arbitrary: s r rule: less_induct)
  case less
  let ?v = "drop_bit s V"
  show ?case
  proof (cases "drop_bit 7 ?v = 0")
    case True
    then have u: "uleb ?v = [ucast (take_bit 7 ?v)]" by (subst uleb.simps) (simp add: and_7f)
    have "pending r = ucast (take_bit 7 ?v) # rest" using less.prems(2) u by simp
    note rd = read_u8_Cons [OF less.prems(1) this]
    have "take_bit (s + 7) V = V" using True by (intro take_bit_all) (simp add: ac_simps)
    then show ?thesis
      using rd less.prems(3) u uleb_last_group(1) [of s V] group_byte
      by (subst read_uleb_loop.simps) (cases "s = 63"; simp add: uleb_accumulate)
  next
    case False
    have s: "s < 57"
    proof (rule ccontr)
      assume "\<not> s < 57"
      then have "drop_bit (s + 7) V = 0" by (intro drop_bit_0_if_large) simp
      with False show False by (simp add: ac_simps)
    qed
    have u: "uleb ?v = (ucast (take_bit 7 ?v) OR 0x80) # uleb (drop_bit (s + 7) V)"
      using False by (subst uleb.simps) (simp add: and_7f ac_simps)
    then have p: "pending r = (ucast (take_bit 7 ?v) OR 0x80) # uleb (drop_bit (s + 7) V) @ rest"
      using less.prems(2) by simp
    have "read_uleb_loop (advance r 1) (take_bit (s + 7) V) (s + 7) =
        (Some V, advance (advance r 1) (length (uleb (drop_bit (s + 7) V))))"
      using s reader_step [OF less.prems(1) p] by (intro less.hyps) simp_all
    then show ?thesis
      using read_u8_Cons [OF less.prems(1) p] s u group_byte
      by (subst read_uleb_loop.simps) (simp add: uleb_accumulate)
  qed
qed

lemma read_uleb128_bytes:
  assumes "reader_ok r" "pending r = uleb v @ rest"
  shows "ducknng_qk_read_uleb128 r = (Some v, advance r (length (uleb v)))"
  using read_uleb_loop_bytes [of r 0 v rest] assms by (simp add: ducknng_qk_read_uleb128_def)

lemma sleb_bits: "sleb_byte v = word_of_int (take_bit 7 v)" "sleb_next v = drop_bit 7 v"
  by (simp_all add: sleb_byte_mod sleb_next_div take_bit_eq_mod drop_bit_eq_div)

lemma sleb_group:
  "(sleb_byte v OR 0x80) AND 0x7f = sleb_byte v" "sleb_byte v AND 0x7f = sleb_byte v"
  "(sleb_byte v OR 0x80) AND 0x80 \<noteq> 0" "sleb_byte v AND 0x80 = 0"
  "sleb_byte v AND 0x40 \<noteq> 0 \<longleftrightarrow> bit v 6"
  unfolding and_7f and_80 and_40 sleb_bits
  by (rule bit_word_eqI, auto simp: bit_simps or_80_bits simp del: bit_or_iff)+

lemma sleb_more_iff: "sleb_more v \<longleftrightarrow> \<not> (drop_bit 7 v = 0 \<and> \<not> bit v 6 \<or> drop_bit 7 v = -1 \<and> bit v 6)"
  using sleb_group(5) [of v] by (simp add: sleb_more_def Let_def sleb_bits(2))

lemma sleb_accumulate:
  "(word_of_int (take_bit s V) :: u64) OR push_bit s (ucast (sleb_byte (drop_bit s V))) =
     word_of_int (take_bit (s + 7) V)"
  unfolding sleb_bits by (rule bit_word_eqI) (auto simp: bit_simps)

lemma int64_drop_63:
  assumes "- (2 ^ 63) \<le> V" "V < (2 ^ 63 :: int)"
  shows "drop_bit 63 V = 0 \<or> drop_bit 63 V = -1"
proof (cases "0 \<le> V")
  case True
  with assms(2) show ?thesis by (simp add: drop_bit_eq_div)
next
  case False
  then have "V div 2 ^ 63 < 0" "-1 \<le> V div 2 ^ 63"
    using assms(1) zdiv_mono1 [of "- (2 ^ 63)" V "2 ^ 63"] by simp_all
  then show ?thesis by (simp add: drop_bit_eq_div)
qed

lemma sleb_ends:
  "\<not> sleb_more 0" "\<not> sleb_more (-1)" "sleb_byte 0 = 0" "sleb_byte (-1) = 0x7f"
  by (simp_all add: sleb_more_iff sleb_byte_mod)

definition sleb_finish :: "u64 \<Rightarrow> u8 \<Rightarrow> nat \<Rightarrow> u64" where
  "sleb_finish bits byte shift =
     (if shift < 63 \<and> byte AND 0x40 \<noteq> 0 then bits OR push_bit (shift + 7) UINT64_MAX else bits)"

lemma uint64_max_all: "UINT64_MAX = - 1"
  by simp

lemma sleb_finish_last:
  assumes "\<not> sleb_more (drop_bit s V)" "s \<le> 63" "7 dvd s"
  shows "sleb_finish (word_of_int (take_bit (s + 7) V)) (sleb_byte (drop_bit s V)) s = word_of_int V"
proof -
  have d: "drop_bit (s + 7) V = 0 \<and> \<not> bit V (s + 6) \<or> drop_bit (s + 7) V = -1 \<and> bit V (s + 6)"
    using assms(1) by (simp add: sleb_more_iff bit_simps ac_simps)
  have hi: "bit V n \<longleftrightarrow> bit V (s + 6)" if "s + 7 \<le> n" for n
  proof -
    have "bit V n \<longleftrightarrow> bit (drop_bit (s + 7) V) (n - (s + 7))" using that by (simp add: bit_simps)
    with d show ?thesis by auto
  qed
  then have lo: "n < s + 7" if "bit V n" "\<not> bit V (s + 6)" for n
    using that by (metis not_less)
  show ?thesis
    unfolding sleb_finish_def sleb_group(5) uint64_max_all
    by (rule bit_word_eqI) (use hi assms(2) in \<open>auto simp: bit_simps not_less dest: lo\<close>)
qed

lemma read_sleb_loop_bytes:
  assumes "reader_ok r" "pending r = sleb (drop_bit s V) @ rest" "s \<le> 63" "7 dvd s"
    and V: "- (2 ^ 63) \<le> V" "V < 2 ^ 63"
  shows "\<exists>bits byte s'. read_sleb_loop r (word_of_int (take_bit s V)) s =
      (Some (bits, byte, s'), advance r (length (sleb (drop_bit s V)))) \<and>
    sleb_finish bits byte s' = word_of_int V"
  using assms(1-4)
proof (induction "64 - s" arbitrary: s r rule: less_induct)
  case less
  let ?v = "drop_bit s V"
  have end63: "\<not> sleb_more ?v \<and> (sleb_byte ?v = 0 \<or> sleb_byte ?v = 0x7f)" if "s = 63"
    using int64_drop_63 [OF V] that sleb_ends by auto
  show ?case
  proof (cases "sleb_more ?v")
    case False
    then have u: "sleb ?v = [sleb_byte ?v]" by (subst sleb.simps) simp
    have "pending r = sleb_byte ?v # rest" using less.prems(2) u by simp
    note rd = read_u8_Cons [OF less.prems(1) this]
    have "read_sleb_loop r (word_of_int (take_bit s V)) s =
        (Some (word_of_int (take_bit (s + 7) V), sleb_byte ?v, s), advance r 1)"
      using rd less.prems(3) end63 sleb_group
      by (subst read_sleb_loop.simps) (cases "s = 63"; auto simp: sleb_accumulate Let_def)
    with sleb_finish_last [OF False less.prems(3,4)] u show ?thesis by simp
  next
    case True
    then have "s \<noteq> 63" using end63 by auto
    then have s: "s + 7 \<le> 63" using less.prems(3,4) by presburger
    have u: "sleb ?v = (sleb_byte ?v OR 0x80) # sleb (drop_bit (s + 7) V)"
      using True by (subst sleb.simps) (simp add: sleb_bits(2) ac_simps)
    then have p: "pending r = (sleb_byte ?v OR 0x80) # sleb (drop_bit (s + 7) V) @ rest"
      using less.prems(2) by simp
    have "\<exists>bits byte s'. read_sleb_loop (advance r 1) (word_of_int (take_bit (s + 7) V)) (s + 7) =
        (Some (bits, byte, s'), advance (advance r 1) (length (sleb (drop_bit (s + 7) V)))) \<and>
        sleb_finish bits byte s' = word_of_int V"
      using s less.prems(4) reader_step [OF less.prems(1) p] by (intro less.hyps) simp_all
    then show ?thesis
      using read_u8_Cons [OF less.prems(1) p] s u sleb_group
      by (subst read_sleb_loop.simps) (simp add: sleb_accumulate Let_def)
  qed
qed

lemma sint_word_of_int_64:
  "- (2 ^ 63) \<le> V \<Longrightarrow> V < 2 ^ 63 \<Longrightarrow> sint (word_of_int V :: u64) = V"
  by (simp add: signed_of_int signed_take_bit_int_eq_self)

lemma read_sleb128_bytes:
  assumes "reader_ok r" "pending r = sleb v @ rest" "- (2 ^ 63) \<le> v" "v < 2 ^ 63"
  shows "ducknng_qk_read_sleb128 r = (Some v, advance r (length (sleb v)))"
proof -
  obtain bits byte s' where l: "read_sleb_loop r 0 0 = (Some (bits, byte, s'), advance r (length (sleb v)))"
      "sleb_finish bits byte s' = word_of_int v"
    using read_sleb_loop_bytes [of r 0 v rest] assms by auto
  then show ?thesis
    using sint_word_of_int_64 [OF assms(3,4)]
    unfolding ducknng_qk_read_sleb128_def l(1) prod.case option.case Let_def sleb_finish_def [symmetric]
    by simp
qed

section \<open>The readers as codecs\<close>

definition run_reader :: "(ducknng_qk_reader \<Rightarrow> 'a option \<times> ducknng_qk_reader) \<Rightarrow> bytes \<Rightarrow> ('a \<times> bytes) option" where
  "run_reader f bs = (case f (ducknng_qk_reader_init (Some bs) (of_nat (length bs))) of
     (None, r) \<Rightarrow> None | (Some v, r) \<Rightarrow> Some (v, pending r))"

lemma reader_init_ok:
  assumes "fits bs"
  shows "reader_ok (ducknng_qk_reader_init (Some bs) (of_nat (length bs)))"
    "pending (ducknng_qk_reader_init (Some bs) (of_nat (length bs))) = bs"
  using unat_of_nat_u64 [OF assms]
  by (simp_all add: ducknng_qk_reader_init_def reader_ok_def pending_def)

lemma run_reader_advance:
  assumes "fits (a @ rest)"
    and "\<And>r. reader_ok r \<Longrightarrow> pending r = a @ rest \<Longrightarrow> f r = (Some v, advance r (length a))"
  shows "run_reader f (a @ rest) = Some (v, rest)"
  using reader_init_ok [OF assms(1)] assms(2)
  by (simp add: run_reader_def pending_advance)

definition int64_ok :: "int \<Rightarrow> bool" where
  "int64_ok v \<longleftrightarrow> - (2 ^ 63) \<le> v \<and> v < 2 ^ 63"

interpretation qk_uleb: prefix_codec uleb "run_reader ducknng_qk_read_uleb128" "\<lambda>_. True"
  by unfold_locales (rule run_reader_advance, assumption, rule read_uleb128_bytes)

interpretation qk_sleb: prefix_codec sleb "run_reader ducknng_qk_read_sleb128" int64_ok
proof (unfold_locales, rule run_reader_advance)
  fix a rest r
  assume "int64_ok a" "reader_ok r" "pending r = sleb a @ rest"
  then show "ducknng_qk_read_sleb128 r = (Some a, advance r (length (sleb a)))"
    by (intro read_sleb128_bytes) (simp_all add: int64_ok_def)
qed

section \<open>Sequences of reads\<close>

text \<open>The reader's view of an item: what to read next. Raw bytes of a known size are skipped over.\<close>

datatype qk_kind = KBytes size_t | KU8 | KU16 | KUleb | KSleb | KCounted

fun kind_of :: "qk_item \<Rightarrow> qk_kind" where
  "kind_of (QBytes bs) = KBytes (of_nat (length bs))"
| "kind_of (QU8 v) = KU8"
| "kind_of (QU16 v) = KU16"
| "kind_of (QUleb v) = KUleb"
| "kind_of (QSleb v) = KSleb"
| "kind_of (QCounted bs) = KCounted"

definition fmap :: "('a \<Rightarrow> 'b) \<Rightarrow> 'a option \<times> 'r \<Rightarrow> 'b option \<times> 'r" where
  "fmap f = map_prod (map_option f) id"

lemma fmap_simps [simp]: "fmap f (Some v, r) = (Some (f v), r)" "fmap f (None, r) = (None, r)"
  by (simp_all add: fmap_def)

fun read_item :: "ducknng_qk_reader \<Rightarrow> qk_kind \<Rightarrow> qk_item option \<times> ducknng_qk_reader" where
  "read_item r (KBytes n) = fmap (\<lambda>_. QBytes (take (unat n) (drop (unat (r_off r)) (deref (r_data r)))))
     (ducknng_qk_skip r n)"
| "read_item r KU8 = fmap QU8 (ducknng_qk_read_u8 r)"
| "read_item r KU16 = fmap QU16 (ducknng_qk_read_u16le r)"
| "read_item r KUleb = fmap QUleb (ducknng_qk_read_uleb128 r)"
| "read_item r KSleb = fmap QSleb (ducknng_qk_read_sleb128 r)"
| "read_item r KCounted = fmap (\<lambda>(p, n). QCounted (take (unat n) p)) (ducknng_qk_read_counted r)"

fun read_items :: "ducknng_qk_reader \<Rightarrow> qk_kind list \<Rightarrow> qk_item list option \<times> ducknng_qk_reader" where
  "read_items r [] = (Some [], r)"
| "read_items r (k # ks) = (case read_item r k of
     (None, r) \<Rightarrow> (None, r)
   | (Some i, r) \<Rightarrow> fmap ((#) i) (read_items r ks))"

lemma pending_prefix:
  assumes "reader_ok r" "pending r = bs @ rest"
  shows "take (length bs) (drop (unat (r_off r)) (deref (r_data r))) = bs"
proof -
  have "length bs \<le> unat (r_len r) - unat (r_off r)"
    using assms length_pending [OF assms(1)] by simp
  then have "take (length bs) (drop (unat (r_off r)) (deref (r_data r))) = take (length bs) (pending r)"
    by (simp add: pending_def min_def)
  with assms(2) show ?thesis by simp
qed

lemma pending_fits: "reader_ok r \<Longrightarrow> pending r = bs @ rest \<Longrightarrow> fits bs"
  using length_pending [of r] unat_u64_less [of "r_len r"] by simp

lemma read_u16_bytes:
  assumes "reader_ok r" "pending r = [ucast (v AND 0xff), ucast (drop_bit 8 v)] @ rest"
  shows "ducknng_qk_read_u16le r = (Some v, advance r 2)"
proof -
  have v: "ucast (ucast (take_bit 8 v) :: u8) OR push_bit 8 (ucast (ucast (drop_bit 8 v) :: u8)) = (v :: u16)"
    by (rule bit_word_eqI) (auto simp: bit_simps)
  have "byte_at r 0 = ucast (take_bit 8 v)" "byte_at r 1 = ucast (drop_bit 8 v)"
    using byte_at_pending [OF assms(1)] assms(2) by simp_all
  with need_ok [OF assms(1), of 2] assms(2) v show ?thesis
    by (simp add: ducknng_qk_read_u16le_def ducknng_qk_peek_u16le_def advance_def)
qed

lemma read_item_bytes:
  assumes "reader_ok r" "pending r = item_bytes i @ rest" "item_ok i"
  shows "read_item r (kind_of i) = (Some i, advance r (length (item_bytes i)))"
proof (cases i)
  case (QBytes bs)
  have u: "unat (of_nat (length bs) :: u64) = length bs"
    using assms(3) by (simp add: QBytes unat_of_nat_u64)
  with need_ok [OF assms(1), of "of_nat (length bs)"] pending_prefix [OF assms(1,2)] assms(2)
  show ?thesis by (simp add: QBytes ducknng_qk_skip_def advance_def)
next
  case (QCounted bs)
  let ?n = "of_nat (length bs) :: u64" and ?r = "advance r (length (uleb (of_nat (length bs))))"
  have u: "unat ?n = length bs" using assms(3) by (simp add: QCounted unat_of_nat_u64)
  have p: "pending r = uleb ?n @ bs @ rest" using assms(2) by (simp add: QCounted)
  have r: "reader_ok ?r" "pending ?r = bs @ rest"
    using reader_ok_advance [OF assms(1)] pending_advance [OF assms(1)] p by simp_all
  have "\<not> ?n > SIZE_MAX" using unat_u64_less [of ?n] by (simp add: word_less_nat_alt)
  moreover have "r_off ?r + ?n = r_off (advance r (length (item_bytes i)))"
    by (simp add: QCounted advance_def ac_simps)
  ultimately show ?thesis
    using read_uleb128_bytes [OF assms(1) p] need_ok [OF r(1), of ?n] r u pending_prefix [OF r]
    by (simp add: QCounted ducknng_qk_read_counted_def) (simp add: advance_def ac_simps)
next
  case (QU16 v)
  then show ?thesis using read_u16_bytes [OF assms(1), of v rest] assms(2) by (simp add: numeral_2_eq_2)
qed (use assms in \<open>simp_all add: read_u8_Cons read_uleb128_bytes read_sleb128_bytes\<close>)

lemma read_items_bytes:
  "reader_ok r \<Longrightarrow> pending r = items_bytes is @ rest \<Longrightarrow> \<forall>i \<in> set is. item_ok i \<Longrightarrow>
     read_items r (map kind_of is) = (Some is, advance r (length (items_bytes is)))"
proof (induction "is" arbitrary: r)
  case Nil
  then show ?case by (simp add: advance_def)
next
  case (Cons i "is")
  let ?r = "advance r (length (item_bytes i))"
  have p: "pending r = item_bytes i @ items_bytes is @ rest" using Cons.prems(2) by simp
  have "reader_ok ?r" "pending ?r = items_bytes is @ rest"
    using reader_ok_advance [OF Cons.prems(1)] pending_advance [OF Cons.prems(1)] p by simp_all
  with Cons.IH [of ?r] read_item_bytes [OF Cons.prems(1) p] Cons.prems(3) show ?case by simp
qed

section \<open>Exactness of the unsigned reader\<close>

text \<open>The value of a list of 7-bit groups, and a list that ends at its first byte without bit 7.\<close>

fun uleb_val :: "bytes \<Rightarrow> nat" where
  "uleb_val [] = 0"
| "uleb_val (b # bs) = unat b mod 128 + 128 * uleb_val bs"

fun terminated :: "bytes \<Rightarrow> bool" where
  "terminated [] = False"
| "terminated (b # bs) = (if bit b 7 then terminated bs else bs = [])"

lemma terminated_not_Nil: "terminated bs \<Longrightarrow> bs \<noteq> []"
  by auto

lemma unat_or_push:
  fixes acc :: u64 and g :: u8
  assumes "unat acc < 2 ^ s" "unat g * 2 ^ s < 2 ^ 64" "s < 64"
  shows "unat (acc OR push_bit s (ucast g)) = unat acc + 2 ^ s * unat g"
    and "unat acc + 2 ^ s * unat g < 2 ^ 64"
proof -
  have ta: "take_bit s acc = acc"
    using assms(1) by (simp add: word_unat_eq_iff unsigned_take_bit_eq take_bit_nat_eq_self)
  then have ba: "bit acc n \<Longrightarrow> n < s" for n by (metis bit_take_bit_iff)
  then have or: "acc OR push_bit s (ucast g) = acc + push_bit s (ucast g)"
    by (intro disjunctive_add [symmetric]) (auto simp: bit_simps dest: ba)
  have ug: "unat (ucast g :: u64) = unat g" by (simp add: unsigned_ucast_eq take_bit_nat_eq_self
        order_less_trans [OF unat_u8_less])
  have up: "unat (push_bit s (ucast g) :: u64) = 2 ^ s * unat g"
    unfolding unsigned_push_bit_eq ug using assms(2)
    by (simp add: push_bit_eq_mult take_bit_nat_eq_self mult.commute)
  have p: "2 ^ (64 - s) * 2 ^ s = (2 :: nat) ^ 64" using assms(3) by (simp add: power_add [symmetric])
  have "unat g * 2 ^ s < 2 ^ (64 - s) * 2 ^ s" using assms(2) unfolding p .
  then have "unat g < 2 ^ (64 - s)" by simp
  then have "2 ^ s * (unat g + 1) \<le> 2 ^ s * (2 :: nat) ^ (64 - s)" by (intro mult_le_mono2) simp
  then have le: "2 ^ s * unat g + 2 ^ s \<le> 2 ^ 64" using p by (simp only: distrib_left mult.commute) simp
  show lt: "unat acc + 2 ^ s * unat g < 2 ^ 64"
    using assms(1) le by linarith
  show "unat (acc OR push_bit s (ucast g)) = unat acc + 2 ^ s * unat g"
    using or up lt by (simp add: unat_add_no_overflow)
qed

lemma group_63: "(b :: u8) AND 0x7e = 0 \<longleftrightarrow> unat (b AND 0x7f) \<le> 1"
proof
  assume z: "b AND 0x7e = 0"
  have "b AND 0x7f = b AND 1"
  proof (rule bit_word_eqI)
    fix n assume "n < LENGTH(8)"
    show "bit (b AND 0x7f) n = bit (b AND 1) n"
    proof (cases n)
      case 0
      then show ?thesis by (simp add: and_7f bit_simps)
    next
      case (Suc m)
      have "\<not> bit (b AND 0x7e) n" using z by simp
      moreover have "bit (0x7e :: u8) n \<longleftrightarrow> bit (0x7f :: u8) n" using Suc by (simp add: bit_Suc)
      moreover have "\<not> bit (1 :: u8) n" using Suc by simp
      ultimately show ?thesis by (simp only: bit_and_iff) simp
    qed
  qed
  then show "unat (b AND 0x7f) \<le> 1" by (simp add: and_one_eq unat_mod)
next
  assume "unat (b AND 0x7f) \<le> 1"
  then have "b AND 0x7f = 0 \<or> b AND 0x7f = 1" by (auto simp: word_unat_eq_iff)
  moreover have "b AND 0x7e = (b AND 0x7f) AND 0x7e" by (simp add: and.assoc)
  ultimately show "b AND 0x7e = 0" by (elim disjE) (simp_all only:, simp_all)
qed

lemma unat_and_7f: "unat ((b :: u8) AND 0x7f) = unat b mod 128"
  by (simp add: and_7f take_bit_eq_mod unat_mod)

lemma uleb_group_step:
  fixes acc :: u64 and b :: u8
  assumes "unat acc < 2 ^ s" "7 dvd s" "s \<le> 63" "s = 63 \<longrightarrow> b AND 0x7e = 0"
  defines "acc' \<equiv> acc OR push_bit s (ucast (b AND 0x7f))"
  shows "unat acc' = unat acc + 2 ^ s * (unat b mod 128)"
    "unat acc + 2 ^ s * (unat b mod 128) < 2 ^ 64" "unat (acc') < 2 ^ (s + 7)"
proof -
  let ?g = "unat b mod 128"
  have "?g * 2 ^ s < 2 ^ 64"
  proof (cases "s = 63")
    case True
    then show ?thesis using assms(4) group_63 [of b] unat_and_7f [of b] by simp
  next
    case False
    then have "s \<le> 56" using assms(2,3) by presburger
    then have "?g * 2 ^ s \<le> 127 * 2 ^ 56" by (intro mult_mono power_increasing) simp_all
    then show ?thesis by simp
  qed
  then show u: "unat (acc') = unat acc + 2 ^ s * ?g" and "unat acc + 2 ^ s * ?g < 2 ^ 64"
    using unat_or_push [OF assms(1), of "b AND 0x7f"] assms(3) unat_and_7f [of b] by (simp_all add: acc'_def)
  have "2 ^ s * (?g + 1) \<le> 2 ^ s * (128 :: nat)" by (intro mult_le_mono2) simp
  then have "unat acc + 2 ^ s * ?g < 2 ^ s * 128" using assms(1) by (simp only: distrib_left)
  then show "unat (acc') < 2 ^ (s + 7)" using u by (simp add: power_add)
qed

lemma read_uleb_loop_exact:
  assumes "reader_ok r" "pending r = bs @ rest" "terminated bs" "7 dvd s" "s \<le> 70" "unat acc < 2 ^ s"
  shows "if s + 7 * length bs \<le> 70 \<and> unat acc + 2 ^ s * uleb_val bs < 2 ^ 64
    then \<exists>v. read_uleb_loop r acc s = (Some v, advance r (length bs)) \<and>
           unat v = unat acc + 2 ^ s * uleb_val bs
    else \<exists>r'. read_uleb_loop r acc s = (None, r') \<and> r_status r' = DUCKNNG_QK_OVERFLOW"
  using assms
proof (induction bs arbitrary: r acc s)
  case Nil
  then show ?case by simp
next
  case (Cons b bs)
  let ?acc = "acc OR push_bit s (ucast (b AND 0x7f))"
  have p: "pending r = b # bs @ rest" using Cons.prems(2) by simp
  note rd = read_u8_Cons [OF Cons.prems(1) p] and st = reader_step [OF Cons.prems(1) p]
  have "s = 70 \<or> s \<le> 63" using Cons.prems(4,5) by presburger
  then consider "s = 70" | "s = 63" "b AND 0x7e \<noteq> 0" | "s \<le> 63" "s = 63 \<longrightarrow> b AND 0x7e = 0"
    by blast
  then show ?case
  proof cases
    case 1
    then show ?thesis by (subst read_uleb_loop.simps) (simp add: ducknng_qk_reader_fail_def)
  next
    case 2
    then have "2 \<le> unat b mod 128" using group_63 [of b] unat_and_7f [of b] by simp
    then have "\<not> unat acc + 2 ^ s * uleb_val (b # bs) < 2 ^ 64" using 2 by simp
    with 2 rd show ?thesis
      by (subst read_uleb_loop.simps) (simp add: ducknng_qk_reader_fail_def del: uleb_val.simps)
  next
    case 3
    note u = uleb_group_step [OF Cons.prems(6,4) 3]
    show ?thesis
    proof (cases "bit b 7")
      case True
      have step: "read_uleb_loop r acc s = read_uleb_loop (advance r 1) ?acc (s + 7)"
        using 3 rd True and_80 [of b] by (subst read_uleb_loop.simps) (auto simp: Let_def)
      have eq: "unat ?acc + 2 ^ (s + 7) * uleb_val bs = unat acc + 2 ^ s * uleb_val (b # bs)"
        using u(1) by (simp add: power_add algebra_simps)
      show ?thesis
        using Cons.IH [OF st _ _ _ u(3)] True Cons.prems(3,4) 3 unfolding step eq
        by (auto split: if_splits)
    next
      case False
      then have "bs = []" using Cons.prems(3) by simp
      with 3 rd False u and_80 [of b] show ?thesis
        by (subst read_uleb_loop.simps) (auto simp: Let_def)
    qed
  qed
qed

section \<open>Properties\<close>

text \<open>
  C13. The two passes of the batch writer agree. If the measuring pass over a sequence of writes
  succeeds with size \<open>n\<close>, then the filling pass into any buffer of capacity at least \<open>n\<close> succeeds, ends
  at position \<open>n\<close>, has written exactly the items' encodings and left the rest of the buffer alone;
  with a smaller capacity it fails, and no byte at or beyond the capacity has changed.
\<close>

theorem measure_then_fill:
  assumes "\<forall>i \<in> set is. item_ok i"
    and "write_items ducknng_qk_writer_init_measure is = (0, m)" "n = w_position m"
    and "unat cap \<le> length d"
  shows "if n \<le> cap
    then \<exists>w. write_items (ducknng_qk_writer_init_fixed (Some d) cap) is = (0, w) \<and> w_position w = n \<and>
           w_data w = Some (items_bytes is @ drop (unat n) d)
    else \<exists>w. write_items (ducknng_qk_writer_init_fixed (Some d) cap) is = (-1, w) \<and>
           w_status w \<noteq> DUCKNNG_QK_OK \<and> length (deref (w_data w)) = length d \<and>
           drop (unat cap) (deref (w_data w)) = drop (unat cap) d"
proof -
  let ?m = ducknng_qk_writer_init_measure and ?f = "ducknng_qk_writer_init_fixed (Some d) cap"
  have m: "writer_ok ?m" "room ?m 0" and f: "writer_ok ?f" "room ?f 0"
    using assms(4) by (simp_all add: writer_ok_def room_def ducknng_qk_writer_init_measure_def
        ducknng_qk_writer_init_fixed_def)
  have r: "room ?m (length (items_bytes is))"
    using write_items_no_room [OF m(1) assms(1) m(2)] assms(2) by fastforce
  then have "m = emitted ?m (items_bytes is)"
    using write_items_room [OF m(1) assms(1) r] assms(2) by simp
  then have n: "unat n = length (items_bytes is)"
    using emitted_position [OF r] assms(3) by (simp add: ducknng_qk_writer_init_measure_def)
  have room: "room ?f (length (items_bytes is)) \<longleftrightarrow> n \<le> cap"
    using n by (simp add: room_def ducknng_qk_writer_init_fixed_def word_le_nat_alt less_Suc_eq_le)
  have e: "w_position (emitted ?f (items_bytes is)) = n"
      "w_data (emitted ?f (items_bytes is)) = Some (items_bytes is @ drop (unat n) d)"
    using n by (simp_all add: emitted_def ducknng_qk_writer_init_fixed_def poke_def word_unat_eq_iff
        flip: n)
  show ?thesis
  proof (cases "n \<le> cap")
    case True
    with write_items_room [OF f(1) assms(1)] room e show ?thesis by simp
  next
    case False
    with write_items_no_room [OF f(1) assms(1) f(2)] room show ?thesis
      by (auto simp: spoiled_def ducknng_qk_writer_init_fixed_def)
  qed
qed

theorem measure_then_fill_witness:
  "\<exists>w. write_items (ducknng_qk_writer_init_fixed (Some [0, 0, 0, 0]) 4) [QU8 5, QUleb 3] = (0, w) \<and>
     w_data w = Some [5, 3, 0, 0]"
proof -
  have u: "uleb 3 = [3]" by (subst uleb.simps) simp
  have m: "write_items ducknng_qk_writer_init_measure [QU8 5, QUleb 3] =
      (0, ducknng_qk_writer_init_measure\<lparr>w_position := 2\<rparr>)"
    by (simp add: write_uleb_bytes u ducknng_qk_write_u8_def ducknng_qk_write_bytes_def
        ducknng_qk_writer_init_measure_def ducknng_size_add_def)
  from measure_then_fill [OF _ m refl, of 4 "[0, 0, 0, 0]"] show ?thesis
    by (auto simp: items_bytes_def u ducknng_qk_writer_init_measure_def)
qed

text \<open>
  C14. A reader gets back what a writer wrote. Reading the encodings of any sequence of items (bytes,
  8- and 16-bit integers, LEB128 integers of both signs, counted strings), followed by anything,
  with the matching read operations returns the same items and leaves the reader healthy, right
  behind them.
\<close>

theorem items_roundtrip:
  assumes "\<forall>i \<in> set is. item_ok i" "fits (items_bytes is @ rest)"
  shows "\<exists>r. read_items (ducknng_qk_reader_init (Some (items_bytes is @ rest))
      (of_nat (length (items_bytes is @ rest)))) (map kind_of is) = (Some is, r) \<and>
    reader_ok r \<and> pending r = rest"
proof -
  note r = reader_init_ok [OF assms(2)]
  show ?thesis
    using read_items_bytes [OF r assms(1)] reader_ok_advance [OF r(1)] pending_advance [OF r(1)] r(2)
    by simp
qed

theorem items_roundtrip_witness:
  "\<exists>r. read_items (ducknng_qk_reader_init (Some (items_bytes [QSleb (-3), QCounted [1, 2]] @ [9]))
      (of_nat (length (items_bytes [QSleb (-3), QCounted [1, 2]] @ [9])))) [KSleb, KCounted] =
    (Some [QSleb (-3), QCounted [1, 2]], r) \<and> pending r = [9]"
proof -
  have "sleb (-3) = [0x7d]" "uleb 2 = [2]"
    by (subst sleb.simps, simp add: sleb_more_iff sleb_byte_mod, subst uleb.simps, simp)
  then have "fits (items_bytes [QSleb (-3), QCounted [1, 2]] @ [9])" by (simp add: items_bytes_def)
  from items_roundtrip [OF _ this] show ?thesis by fastforce
qed

text \<open>
  The unsigned reader never loses bits. On input that starts with a terminated group list it
  succeeds exactly when the list has at most ten groups and its mathematical value is below
  \<open>2 ^ 64\<close>; then it returns that value and consumes exactly those bytes, and otherwise it
  reports an overflow.
\<close>

theorem uleb_exact:
  assumes "reader_ok r" "pending r = bs @ rest" "terminated bs"
  shows "if length bs \<le> 10 \<and> uleb_val bs < 2 ^ 64
    then \<exists>v r'. ducknng_qk_read_uleb128 r = (Some v, r') \<and> unat v = uleb_val bs \<and>
           reader_ok r' \<and> pending r' = rest
    else \<exists>r'. ducknng_qk_read_uleb128 r = (None, r') \<and> r_status r' = DUCKNNG_QK_OVERFLOW"
  using read_uleb_loop_exact [OF assms, of 0 0] reader_ok_advance [OF assms(1), of "length bs"]
    pending_advance [OF assms(1), of "length bs"] assms(2)
  by (auto simp: ducknng_qk_read_uleb128_def split: if_splits)

theorem uleb_exact_witness:
  "\<exists>v r'. ducknng_qk_read_uleb128 (ducknng_qk_reader_init (Some [0xe5, 0x8e, 0x26, 7]) 4) = (Some v, r') \<and>
     unat v = 624485 \<and> pending r' = [7]"
proof -
  have i: "reader_ok (ducknng_qk_reader_init (Some [0xe5, 0x8e, 0x26, 7]) 4)"
    "pending (ducknng_qk_reader_init (Some [0xe5, 0x8e, 0x26, 7]) 4) = [0xe5, 0x8e, 0x26] @ [7]"
    using reader_init_ok [of "[0xe5, 0x8e, 0x26, 7]"] by simp_all
  have t: "terminated [0xe5, 0x8e, 0x26]" by (simp add: bit_iff_odd)
  from uleb_exact [OF i t] show ?thesis by auto
qed

end
