(* ===== verification/QuackTypes.thy ===== *)
theory QuackTypes
  imports Checked
begin

text \<open>
  Column types of Quack batches (the second half of \<open>ducknng_quack_core.c\<close>): the schema tree, its
  classification into nested, variable-length and fixed-width types, structural comparison and
  shape validation.
\<close>

section \<open>Type identifiers\<close>

abbreviation "DUCKNNG_QUACK_LOGICAL_BOOLEAN \<equiv> (10 :: int)"
abbreviation "DUCKNNG_QUACK_LOGICAL_TINYINT \<equiv> (11 :: int)"
abbreviation "DUCKNNG_QUACK_LOGICAL_SMALLINT \<equiv> (12 :: int)"
abbreviation "DUCKNNG_QUACK_LOGICAL_INTEGER \<equiv> (13 :: int)"
abbreviation "DUCKNNG_QUACK_LOGICAL_BIGINT \<equiv> (14 :: int)"
abbreviation "DUCKNNG_QUACK_LOGICAL_DATE \<equiv> (15 :: int)"
abbreviation "DUCKNNG_QUACK_LOGICAL_TIME \<equiv> (16 :: int)"
abbreviation "DUCKNNG_QUACK_LOGICAL_TIMESTAMP_SEC \<equiv> (17 :: int)"
abbreviation "DUCKNNG_QUACK_LOGICAL_TIMESTAMP_MS \<equiv> (18 :: int)"
abbreviation "DUCKNNG_QUACK_LOGICAL_TIMESTAMP \<equiv> (19 :: int)"
abbreviation "DUCKNNG_QUACK_LOGICAL_TIMESTAMP_NS \<equiv> (20 :: int)"
abbreviation "DUCKNNG_QUACK_LOGICAL_DECIMAL \<equiv> (21 :: int)"
abbreviation "DUCKNNG_QUACK_LOGICAL_FLOAT \<equiv> (22 :: int)"
abbreviation "DUCKNNG_QUACK_LOGICAL_DOUBLE \<equiv> (23 :: int)"
abbreviation "DUCKNNG_QUACK_LOGICAL_CHAR \<equiv> (24 :: int)"
abbreviation "DUCKNNG_QUACK_LOGICAL_VARCHAR \<equiv> (25 :: int)"
abbreviation "DUCKNNG_QUACK_LOGICAL_BLOB \<equiv> (26 :: int)"
abbreviation "DUCKNNG_QUACK_LOGICAL_INTERVAL \<equiv> (27 :: int)"
abbreviation "DUCKNNG_QUACK_LOGICAL_UTINYINT \<equiv> (28 :: int)"
abbreviation "DUCKNNG_QUACK_LOGICAL_USMALLINT \<equiv> (29 :: int)"
abbreviation "DUCKNNG_QUACK_LOGICAL_UINTEGER \<equiv> (30 :: int)"
abbreviation "DUCKNNG_QUACK_LOGICAL_UBIGINT \<equiv> (31 :: int)"
abbreviation "DUCKNNG_QUACK_LOGICAL_TIMESTAMP_TZ \<equiv> (32 :: int)"
abbreviation "DUCKNNG_QUACK_LOGICAL_TIME_TZ \<equiv> (34 :: int)"
abbreviation "DUCKNNG_QUACK_LOGICAL_TIME_NS \<equiv> (35 :: int)"
abbreviation "DUCKNNG_QUACK_LOGICAL_UHUGEINT \<equiv> (49 :: int)"
abbreviation "DUCKNNG_QUACK_LOGICAL_HUGEINT \<equiv> (50 :: int)"
abbreviation "DUCKNNG_QUACK_LOGICAL_UUID \<equiv> (54 :: int)"
abbreviation "DUCKNNG_QUACK_LOGICAL_STRUCT \<equiv> (100 :: int)"
abbreviation "DUCKNNG_QUACK_LOGICAL_LIST \<equiv> (101 :: int)"
abbreviation "DUCKNNG_QUACK_LOGICAL_MAP \<equiv> (102 :: int)"
abbreviation "DUCKNNG_QUACK_LOGICAL_ENUM \<equiv> (104 :: int)"
abbreviation "DUCKNNG_QUACK_LOGICAL_UNION \<equiv> (107 :: int)"
abbreviation "DUCKNNG_QUACK_LOGICAL_ARRAY \<equiv> (108 :: int)"

abbreviation "DUCKNNG_QUACK_EXTRA_TYPE_DECIMAL \<equiv> (2 :: u64)"
abbreviation "DUCKNNG_QUACK_EXTRA_TYPE_LIST \<equiv> (4 :: u64)"
abbreviation "DUCKNNG_QUACK_EXTRA_TYPE_STRUCT \<equiv> (5 :: u64)"
abbreviation "DUCKNNG_QUACK_EXTRA_TYPE_ENUM \<equiv> (6 :: u64)"
abbreviation "DUCKNNG_QUACK_EXTRA_TYPE_ARRAY \<equiv> (9 :: u64)"
abbreviation "DUCKNNG_QUACK_MAX_ENUM_VALUES \<equiv> (0x1000000 :: u32)"

text \<open>
  A node of the schema tree. The arrays are lists that hold at least as many elements as their
  counts say; null arrays and null elements are \<open>None\<close>.
\<close>

datatype quack_schema = Schema
  (s_name: cstring)
  (s_logical_type_id: int)
  (s_decimal_width: u8)
  (s_decimal_scale: u8)
  (s_array_size: u32)
  (s_enum_count: u32)
  (s_enum_labels: "cstring list option")
  (s_nchildren: u32)
  (s_children: "quack_schema option list option")
  (s_child_names: "cstring list option")

section \<open>Classification\<close>

definition ducknng_qk_validity_bytes :: "u64 \<Rightarrow> size_t" where
  "ducknng_qk_validity_bytes rows =
     (if rows > UINT64_MAX - 63 then SIZE_MAX else (rows + 63) div 64 * 8)"

definition ducknng_qk_type_is_nested :: "quack_schema option \<Rightarrow> bool" where
  "ducknng_qk_type_is_nested node = (case node of None \<Rightarrow> False
     | Some n \<Rightarrow> s_logical_type_id n \<in> {DUCKNNG_QUACK_LOGICAL_LIST, DUCKNNG_QUACK_LOGICAL_MAP,
         DUCKNNG_QUACK_LOGICAL_STRUCT, DUCKNNG_QUACK_LOGICAL_UNION, DUCKNNG_QUACK_LOGICAL_ARRAY})"

definition ducknng_qk_type_is_varlen :: "quack_schema option \<Rightarrow> bool" where
  "ducknng_qk_type_is_varlen node = (case node of None \<Rightarrow> False
     | Some n \<Rightarrow> s_logical_type_id n = DUCKNNG_QUACK_LOGICAL_VARCHAR \<or>
         s_logical_type_id n = DUCKNNG_QUACK_LOGICAL_CHAR \<or>
         s_logical_type_id n = DUCKNNG_QUACK_LOGICAL_BLOB)"

definition ducknng_qk_type_fixed_width :: "quack_schema option \<Rightarrow> size_t" where
  "ducknng_qk_type_fixed_width node = (case node of None \<Rightarrow> 0 | Some n \<Rightarrow>
     let t = s_logical_type_id n; w = s_decimal_width n in
     if t = DUCKNNG_QUACK_LOGICAL_ENUM
     then (if s_enum_count n \<le> 0xff then 1 else if s_enum_count n \<le> 0xffff then 2 else 4)
     else if t \<in> {DUCKNNG_QUACK_LOGICAL_BOOLEAN, DUCKNNG_QUACK_LOGICAL_TINYINT,
       DUCKNNG_QUACK_LOGICAL_UTINYINT} then 1
     else if t \<in> {DUCKNNG_QUACK_LOGICAL_SMALLINT, DUCKNNG_QUACK_LOGICAL_USMALLINT} then 2
     else if t \<in> {DUCKNNG_QUACK_LOGICAL_INTEGER, DUCKNNG_QUACK_LOGICAL_UINTEGER,
       DUCKNNG_QUACK_LOGICAL_DATE, DUCKNNG_QUACK_LOGICAL_FLOAT} then 4
     else if t \<in> {DUCKNNG_QUACK_LOGICAL_BIGINT, DUCKNNG_QUACK_LOGICAL_UBIGINT,
       DUCKNNG_QUACK_LOGICAL_TIME, DUCKNNG_QUACK_LOGICAL_TIMESTAMP_SEC,
       DUCKNNG_QUACK_LOGICAL_TIMESTAMP_MS, DUCKNNG_QUACK_LOGICAL_TIMESTAMP,
       DUCKNNG_QUACK_LOGICAL_TIMESTAMP_NS, DUCKNNG_QUACK_LOGICAL_TIMESTAMP_TZ,
       DUCKNNG_QUACK_LOGICAL_TIME_TZ, DUCKNNG_QUACK_LOGICAL_TIME_NS,
       DUCKNNG_QUACK_LOGICAL_DOUBLE} then 8
     else if t \<in> {DUCKNNG_QUACK_LOGICAL_INTERVAL, DUCKNNG_QUACK_LOGICAL_HUGEINT,
       DUCKNNG_QUACK_LOGICAL_UHUGEINT, DUCKNNG_QUACK_LOGICAL_UUID} then 16
     else if t = DUCKNNG_QUACK_LOGICAL_DECIMAL
     then (if w \<le> 4 then 2 else if w \<le> 9 then 4 else if w \<le> 18 then 8 else if w \<le> 38 then 16 else 0)
     else 0)"

definition ducknng_qk_type_is_sequence_integer :: "quack_schema option \<Rightarrow> bool" where
  "ducknng_qk_type_is_sequence_integer node = (case node of None \<Rightarrow> False
     | Some n \<Rightarrow> s_logical_type_id n \<in> {DUCKNNG_QUACK_LOGICAL_TINYINT, DUCKNNG_QUACK_LOGICAL_SMALLINT,
         DUCKNNG_QUACK_LOGICAL_INTEGER, DUCKNNG_QUACK_LOGICAL_BIGINT, DUCKNNG_QUACK_LOGICAL_UTINYINT,
         DUCKNNG_QUACK_LOGICAL_USMALLINT, DUCKNNG_QUACK_LOGICAL_UINTEGER,
         DUCKNNG_QUACK_LOGICAL_UBIGINT})"

definition ducknng_qk_type_expected_info_kind :: "int \<Rightarrow> u64" where
  "ducknng_qk_type_expected_info_kind t =
     (if t = DUCKNNG_QUACK_LOGICAL_DECIMAL then DUCKNNG_QUACK_EXTRA_TYPE_DECIMAL
      else if t = DUCKNNG_QUACK_LOGICAL_LIST \<or> t = DUCKNNG_QUACK_LOGICAL_MAP
      then DUCKNNG_QUACK_EXTRA_TYPE_LIST
      else if t = DUCKNNG_QUACK_LOGICAL_STRUCT \<or> t = DUCKNNG_QUACK_LOGICAL_UNION
      then DUCKNNG_QUACK_EXTRA_TYPE_STRUCT
      else if t = DUCKNNG_QUACK_LOGICAL_ENUM then DUCKNNG_QUACK_EXTRA_TYPE_ENUM
      else if t = DUCKNNG_QUACK_LOGICAL_ARRAY then DUCKNNG_QUACK_EXTRA_TYPE_ARRAY
      else UINT64_MAX)"

definition ducknng_qk_type_needs_info :: "quack_schema option \<Rightarrow> bool" where
  "ducknng_qk_type_needs_info node = (case node of None \<Rightarrow> False
     | Some n \<Rightarrow> ducknng_qk_type_expected_info_kind (s_logical_type_id n) \<noteq> UINT64_MAX)"

section \<open>Comparison\<close>

text \<open>\<open>p && p[i] ? p[i] : ""\<close> for an array of strings.\<close>

definition str_at :: "cstring list option \<Rightarrow> nat \<Rightarrow> string" where
  "str_at p i = (case p of None \<Rightarrow> [] | Some xs \<Rightarrow> deref (xs ! i))"

lemma size_child: "c \<in> set (deref (s_children n)) \<Longrightarrow> size_option size c < Suc (size n)"
  by (cases n; cases "s_children n")
    (auto simp: less_Suc_eq_le intro!: trans_le_add1 trans_le_add2 le_SucI
      elim!: size_list_estimation' intro: order_refl)

lemma zip3_mem: "(i, x, y) \<in> set (zip xs (zip ys zs)) \<Longrightarrow> x \<in> set ys \<and> y \<in> set zs"
  by (meson set_zip_leftD set_zip_rightD)

function ducknng_qk_type_equal :: "quack_schema option \<Rightarrow> quack_schema option \<Rightarrow> bool" where
  "ducknng_qk_type_equal (Some a) (Some b) \<longleftrightarrow>
     s_logical_type_id a = s_logical_type_id b \<and>
     s_decimal_width a = s_decimal_width b \<and>
     s_decimal_scale a = s_decimal_scale b \<and>
     s_array_size a = s_array_size b \<and>
     s_enum_count a = s_enum_count b \<and>
     s_nchildren a = s_nchildren b \<and>
     \<not> (s_enum_count a > 0 \<and> s_enum_labels a = None) \<and>
     \<not> (s_enum_count b > 0 \<and> s_enum_labels b = None) \<and>
     list_all (\<lambda>i. str_at (s_enum_labels a) i = str_at (s_enum_labels b) i) [0..<unat (s_enum_count a)] \<and>
     \<not> (s_nchildren a > 0 \<and> s_children a = None) \<and>
     \<not> (s_nchildren b > 0 \<and> s_children b = None) \<and>
     list_all (\<lambda>(i, ca, cb). str_at (s_child_names a) i = str_at (s_child_names b) i \<and>
         ducknng_qk_type_equal ca cb)
       (zip [0..<unat (s_nchildren a)] (zip (deref (s_children a)) (deref (s_children b))))"
| "ducknng_qk_type_equal None b = False"
| "ducknng_qk_type_equal (Some a) None = False"
  by pat_completeness auto
termination
  by (relation "measure (\<lambda>(a, b). size_option size a)")
    (auto dest: zip3_mem intro: size_child)

section \<open>Shape validation\<close>

text \<open>\<open>Some msg\<close> is the return code \<open>-1\<close> with that error text, \<open>None\<close> success.\<close>

definition child_at :: "quack_schema \<Rightarrow> nat \<Rightarrow> quack_schema option" where
  "child_at n i = (case s_children n of None \<Rightarrow> None | Some cs \<Rightarrow> cs ! i)"

definition ducknng_qk_type_shape_validate :: "quack_schema option \<Rightarrow> cstring" where
  "ducknng_qk_type_shape_validate node = (case node of
     None \<Rightarrow> Some ''ducknng: missing quack logical type''
   | Some n \<Rightarrow>
     let t = s_logical_type_id n;
         members = (if list_ex (\<lambda>i. child_at n i = None \<or> (deref (s_child_names n)) ! i = None)
                       [0..<unat (s_nchildren n)]
                    then Some ''ducknng: quack struct/union type has an incomplete member'' else None)
     in
     if t = DUCKNNG_QUACK_LOGICAL_DECIMAL then
       (if s_decimal_width n = 0 \<or> s_decimal_width n > 38 \<or> s_decimal_scale n > s_decimal_width n
        then Some ''ducknng: quack decimal type has invalid width or scale'' else None)
     else if t = DUCKNNG_QUACK_LOGICAL_LIST then
       (if s_nchildren n \<noteq> 1 \<or> s_children n = None \<or> child_at n 0 = None
        then Some ''ducknng: quack list type is missing its child'' else None)
     else if t = DUCKNNG_QUACK_LOGICAL_MAP then
       (if s_nchildren n \<noteq> 1 \<or> s_children n = None then Some ''ducknng: malformed quack map type''
        else case child_at n 0 of
          None \<Rightarrow> Some ''ducknng: malformed quack map type''
        | Some e \<Rightarrow>
            if s_logical_type_id e \<noteq> DUCKNNG_QUACK_LOGICAL_STRUCT \<or> s_nchildren e \<noteq> 2 \<or>
               s_children e = None \<or> child_at e 0 = None \<or> child_at e 1 = None
            then Some ''ducknng: malformed quack map type'' else None)
     else if t = DUCKNNG_QUACK_LOGICAL_STRUCT then
       (if s_nchildren n = 0 \<or> s_children n = None \<or> s_child_names n = None
        then Some ''ducknng: quack struct type is missing its members'' else members)
     else if t = DUCKNNG_QUACK_LOGICAL_UNION then
       (if s_nchildren n < 2 \<or> s_children n = None \<or> s_child_names n = None
        then Some ''ducknng: quack union type is missing its tag or members''
        else case child_at n 0 of
          None \<Rightarrow> Some ''ducknng: quack union type is missing its tag or members''
        | Some tag \<Rightarrow>
            if s_logical_type_id tag \<noteq> DUCKNNG_QUACK_LOGICAL_UTINYINT
            then Some ''ducknng: quack union type is missing its tag or members'' else members)
     else if t = DUCKNNG_QUACK_LOGICAL_ENUM then
       (if s_enum_count n > DUCKNNG_QUACK_MAX_ENUM_VALUES \<or>
           (s_enum_count n > 0 \<and> s_enum_labels n = None)
        then Some ''ducknng: quack enum type is missing its dictionary''
        else if list_ex (\<lambda>i. deref (s_enum_labels n) ! i = None) [0..<unat (s_enum_count n)]
        then Some ''ducknng: quack enum type has a missing label'' else None)
     else if t = DUCKNNG_QUACK_LOGICAL_ARRAY then
       (if s_array_size n = 0 \<or> s_nchildren n \<noteq> 1 \<or> s_children n = None \<or> child_at n 0 = None
        then Some ''ducknng: quack array type is missing its child or size'' else None)
     else (if \<not> ducknng_qk_type_is_varlen node \<and> ducknng_qk_type_fixed_width node = 0
           then Some ''ducknng: quack payload uses an unsupported logical type'' else None))"

section \<open>The comparison is structural equality\<close>

text \<open>
  Trees whose arrays have the announced lengths and which have no null child. The canonical form of
  such a tree forgets the column name and reads a null label or member name as the empty string.
\<close>

fun wf_schema :: "quack_schema \<Rightarrow> bool" where
  "wf_schema (Schema nm t w sc sz ec ls nc cs ns) \<longleftrightarrow>
     length (deref ls) = unat ec \<and> length (deref cs) = unat nc \<and>
     (case cs of None \<Rightarrow> True | Some xs \<Rightarrow>
       list_all (\<lambda>c. case c of None \<Rightarrow> False | Some x \<Rightarrow> wf_schema x) xs)"

datatype canon = Canon int u8 u8 u32 "string list" "(string \<times> canon) list"

fun canon_of :: "quack_schema \<Rightarrow> canon" where
  "canon_of (Schema nm t w sc sz ec ls nc cs ns) =
     Canon t w sc sz (map deref (deref ls))
       (case cs of None \<Rightarrow> [] | Some xs \<Rightarrow>
         zip (map (str_at ns) [0..<length xs])
           (map (\<lambda>c. case c of None \<Rightarrow> Canon 0 0 0 0 [] [] | Some x \<Rightarrow> canon_of x) xs))"

definition canon_child :: "quack_schema option \<Rightarrow> canon" where
  "canon_child c = (case c of None \<Rightarrow> Canon 0 0 0 0 [] [] | Some x \<Rightarrow> canon_of x)"

lemma canon_of_fields:
  "canon_of a = Canon (s_logical_type_id a) (s_decimal_width a) (s_decimal_scale a) (s_array_size a)
     (map deref (deref (s_enum_labels a)))
     (zip (map (str_at (s_child_names a)) [0..<length (deref (s_children a))])
        (map canon_child (deref (s_children a))))"
  by (cases a) (auto simp: canon_child_def [abs_def] split: option.splits)

lemma wf_fields:
  assumes "wf_schema a"
  shows "length (deref (s_enum_labels a)) = unat (s_enum_count a)"
    "length (deref (s_children a)) = unat (s_nchildren a)"
    "c \<in> set (deref (s_children a)) \<Longrightarrow> \<exists>x. c = Some x \<and> wf_schema x \<and> size x < size a"
proof -
  show "length (deref (s_enum_labels a)) = unat (s_enum_count a)"
    "length (deref (s_children a)) = unat (s_nchildren a)"
    using assms by (cases a; simp)+
  assume c: "c \<in> set (deref (s_children a))"
  then obtain x where "c = Some x" "wf_schema x"
    using assms by (cases a; cases "s_children a") (auto simp: list_all_iff split: option.splits)
  with size_child [OF c] show "\<exists>x. c = Some x \<and> wf_schema x \<and> size x < size a" by auto
qed

lemma labels_eq:
  assumes "length (deref la) = n" "length (deref lb) = n"
  shows "list_all (\<lambda>i. str_at la i = str_at lb i) [0..<n] \<longleftrightarrow> map deref (deref la) = map deref (deref lb)"
proof -
  have "map deref (deref la) = map deref (deref lb) \<longleftrightarrow> (\<forall>i < n. deref (deref la ! i) = deref (deref lb ! i))"
    using assms list_eq_iff_nth_eq [of "map deref (deref la)" "map deref (deref lb)"] by simp
  moreover have "i < n \<Longrightarrow> str_at la i = deref (deref la ! i)" "i < n \<Longrightarrow> str_at lb i = deref (deref lb ! i)" for i
    using assms by (cases la; cases lb; simp add: str_at_def)+
  ultimately show ?thesis by (simp add: list_all_iff Ball_def)
qed

lemma zip_eq_iff:
  assumes "length xs = length fs" "length ys = length gs" "length xs = length ys"
  shows "zip fs xs = zip gs ys \<longleftrightarrow> fs = gs \<and> xs = ys"
  using assms by (metis map_fst_zip map_snd_zip)

lemma members_eq:
  assumes "length xs = n" "length ys = n"
    and "\<And>i. i < n \<Longrightarrow> P (xs ! i) (ys ! i) \<longleftrightarrow> f (xs ! i) = f (ys ! i)"
  shows "list_all (\<lambda>(i, x, y). s i = t i \<and> P x y) (zip [0..<n] (zip xs ys)) \<longleftrightarrow>
    zip (map s [0..<n]) (map f xs) = zip (map t [0..<n]) (map f ys)"
proof -
  have "zip (map s [0..<n]) (map f xs) = zip (map t [0..<n]) (map f ys) \<longleftrightarrow>
      (\<forall>i < n. s i = t i) \<and> map f xs = map f ys"
    using assms(1,2) by (subst zip_eq_iff) (simp_all add: Ball_def)
  also have "map f xs = map f ys \<longleftrightarrow> (\<forall>i < n. f (xs ! i) = f (ys ! i))"
    using assms(1,2) list_eq_iff_nth_eq [of "map f xs" "map f ys"] by simp
  finally show ?thesis
    using assms by (simp add: list_all_length) blast
qed

lemma null_count: "length (deref p) = unat n \<Longrightarrow> n > 0 \<Longrightarrow> p \<noteq> None"
  by (cases p) (auto simp: word_less_nat_alt)

lemma type_equal_canon:
  "wf_schema a \<Longrightarrow> wf_schema b \<Longrightarrow>
     ducknng_qk_type_equal (Some a) (Some b) \<longleftrightarrow> canon_of a = canon_of b"
proof (induction "size a" arbitrary: a b rule: less_induct)
  case less
  note wa = wf_fields [OF less.prems(1)] and wb = wf_fields [OF less.prems(2)]
  let ?xs = "deref (s_children a)" and ?ys = "deref (s_children b)"
  show ?case
  proof (cases "s_enum_count a = s_enum_count b \<and> s_nchildren a = s_nchildren b")
    case False
    then have "length (deref (s_enum_labels a)) \<noteq> length (deref (s_enum_labels b)) \<or> length ?xs \<noteq> length ?ys"
      using wa(1,2) wb(1,2) by (auto simp: word_unat_eq_iff)
    then have "canon_of a \<noteq> canon_of b"
      unfolding canon_of_fields
      by (auto dest!: map_eq_imp_length_eq arg_cong [of "zip _ _" _ length])
    with False show ?thesis by auto
  next
    case True
    have el: "ducknng_qk_type_equal (?xs ! i) (?ys ! i) \<longleftrightarrow> canon_child (?xs ! i) = canon_child (?ys ! i)"
      if i: "i < unat (s_nchildren a)" for i
    proof -
      obtain x where x: "?xs ! i = Some x" "wf_schema x" "size x < size a"
        using wa(2) wa(3) [of "?xs ! i"] i by auto
      obtain y where y: "?ys ! i = Some y" "wf_schema y"
        using wb(2) wb(3) [of "?ys ! i"] i True by auto
      show ?thesis using less.hyps [OF x(3,2) y(2)] x(1) y(1) by (simp add: canon_child_def)
    qed
    have "s_enum_count a > 0 \<longrightarrow> s_enum_labels a \<noteq> None" "s_enum_count b > 0 \<longrightarrow> s_enum_labels b \<noteq> None"
        "s_nchildren a > 0 \<longrightarrow> s_children a \<noteq> None" "s_nchildren b > 0 \<longrightarrow> s_children b \<noteq> None"
      using null_count wa(1,2) wb(1,2) by blast+
    then show ?thesis
      using labels_eq [of "s_enum_labels a" "unat (s_enum_count a)" "s_enum_labels b"]
        members_eq [of ?xs "unat (s_nchildren a)" ?ys ducknng_qk_type_equal canon_child
          "str_at (s_child_names a)" "str_at (s_child_names b)", OF _ _ el] wa(1,2) wb(1,2) True
      unfolding ducknng_qk_type_equal.simps canon_of_fields by auto
  qed
qed

section \<open>Exactly one representation\<close>

text \<open>The type identifiers by representation; decimals and enums depend on their parameters.\<close>

definition supported :: "quack_schema \<Rightarrow> bool" where
  "supported n \<longleftrightarrow> ducknng_qk_type_is_nested (Some n) \<or> ducknng_qk_type_is_varlen (Some n) \<or>
     ducknng_qk_type_fixed_width (Some n) > 0"

lemma fixed_width_disjoint:
  "ducknng_qk_type_is_nested (Some n) \<Longrightarrow> ducknng_qk_type_fixed_width (Some n) = 0"
  "ducknng_qk_type_is_varlen (Some n) \<Longrightarrow> ducknng_qk_type_fixed_width (Some n) = 0"
  "ducknng_qk_type_is_nested (Some n) \<Longrightarrow> \<not> ducknng_qk_type_is_varlen (Some n)"
  unfolding ducknng_qk_type_is_nested_def ducknng_qk_type_is_varlen_def ducknng_qk_type_fixed_width_def
    option.case Let_def
  by (elim insertE emptyE disjE; simp)+

lemma one_path:
  "supported n \<Longrightarrow> of_bool (ducknng_qk_type_is_nested (Some n)) + of_bool (ducknng_qk_type_is_varlen (Some n)) +
     of_bool (ducknng_qk_type_fixed_width (Some n) > 0) = (1 :: nat)"
  using fixed_width_disjoint [of n] by (auto simp: supported_def)

lemma validated_supported:
  assumes "ducknng_qk_type_shape_validate (Some n) = None"
  shows "supported n"
proof -
  let ?t = "s_logical_type_id n"
  consider "?t = DUCKNNG_QUACK_LOGICAL_DECIMAL" | "?t = DUCKNNG_QUACK_LOGICAL_ENUM"
    | "ducknng_qk_type_is_nested (Some n)"
    | "?t \<notin> {DUCKNNG_QUACK_LOGICAL_DECIMAL, DUCKNNG_QUACK_LOGICAL_ENUM, DUCKNNG_QUACK_LOGICAL_LIST,
        DUCKNNG_QUACK_LOGICAL_MAP, DUCKNNG_QUACK_LOGICAL_STRUCT, DUCKNNG_QUACK_LOGICAL_UNION,
        DUCKNNG_QUACK_LOGICAL_ARRAY}"
    by (auto simp: ducknng_qk_type_is_nested_def)
  then show ?thesis
  proof cases
    case 1
    then have "s_decimal_width n \<le> 38"
      using assms by (auto simp: ducknng_qk_type_shape_validate_def not_less split: if_splits)
    with 1 show ?thesis by (simp add: supported_def ducknng_qk_type_fixed_width_def Let_def)
  next
    case 2
    then show ?thesis by (simp add: supported_def ducknng_qk_type_fixed_width_def)
  next
    case 3
    then show ?thesis by (simp add: supported_def)
  next
    case 4
    then show ?thesis
      using assms unfolding ducknng_qk_type_shape_validate_def option.case Let_def
      by (simp add: supported_def word_neq_0_conv [symmetric] split: if_splits)
  qed
qed

lemma validity_bytes_exact:
  assumes "unat rows \<le> 2 ^ 64 - 64"
  shows "unat (ducknng_qk_validity_bytes rows) = 8 * ((unat rows + 63) div 64)"
proof -
  have "\<not> rows > UINT64_MAX - 63" using assms by (simp add: word_less_nat_alt)
  moreover have u: "unat (rows + 63) = unat rows + 63" using assms by (subst unat_add_no_overflow) simp_all
  then have "unat ((rows + 63) div 64) = (unat rows + 63) div 64" by (simp add: unat_div)
  moreover have "(unat rows + 63) div 64 * 8 < 2 ^ 64" using assms by simp
  ultimately show ?thesis
    by (simp add: ducknng_qk_validity_bytes_def unat_mult_no_overflow)
qed

section \<open>Properties\<close>

text \<open>
  C18. The type comparison is structural equality. On well-formed schema trees it holds exactly when
  the canonical forms (all type parameters, labels, member names and members, in order) are equal;
  so it is an equivalence relation, whatever the nesting.
\<close>

theorem type_equal_structural:
  assumes "wf_schema a" "wf_schema b" "wf_schema c"
  shows "(ducknng_qk_type_equal (Some a) (Some b) \<longleftrightarrow> canon_of a = canon_of b) \<and>
    ducknng_qk_type_equal (Some a) (Some a) \<and>
    (ducknng_qk_type_equal (Some a) (Some b) \<longrightarrow> ducknng_qk_type_equal (Some b) (Some a)) \<and>
    (ducknng_qk_type_equal (Some a) (Some b) \<longrightarrow> ducknng_qk_type_equal (Some b) (Some c) \<longrightarrow>
       ducknng_qk_type_equal (Some a) (Some c))"
  using assms by (simp add: type_equal_canon del: ducknng_qk_type_equal.simps)

theorem type_equal_structural_witness:
  "ducknng_qk_type_equal
     (Some (Schema None 101 0 0 0 0 None 1 (Some [Some (Schema None 13 0 0 0 0 None 0 None None)]) None))
     (Some (Schema (Some ''c'') 101 0 0 0 0 None 1
        (Some [Some (Schema None 13 0 0 0 0 None 0 None None)]) (Some [None])))"
  using type_equal_structural
    [of "Schema None 101 0 0 0 0 None 1 (Some [Some (Schema None 13 0 0 0 0 None 0 None None)]) None"
      "Schema (Some ''c'') 101 0 0 0 0 None 1
        (Some [Some (Schema None 13 0 0 0 0 None 0 None None)]) (Some [None])"
      "Schema None 13 0 0 0 0 None 0 None None"]
  by (simp add: str_at_def del: ducknng_qk_type_equal.simps)



end
