(* ===== verification/HttpStream.thy ===== *)
theory HttpStream
  imports Checked Interfaces
begin

text \<open>
  The streaming HTTP client (\<open>ducknng_http_client_stream.c\<close>): the opening handshake, the choice of
  the body framing, and the decoder that turns raw connection reads into body bytes for receives of
  bounded size.

  The state is the C struct without the NNG handles. The unread part
  \<open>raw_buf[raw_pos .. raw_len)\<close> is the list \<open>hs_raw\<close>, so \<open>raw_pos = raw_len\<close> is \<open>hs_raw = []\<close>; the
  text \<open>line_buf[0 .. line_len)\<close> is the list \<open>hs_line\<close>. The line never holds a NUL, since control
  characters are rejected. An output buffer with its length is the list of the bytes in it.

  The main result: the decoder is a refinement of a machine that consumes one byte at a time, so
  its output does not depend on how the connection splits the bytes nor on the sizes of the receives.
\<close>

section \<open>State\<close>

abbreviation DUCKNNG_HTTP_STREAM_READ_BUFFER_SIZE :: nat where
  "DUCKNNG_HTTP_STREAM_READ_BUFFER_SIZE \<equiv> 8192"
abbreviation DUCKNNG_HTTP_STREAM_LINE_MAX :: nat where
  "DUCKNNG_HTTP_STREAM_LINE_MAX \<equiv> 8192"
abbreviation DUCKNNG_HTTP_STREAM_MAX_RECV_BYTES :: nat where
  "DUCKNNG_HTTP_STREAM_MAX_RECV_BYTES \<equiv> 67108864"

datatype http_stream_action = ACTION_NONE | ACTION_CONNECT | ACTION_WRITE_REQUEST
  | ACTION_READ_HEADERS | ACTION_READ_BODY
datatype http_stream_open_phase = OPEN_CONNECT | OPEN_WRITE_REQUEST | OPEN_READ_HEADERS | OPEN_DONE
datatype http_stream_body_mode = BODY_NONE | BODY_CONTENT_LENGTH | BODY_CHUNKED | BODY_UNTIL_CLOSE
datatype http_stream_chunk_state = CHUNK_SIZE | CHUNK_DATA | CHUNK_DATA_CRLF | CHUNK_TRAILERS

record http_stream =
  hs_status :: u16
  hs_headers_json :: cstring
  hs_content_remaining :: u64
  hs_chunk_remaining :: u64
  hs_raw :: bytes
  hs_line :: bytes
  hs_data_crlf_pos :: nat
  hs_line_saw_cr :: bool
  hs_open_phase :: http_stream_open_phase
  hs_body_mode :: http_stream_body_mode
  hs_chunk_state :: http_stream_chunk_state
  hs_open :: bool
  hs_eof :: bool
  hs_failed :: bool
  hs_closing :: bool

section \<open>Header values\<close>

definition blank :: "char \<Rightarrow> bool" where
  "blank c \<longleftrightarrow> c = CHR '' '' \<or> code c = 9"

text \<open>One round of the scan: the next comma-separated token, trimmed, and what follows its comma.\<close>

definition next_token :: "string \<Rightarrow> string \<times> string" where
  "next_token p =
     (let p = dropWhile (\<lambda>c. blank c \<or> c = CHR '','') p;
          token = rev (dropWhile blank (rev (takeWhile (\<lambda>c. c \<noteq> CHR '','') p)));
          p = dropWhile (\<lambda>c. c \<noteq> CHR '','') p
      in (token, case p of [] \<Rightarrow> [] | _ # r \<Rightarrow> r))"

lemma after_comma_shorter:
  "length q \<le> length p \<Longrightarrow> p \<noteq> [] \<Longrightarrow> length (case q of [] \<Rightarrow> [] | _ # r \<Rightarrow> r) < length p"
  by (cases q) auto

lemma next_token_shorter: "p \<noteq> [] \<Longrightarrow> length (snd (next_token p)) < length p"
  unfolding next_token_def Let_def snd_conv
  by (intro after_comma_shorter order_trans [OF length_dropWhile_le length_dropWhile_le])

function ends_with_token_loop :: "string \<Rightarrow> string \<Rightarrow> bool \<Rightarrow> bool \<Rightarrow> bool" where
  "ends_with_token_loop wanted p saw_token last_matches =
     (if p = [] then saw_token \<and> last_matches
      else
        let (token, rest) = next_token p
        in if token = [] then ends_with_token_loop wanted rest saw_token last_matches
           else ends_with_token_loop wanted rest True
             (length token = length wanted \<and> map ascii_lower token = map ascii_lower wanted))"
  by pat_completeness auto
termination
  by (relation "measure (\<lambda>(w, p, s, l). length p)") (simp_all, (metis next_token_shorter snd_conv)+)

declare ends_with_token_loop.simps [simp del]

definition ducknng_http_stream_header_ends_with_token :: "cstring \<Rightarrow> string \<Rightarrow> bool" where
  "ducknng_http_stream_header_ends_with_token val wanted =
     (case val of None \<Rightarrow> False
      | Some v \<Rightarrow> wanted \<noteq> [] \<and> ends_with_token_loop wanted v False False)"

text \<open>The decimal value, \<open>Inl\<close> the error text.\<close>

fun content_length_loop :: "string \<Rightarrow> u64 \<Rightarrow> string + u64" where
  "content_length_loop [] parsed = Inr parsed"
| "content_length_loop (c # p) parsed =
     (if code c < 48 \<or> code c > 57
      then Inl ''ducknng: invalid Content-Length in streaming HTTP response''
      else let digit = of_nat (code c - 48) :: u64 in
        if parsed > (UINT64_MAX - digit) div 10
        then Inl ''ducknng: Content-Length overflows the streaming HTTP response counter''
        else content_length_loop p (parsed * 10 + digit))"

definition ducknng_http_stream_parse_content_length :: "cstring \<Rightarrow> string + u64" where
  "ducknng_http_stream_parse_content_length val =
     (if \<not> nonempty val then Inl ''ducknng: empty Content-Length in streaming HTTP response''
      else content_length_loop (deref val) 0)"

fun ascii_equal :: "string \<Rightarrow> string \<Rightarrow> bool" where
  "ascii_equal (a # as) (b # bs) = (ascii_lower a = ascii_lower b \<and> ascii_equal as bs)"
| "ascii_equal as bs = (as = [] \<and> bs = [])"

definition ducknng_http_stream_ascii_equal :: "cstring \<Rightarrow> cstring \<Rightarrow> bool" where
  "ducknng_http_stream_ascii_equal a b =
     (case (a, b) of (Some s, Some t) \<Rightarrow> ascii_equal s t | _ \<Rightarrow> False)"

text \<open>The request method is what \<open>nng_http_req_get_method\<close> returns.\<close>

definition ducknng_http_stream_response_has_no_body :: "http_stream \<Rightarrow> cstring \<Rightarrow> bool" where
  "ducknng_http_stream_response_has_no_body s meth \<longleftrightarrow>
     ducknng_http_stream_ascii_equal meth (Some ''HEAD'') \<or>
     (hs_status s \<ge> 100 \<and> hs_status s < 200) \<or>
     hs_status s = 204 \<or> hs_status s = 205 \<or> hs_status s = 304"

text \<open>
  What the response offers: its status, the copied headers (or the error of the copy), and the two
  framing headers, as NNG returns them.
\<close>

record http_response =
  resp_status :: u16
  resp_headers :: "string + cstring"
  resp_transfer_encoding :: cstring
  resp_content_length :: cstring

definition ducknng_http_stream_configure_body ::
  "http_stream \<Rightarrow> cstring \<Rightarrow> http_response \<Rightarrow> string option \<times> http_stream" where
  "ducknng_http_stream_configure_body s meth res =
     (let s = s\<lparr>hs_status := resp_status res\<rparr> in
      case resp_headers res of
        Inl err \<Rightarrow> (Some err, s)
      | Inr headers \<Rightarrow>
          let s = s\<lparr>hs_headers_json := headers\<rparr> in
          if ducknng_http_stream_response_has_no_body s meth
          then (None, s\<lparr>hs_body_mode := BODY_NONE, hs_eof := True\<rparr>)
          else if nonempty (resp_transfer_encoding res)
          then (if \<not> ducknng_http_stream_header_ends_with_token (resp_transfer_encoding res) ''chunked''
                then (Some ''ducknng: unsupported Transfer-Encoding in streaming HTTP response'', s)
                else (None, s\<lparr>hs_body_mode := BODY_CHUNKED, hs_chunk_state := CHUNK_SIZE\<rparr>))
          else if resp_content_length res \<noteq> None
          then (case ducknng_http_stream_parse_content_length (resp_content_length res) of
                  Inl err \<Rightarrow> (Some err, s\<lparr>hs_content_remaining := 0\<rparr>)
                | Inr n \<Rightarrow>
                    let s = s\<lparr>hs_content_remaining := n, hs_body_mode := BODY_CONTENT_LENGTH\<rparr>
                    in (None, if n = 0 then s\<lparr>hs_eof := True\<rparr> else s))
          else (None, s\<lparr>hs_body_mode := BODY_UNTIL_CLOSE\<rparr>))"

section \<open>Opening\<close>

text \<open>
  The stream that \<open>ducknng_http_client_stream_prepare\<close> returns: all zero apart from the phase. The
  zeroed chunk state and body mode are the ones before configuration and are set before use.
\<close>

definition ducknng_http_client_stream_prepare :: http_stream where
  "ducknng_http_client_stream_prepare = \<lparr> hs_status = 0, hs_headers_json = None,
     hs_content_remaining = 0, hs_chunk_remaining = 0, hs_raw = [], hs_line = [],
     hs_data_crlf_pos = 0, hs_line_saw_cr = False, hs_open_phase = OPEN_CONNECT,
     hs_body_mode = BODY_NONE, hs_chunk_state = CHUNK_SIZE, hs_open = False, hs_eof = False,
     hs_failed = False, hs_closing = False \<rparr>"

text \<open>
  One completed operation of the opening phase: its result code and text, whether a connect delivered
  a connection, and the response once headers are read. The result is the return code, the next
  action, the error text and the stream.
\<close>

definition ducknng_http_client_stream_open_advance ::
  "http_stream \<Rightarrow> int \<Rightarrow> string \<Rightarrow> bool \<Rightarrow> cstring \<Rightarrow> http_response
     \<Rightarrow> int \<times> http_stream_action \<times> cstring \<times> http_stream" where
  "ducknng_http_client_stream_open_advance s aio_result aio_error got_conn meth res =
     (if aio_result \<noteq> 0 then (-1, ACTION_NONE, Some aio_error, s\<lparr>hs_failed := True\<rparr>)
      else case hs_open_phase s of
        OPEN_CONNECT \<Rightarrow>
          if \<not> got_conn
          then (-1, ACTION_NONE, Some ''ducknng: HTTP stream connect returned no connection'',
                s\<lparr>hs_failed := True\<rparr>)
          else (0, ACTION_WRITE_REQUEST, None, s\<lparr>hs_open_phase := OPEN_WRITE_REQUEST\<rparr>)
      | OPEN_WRITE_REQUEST \<Rightarrow> (0, ACTION_READ_HEADERS, None, s\<lparr>hs_open_phase := OPEN_READ_HEADERS\<rparr>)
      | OPEN_READ_HEADERS \<Rightarrow>
          (case ducknng_http_stream_configure_body s meth res of
             (Some err, s) \<Rightarrow> (-1, ACTION_NONE, Some err, s\<lparr>hs_failed := True\<rparr>)
           | (None, s) \<Rightarrow> (1, ACTION_NONE, None, s\<lparr>hs_open_phase := OPEN_DONE, hs_open := True\<rparr>))
      | OPEN_DONE \<Rightarrow> (-1, ACTION_NONE, Some ''ducknng: invalid streaming HTTP open phase'',
                    s\<lparr>hs_failed := True\<rparr>))"

section \<open>Decoding\<close>

text \<open>The line reader: \<open>Inr complete\<close> with the unread bytes, the line and the pending CR.\<close>

fun read_line_loop :: "bytes \<Rightarrow> bytes \<Rightarrow> bool \<Rightarrow> (string + bool) \<times> bytes \<times> bytes \<times> bool" where
  "read_line_loop [] line saw_cr = (Inr False, [], line, saw_cr)"
| "read_line_loop (c # raw) line saw_cr =
     (if saw_cr then
        (if c \<noteq> 10 then (Inl ''ducknng: malformed chunked HTTP line ending'', raw, line, False)
         else (Inr True, raw, line, False))
      else if c = 13 then read_line_loop raw line True
      else if c = 10 then (Inl ''ducknng: malformed chunked HTTP line ending'', raw, line, False)
      else if (c < 0x20 \<and> c \<noteq> 9) \<or> c = 0x7f
      then (Inl ''ducknng: control character in chunked HTTP framing'', raw, line, False)
      else if length line \<ge> DUCKNNG_HTTP_STREAM_LINE_MAX
      then (Inl ''ducknng: chunked HTTP size or trailer line is too long'', raw, line, False)
      else read_line_loop raw (line @ [c]) False)"

definition ducknng_http_stream_read_line :: "http_stream \<Rightarrow> (string + bool) \<times> http_stream" where
  "ducknng_http_stream_read_line s =
     (case read_line_loop (hs_raw s) (hs_line s) (hs_line_saw_cr s) of
        (r, raw, line, saw_cr) \<Rightarrow> (r, s\<lparr>hs_raw := raw, hs_line := line, hs_line_saw_cr := saw_cr\<rparr>))"

definition hex_digit :: "u8 \<Rightarrow> nat option" where
  "hex_digit c = (let n = unat c in
     if 48 \<le> n \<and> n \<le> 57 then Some (n - 48)
     else if 97 \<le> n \<and> n \<le> 102 then Some (n - 97 + 10)
     else if 65 \<le> n \<and> n \<le> 70 then Some (n - 65 + 10) else None)"

fun chunk_size_loop :: "bytes \<Rightarrow> u64 \<Rightarrow> nat \<Rightarrow> string + u64 \<times> nat" where
  "chunk_size_loop [] n digits = Inr (n, digits)"
| "chunk_size_loop (c # p) n digits =
     (if c = 59 then Inr (n, digits)
      else case hex_digit c of
        None \<Rightarrow> Inl ''ducknng: invalid chunk size in streaming HTTP response''
      | Some d \<Rightarrow> let digit = of_nat d :: u64 in
          if n > (UINT64_MAX - digit) div 16
          then Inl ''ducknng: chunk size overflows the streaming HTTP response counter''
          else chunk_size_loop p (n * 16 + digit) (digits + 1))"

definition ducknng_http_stream_parse_chunk_size :: "http_stream \<Rightarrow> string + http_stream" where
  "ducknng_http_stream_parse_chunk_size s =
     (case chunk_size_loop (hs_line s) 0 0 of
        Inl err \<Rightarrow> Inl err
      | Inr (n, digits) \<Rightarrow>
          if digits = 0 then Inl ''ducknng: empty chunk size in streaming HTTP response''
          else Inr (s\<lparr>hs_chunk_remaining := n, hs_line := [],
                 hs_chunk_state := (if n = 0 then CHUNK_TRAILERS else CHUNK_DATA)\<rparr>))"

definition ducknng_http_stream_min3 :: "nat \<Rightarrow> nat \<Rightarrow> u64 \<Rightarrow> nat" where
  "ducknng_http_stream_min3 a b c =
     (let n = (if a < b then a else b) in if unat c < n then unat c else n)"

fun crlf_loop :: "bytes \<Rightarrow> nat \<Rightarrow> bool \<times> bytes \<times> nat" where
  "crlf_loop [] pos = (True, [], pos)"
| "crlf_loop (c # raw) pos =
     (if pos < 2 then (if c \<noteq> (if pos = 0 then 13 else 10) then (False, raw, pos + 1)
                       else crlf_loop raw (pos + 1))
      else (True, c # raw, pos))"

text \<open>
  The result of one run of the decoder: \<open>Inl\<close> an error text, \<open>Inr (rc, eof)\<close> the return code 0 (more
  input needed) or 1 (receive complete) with \<open>*out_eof\<close>; then the stream and the output.
\<close>

type_synonym process_result = "(string + int \<times> bool) \<times> http_stream \<times> bytes"

text \<open>
  The loop of the chunked decoder. With a capacity of zero it can spin for ever on a non-empty chunk,
  so it is a partial function; the receive entry points exclude that capacity.
\<close>

partial_function (option) process_chunked ::
    "http_stream \<Rightarrow> bytes \<Rightarrow> nat \<Rightarrow> process_result option" where
  [code]: "process_chunked s out cap =
     (case hs_chunk_state s of
        CHUNK_SIZE \<Rightarrow>
          (case ducknng_http_stream_read_line s of
             (Inl err, s) \<Rightarrow> Some (Inl err, s, out)
           | (Inr complete, s) \<Rightarrow>
               if \<not> complete then Some (Inr (0, False), s, out)
               else (case ducknng_http_stream_parse_chunk_size s of
                 Inl err \<Rightarrow> Some (Inl err, s, out)
               | Inr s \<Rightarrow> process_chunked s out cap))
      | CHUNK_DATA \<Rightarrow>
          (let n = ducknng_http_stream_min3 (length (hs_raw s)) (cap - length out) (hs_chunk_remaining s);
               out = out @ take n (hs_raw s);
               s = s\<lparr>hs_raw := drop n (hs_raw s), hs_chunk_remaining := hs_chunk_remaining s - of_nat n\<rparr>;
               s = (if hs_chunk_remaining s = 0
                    then s\<lparr>hs_chunk_state := CHUNK_DATA_CRLF, hs_data_crlf_pos := 0\<rparr> else s)
           in if length out > 0 then Some (Inr (1, False), s, out)
              else if hs_raw s = [] then Some (Inr (0, False), s, out)
              else process_chunked s out cap)
      | CHUNK_DATA_CRLF \<Rightarrow>
          (case crlf_loop (hs_raw s) (hs_data_crlf_pos s) of
             (ok, raw, pos) \<Rightarrow>
               let s = s\<lparr>hs_raw := raw, hs_data_crlf_pos := pos\<rparr> in
               if \<not> ok
               then Some (Inl ''ducknng: malformed chunk data terminator in streaming HTTP response'', s, out)
               else if pos < 2 then Some (Inr (0, False), s, out)
               else process_chunked (s\<lparr>hs_chunk_state := CHUNK_SIZE\<rparr>) out cap)
      | CHUNK_TRAILERS \<Rightarrow>
          (case ducknng_http_stream_read_line s of
             (Inl err, s) \<Rightarrow> Some (Inl err, s, out)
           | (Inr complete, s) \<Rightarrow>
               if \<not> complete then Some (Inr (0, False), s, out)
               else if hs_line s = [] then Some (Inr (1, True), s\<lparr>hs_eof := True\<rparr>, out)
               else process_chunked (s\<lparr>hs_line := []\<rparr>) out cap))"

definition ducknng_http_stream_process :: "http_stream \<Rightarrow> bytes \<Rightarrow> nat \<Rightarrow> process_result option" where
  "ducknng_http_stream_process s out cap =
     (if hs_eof s then Some (Inr (1, True), s, out)
      else case hs_body_mode s of
        BODY_CONTENT_LENGTH \<Rightarrow>
          (let n = ducknng_http_stream_min3 (length (hs_raw s)) (cap - length out) (hs_content_remaining s);
               out = out @ take n (hs_raw s);
               s = s\<lparr>hs_raw := drop n (hs_raw s), hs_content_remaining := hs_content_remaining s - of_nat n\<rparr>;
               s = (if hs_content_remaining s = 0 then s\<lparr>hs_eof := True\<rparr> else s)
           in if length out > 0 then Some (Inr (1, False), s, out)
              else if hs_eof s then Some (Inr (1, True), s, out)
              else Some (Inr (0, False), s, out))
      | BODY_UNTIL_CLOSE \<Rightarrow>
          (let n = min (length (hs_raw s)) (cap - length out)
           in if n > 0
              then Some (Inr (1, False), s\<lparr>hs_raw := drop n (hs_raw s)\<rparr>, out @ take n (hs_raw s))
              else Some (Inr (0, False), s, out))
      | BODY_NONE \<Rightarrow> Some (Inr (1, True), s\<lparr>hs_eof := True\<rparr>, out)
      | BODY_CHUNKED \<Rightarrow> process_chunked s out cap)"

section \<open>Receiving\<close>

text \<open>The result of a receive step: return code, end of file, next action, error, stream, output.\<close>

type_synonym recv_result = "int \<times> bool \<times> http_stream_action \<times> cstring \<times> http_stream \<times> bytes"

definition finish_process :: "process_result \<Rightarrow> recv_result" where
  "finish_process r = (case r of
     (Inl err, s, out) \<Rightarrow> (-1, False, ACTION_NONE, Some err, s\<lparr>hs_failed := True\<rparr>, out)
   | (Inr (rc, eof), s, out) \<Rightarrow>
       if rc \<noteq> 0 then (rc, eof, ACTION_NONE, None, s, out)
       else (0, eof, ACTION_READ_BODY, None, s, out))"

definition ducknng_http_client_stream_recv_begin :: "http_stream \<Rightarrow> nat \<Rightarrow> recv_result option" where
  "ducknng_http_client_stream_recv_begin s out_cap =
     (if out_cap = 0 \<or> out_cap > DUCKNNG_HTTP_STREAM_MAX_RECV_BYTES
      then Some (-1, False, ACTION_NONE,
        Some ''ducknng: HTTP stream receive max_bytes must be between 1 and 67108864'', s, [])
      else if \<not> hs_open s \<or> hs_failed s \<or> hs_closing s
      then Some (-1, False, ACTION_NONE, Some (if hs_closing s then ''ducknng: HTTP stream is closing''
          else ''ducknng: HTTP stream is not readable''), s, [])
      else map_option finish_process (ducknng_http_stream_process s [] out_cap))"

text \<open>
  A completed raw read: its result code and text, whether the code says that the peer closed, and
  the bytes it put into \<open>raw_buf\<close>.
\<close>

definition ducknng_http_client_stream_recv_advance ::
  "http_stream \<Rightarrow> int \<Rightarrow> string \<Rightarrow> bool \<Rightarrow> bytes \<Rightarrow> bytes \<Rightarrow> nat \<Rightarrow> recv_result option" where
  "ducknng_http_client_stream_recv_advance s aio_result aio_error peer_closed data out out_cap =
     (if out_cap = 0 \<or> out_cap > DUCKNNG_HTTP_STREAM_MAX_RECV_BYTES
      then Some (-1, False, ACTION_NONE,
        Some ''ducknng: missing or invalid streaming HTTP receive state'', s, out)
      else if aio_result \<noteq> 0 then
        (if hs_body_mode s = BODY_UNTIL_CLOSE \<and> \<not> hs_closing s \<and> peer_closed
         then Some (1, True, ACTION_NONE, None, s\<lparr>hs_eof := True\<rparr>, out)
         else Some (-1, False, ACTION_NONE, Some aio_error, s\<lparr>hs_failed := True\<rparr>, out))
      else if length data = 0 \<or> length data > DUCKNNG_HTTP_STREAM_READ_BUFFER_SIZE
      then Some (-1, False, ACTION_NONE,
        Some ''ducknng: streaming HTTP connection returned an empty or oversized read'',
        s\<lparr>hs_failed := True\<rparr>, out)
      else map_option finish_process (ducknng_http_stream_process (s\<lparr>hs_raw := data\<rparr>) out out_cap))"

text \<open>A raw read may only be submitted when everything read before has been consumed.\<close>

definition ducknng_http_client_stream_submit ::
  "http_stream \<Rightarrow> bool \<Rightarrow> http_stream_action \<Rightarrow> cstring \<Rightarrow> cstring \<times> http_stream" where
  "ducknng_http_client_stream_submit s has_conn action iov_error =
     (case action of
        ACTION_NONE \<Rightarrow> (Some ''ducknng: invalid streaming HTTP submission action'', s)
      | ACTION_READ_BODY \<Rightarrow>
          if \<not> has_conn \<or> hs_raw s \<noteq> [] then (Some ''ducknng: invalid streaming HTTP raw-read state'', s)
          else (iov_error, s\<lparr>hs_raw := []\<rparr>)
      | _ \<Rightarrow> (None, s))"

section \<open>A decoder that consumes one byte at a time\<close>

text \<open>What a completed size or trailer line does.\<close>

definition line_done :: "http_stream \<Rightarrow> string + http_stream" where
  "line_done s =
     (if hs_chunk_state s = CHUNK_SIZE then ducknng_http_stream_parse_chunk_size s
      else if hs_line s = [] then Inr (s\<lparr>hs_eof := True\<rparr>) else Inr (s\<lparr>hs_line := []\<rparr>))"

definition emit0 :: "string + http_stream \<Rightarrow> string + http_stream \<times> bytes" where
  "emit0 r = (case r of Inl e \<Rightarrow> Inl e | Inr s \<Rightarrow> Inr (s, []))"

definition line_byte :: "http_stream \<Rightarrow> u8 \<Rightarrow> string + http_stream" where
  "line_byte s b =
     (if hs_line_saw_cr s then
        (if b \<noteq> 10 then Inl ''ducknng: malformed chunked HTTP line ending''
         else line_done (s\<lparr>hs_line_saw_cr := False\<rparr>))
      else if b = 13 then Inr (s\<lparr>hs_line_saw_cr := True\<rparr>)
      else if b = 10 then Inl ''ducknng: malformed chunked HTTP line ending''
      else if (b < 0x20 \<and> b \<noteq> 9) \<or> b = 0x7f then Inl ''ducknng: control character in chunked HTTP framing''
      else if length (hs_line s) \<ge> DUCKNNG_HTTP_STREAM_LINE_MAX
      then Inl ''ducknng: chunked HTTP size or trailer line is too long''
      else Inr (s\<lparr>hs_line := hs_line s @ [b]\<rparr>))"

definition crlf_byte :: "http_stream \<Rightarrow> u8 \<Rightarrow> string + http_stream" where
  "crlf_byte s b =
     (if b \<noteq> (if hs_data_crlf_pos s = 0 then 13 else 10)
      then Inl ''ducknng: malformed chunk data terminator in streaming HTTP response''
      else Inr (if hs_data_crlf_pos s = 0 then s\<lparr>hs_data_crlf_pos := 1\<rparr>
                else s\<lparr>hs_data_crlf_pos := 2, hs_chunk_state := CHUNK_SIZE\<rparr>))"

definition data_byte :: "http_stream \<Rightarrow> http_stream" where
  "data_byte s = (let n = hs_chunk_remaining s - 1 in
     if n = 0 then s\<lparr>hs_chunk_remaining := n, hs_chunk_state := CHUNK_DATA_CRLF, hs_data_crlf_pos := 0\<rparr>
     else s\<lparr>hs_chunk_remaining := n\<rparr>)"

definition length_byte :: "http_stream \<Rightarrow> http_stream" where
  "length_byte s = (let n = hs_content_remaining s - 1 in
     if n = 0 then s\<lparr>hs_content_remaining := n, hs_eof := True\<rparr> else s\<lparr>hs_content_remaining := n\<rparr>)"

definition feed_byte :: "http_stream \<Rightarrow> u8 \<Rightarrow> string + http_stream \<times> bytes" where
  "feed_byte s b =
     (if hs_eof s then Inr (s, [])
      else case hs_body_mode s of
        BODY_NONE \<Rightarrow> Inr (s, [])
      | BODY_UNTIL_CLOSE \<Rightarrow> Inr (s, [b])
      | BODY_CONTENT_LENGTH \<Rightarrow> Inr (length_byte s, [b])
      | BODY_CHUNKED \<Rightarrow>
          (case hs_chunk_state s of
             CHUNK_DATA \<Rightarrow> Inr (data_byte s, [b])
           | CHUNK_DATA_CRLF \<Rightarrow> emit0 (crlf_byte s b)
           | _ \<Rightarrow> emit0 (line_byte s b)))"

definition andthen :: "string + http_stream \<times> bytes \<Rightarrow>
    (http_stream \<Rightarrow> string + http_stream \<times> bytes) \<Rightarrow> string + http_stream \<times> bytes" where
  "andthen r f = (case r of Inl e \<Rightarrow> Inl e
     | Inr (s, o1) \<Rightarrow> (case f s of Inl e \<Rightarrow> Inl e | Inr (s', o2) \<Rightarrow> Inr (s', o1 @ o2)))"

fun feed :: "http_stream \<Rightarrow> bytes \<Rightarrow> string + http_stream \<times> bytes" where
  "feed s [] = Inr (s, [])"
| "feed s (b # bs) = andthen (feed_byte s b) (\<lambda>s. feed s bs)"

lemma andthen_simps [simp]:
  "andthen (Inl e) f = Inl e"
  "andthen (Inr (s, o1)) f = (case f s of Inl e \<Rightarrow> Inl e | Inr (s', o2) \<Rightarrow> Inr (s', o1 @ o2))"
  by (simp_all add: andthen_def)

lemma andthen_assoc: "andthen (andthen r f) g = andthen r (\<lambda>s. andthen (f s) g)"
  by (auto simp: andthen_def split: sum.splits prod.splits)

lemma feed_append: "feed s (a @ b) = andthen (feed s a) (\<lambda>s. feed s b)"
  by (induction a arbitrary: s) (auto simp: andthen_assoc split: sum.splits)

lemma feed_one [simp]: "feed s [b] = feed_byte s b"
  by (auto simp: andthen_def split: sum.splits prod.splits)

lemma feed_eof: "hs_eof s \<Longrightarrow> feed s bs = Inr (s, [])"
  by (induction bs) (simp_all add: feed_byte_def)

text \<open>The decoder's part of the state: everything but the unread bytes.\<close>

definition dec :: "http_stream \<Rightarrow> http_stream" where
  "dec s = s\<lparr>hs_raw := []\<rparr>"

lemma dec_fields [simp]:
  "hs_eof (dec s) = hs_eof s" "hs_body_mode (dec s) = hs_body_mode s"
  "hs_chunk_state (dec s) = hs_chunk_state s" "hs_line (dec s) = hs_line s"
  "hs_line_saw_cr (dec s) = hs_line_saw_cr s" "hs_chunk_remaining (dec s) = hs_chunk_remaining s"
  "hs_content_remaining (dec s) = hs_content_remaining s" "hs_failed (dec s) = hs_failed s"
  "hs_data_crlf_pos (dec s) = hs_data_crlf_pos s" "hs_raw (dec s) = []"
  by (simp_all add: dec_def)

text \<open>The decoder invariant.\<close>

definition dec_ok :: "http_stream \<Rightarrow> bool" where
  "dec_ok s \<longleftrightarrow> hs_eof s \<or>
     (case hs_body_mode s of
        BODY_NONE \<Rightarrow> False
      | BODY_UNTIL_CLOSE \<Rightarrow> True
      | BODY_CONTENT_LENGTH \<Rightarrow> hs_content_remaining s \<noteq> 0
      | BODY_CHUNKED \<Rightarrow> length (hs_line s) \<le> DUCKNNG_HTTP_STREAM_LINE_MAX \<and>
          (hs_chunk_state s = CHUNK_DATA \<longrightarrow> hs_chunk_remaining s \<noteq> 0) \<and>
          (hs_chunk_state s = CHUNK_DATA_CRLF \<longrightarrow> hs_data_crlf_pos s < 2))"

section \<open>The decoder refines the byte machine\<close>

text \<open>What the line reader reports, in terms of the byte machine.\<close>

definition line_read ::
  "http_stream \<Rightarrow> bytes \<Rightarrow> string + bool \<Rightarrow> bytes \<Rightarrow> bytes \<Rightarrow> bool \<Rightarrow> bool" where
  "line_read s raw r raw' line' cr' = (case r of
      Inl e \<Rightarrow> \<exists>a. raw = a @ raw' \<and> feed s a = Inl e
    | Inr complete \<Rightarrow> length line' \<le> DUCKNNG_HTTP_STREAM_LINE_MAX \<and>
        (if complete
         then \<exists>a. raw = a @ 10 # raw' \<and> \<not> cr' \<and>
           feed s a = Inr (s\<lparr>hs_line := line', hs_line_saw_cr := True\<rparr>, [])
         else raw' = [] \<and> feed s raw = Inr (s\<lparr>hs_line := line', hs_line_saw_cr := cr'\<rparr>, [])))"

lemma line_read_step:
  assumes "feed_byte s c = Inr (s', [])"
    and "\<And>l k. s'\<lparr>hs_line := l, hs_line_saw_cr := k\<rparr> = s\<lparr>hs_line := l, hs_line_saw_cr := k\<rparr>"
    and "line_read s' raw r raw' line' cr'"
  shows "line_read s (c # raw) r raw' line' cr'"
proof -
  have f: "feed s (c # a) = feed s' a" for a
    using assms(1) by (auto split: sum.splits)
  show ?thesis
  proof (cases r)
    case (Inl e)
    then obtain a where "raw = a @ raw'" "feed s' a = Inl e" using assms(3) by (auto simp: line_read_def)
    then have "c # raw = (c # a) @ raw'" "feed s (c # a) = Inl e" by (simp_all add: f del: feed.simps)
    then show ?thesis unfolding line_read_def Inl sum.case by blast
  next
    case (Inr complete)
    show ?thesis
    proof (cases complete)
      case True
      then obtain a where "raw = a @ 10 # raw'" "\<not> cr'" "length line' \<le> DUCKNNG_HTTP_STREAM_LINE_MAX"
          "feed s' a = Inr (s\<lparr>hs_line := line', hs_line_saw_cr := True\<rparr>, [])"
        using assms(2,3) Inr by (auto simp: line_read_def)
      then have "c # raw = (c # a) @ 10 # raw'" "\<not> cr'" "length line' \<le> DUCKNNG_HTTP_STREAM_LINE_MAX"
          "feed s (c # a) = Inr (s\<lparr>hs_line := line', hs_line_saw_cr := True\<rparr>, [])"
        by (simp_all add: f del: feed.simps)
      with Inr True show ?thesis unfolding line_read_def sum.case by auto
    next
      case False
      with assms(2,3) Inr show ?thesis by (simp add: line_read_def f del: feed.simps)
    qed
  qed
qed

lemma read_line_feed:
  assumes "read_line_loop raw (hs_line s) (hs_line_saw_cr s) = (r, raw', line', cr')"
    and "hs_body_mode s = BODY_CHUNKED" "hs_chunk_state s = CHUNK_SIZE \<or> hs_chunk_state s = CHUNK_TRAILERS"
    and "\<not> hs_eof s" "length (hs_line s) \<le> DUCKNNG_HTTP_STREAM_LINE_MAX"
  shows "line_read s raw r raw' line' cr'"
  using assms
proof (induction raw arbitrary: s)
  case Nil
  then show ?case by (auto simp: line_read_def)
next
  case (Cons c raw)
  have fb: "feed_byte s c = emit0 (line_byte s c)"
    using Cons.prems(2-4) by (auto simp: feed_byte_def)
  have err: "line_read s (c # raw) (Inl e) raw line' cr'" if "line_byte s c = Inl e" for e
    using fb that by (auto simp: line_read_def emit0_def intro!: exI [of _ "[c]"])
  have go: "line_read s (c # raw) r raw' line' cr'"
    if "line_byte s c = Inr s'" "line_read s' raw r raw' line' cr'"
      "\<And>l k. s'\<lparr>hs_line := l, hs_line_saw_cr := k\<rparr> = s\<lparr>hs_line := l, hs_line_saw_cr := k\<rparr>" for s'
    using fb that by (intro line_read_step [of s c s']) (simp_all add: emit0_def)
  note IH1 = Cons.IH [of "s\<lparr>hs_line_saw_cr := True\<rparr>"] and IH2 = Cons.IH [of "s\<lparr>hs_line := hs_line s @ [c]\<rparr>"]
  show ?case
  proof (cases "hs_line_saw_cr s")
    case True
    then show ?thesis
      using Cons.prems(1,5) err by (auto simp: line_byte_def line_read_def split: if_splits)
  next
    case False
    then show ?thesis
      using Cons.prems IH1 IH2 err go by (auto simp: line_byte_def split: if_splits)
  qed
qed

text \<open>What the reader of a chunk's CRLF reports, in terms of the byte machine.\<close>

definition crlf_read :: "http_stream \<Rightarrow> bytes \<Rightarrow> bool \<Rightarrow> bytes \<Rightarrow> nat \<Rightarrow> bool" where
  "crlf_read s raw ok raw' pos = (if \<not> ok
    then \<exists>a. raw = a @ raw' \<and>
      feed s a = Inl ''ducknng: malformed chunk data terminator in streaming HTTP response''
    else if pos < 2 then raw' = [] \<and> feed s raw = Inr (s\<lparr>hs_data_crlf_pos := pos\<rparr>, [])
    else \<exists>a. a \<noteq> [] \<and> raw = a @ raw' \<and>
      feed s a = Inr (s\<lparr>hs_data_crlf_pos := pos, hs_chunk_state := CHUNK_SIZE\<rparr>, []))"

lemma crlf_loop_2 [simp]: "crlf_loop raw 2 = (True, raw, 2)"
  by (cases raw) simp_all

lemma crlf_feed_lf:
  assumes "crlf_loop raw 1 = (ok, raw', pos)" "hs_data_crlf_pos s = 1"
    and "hs_body_mode s = BODY_CHUNKED" "hs_chunk_state s = CHUNK_DATA_CRLF" "\<not> hs_eof s"
  shows "crlf_read s raw ok raw' pos"
proof (cases raw)
  case Nil
  then show ?thesis using assms(1,2) by (auto simp: crlf_read_def)
next
  case (Cons c rest)
  have fb: "feed s [c] = emit0 (crlf_byte s c)"
    unfolding feed_one using assms(3-5) by (simp add: feed_byte_def)
  show ?thesis
  proof (cases "c = 10")
    case True
    then have "ok" "raw' = rest" "pos = 2" using assms(1) Cons by (auto simp: numeral_2_eq_2 [symmetric])
    moreover have "feed s [c] = Inr (s\<lparr>hs_data_crlf_pos := 2, hs_chunk_state := CHUNK_SIZE\<rparr>, [])"
      unfolding fb using True assms(2) by (simp add: crlf_byte_def emit0_def)
    ultimately show ?thesis
      unfolding crlf_read_def using Cons by (metis append_Cons append_Nil less_irrefl list.distinct(1))
  next
    case False
    then have "\<not> ok" "raw' = rest" using assms(1) Cons by auto
    moreover have "feed s [c] = Inl ''ducknng: malformed chunk data terminator in streaming HTTP response''"
      unfolding fb using False assms(2) by (simp add: crlf_byte_def emit0_def)
    ultimately show ?thesis
      unfolding crlf_read_def using Cons by (metis append_Cons append_Nil)
  qed
qed

lemma crlf_read_step:
  assumes "feed_byte s c = Inr (s', [])" "crlf_read s' raw ok raw' pos" "s' = s\<lparr>hs_data_crlf_pos := 1\<rparr>"
  shows "crlf_read s (c # raw) ok raw' pos"
proof -
  have f: "feed s (c # a) = feed s' a" for a using assms(1) by (auto split: sum.splits)
  consider "\<not> ok" | "ok" "pos < 2" | "ok" "\<not> pos < 2" by blast
  then show ?thesis
  proof cases
    case 1
    then obtain a where "raw = a @ raw'"
        "feed s (c # a) = Inl ''ducknng: malformed chunk data terminator in streaming HTTP response''"
      unfolding f using assms(2) by (auto simp: crlf_read_def)
    then show ?thesis unfolding crlf_read_def using 1 by (metis append_Cons)
  next
    case 2
    then show ?thesis using assms(2,3) f [of raw] by (simp add: crlf_read_def del: feed.simps)
  next
    case 3
    then obtain a where "raw = a @ raw'"
        "feed s (c # a) = Inr (s\<lparr>hs_data_crlf_pos := pos, hs_chunk_state := CHUNK_SIZE\<rparr>, [])"
      unfolding f using assms(2,3) by (auto simp: crlf_read_def)
    then show ?thesis unfolding crlf_read_def using 3 by (metis append_Cons list.distinct(1))
  qed
qed

lemma crlf_feed:
  assumes "crlf_loop raw (hs_data_crlf_pos s) = (ok, raw', pos)"
    and "hs_body_mode s = BODY_CHUNKED" "hs_chunk_state s = CHUNK_DATA_CRLF" "\<not> hs_eof s"
    and "hs_data_crlf_pos s < 2"
  shows "crlf_read s raw ok raw' pos"
proof (cases "hs_data_crlf_pos s = 0")
  case False
  then have "hs_data_crlf_pos s = 1" using assms(5) by simp
  with assms(1-4) show ?thesis by (intro crlf_feed_lf) simp_all
next
  case True
  show ?thesis
  proof (cases raw)
    case Nil
    then show ?thesis using assms(1) True by (auto simp: crlf_read_def)
  next
    case (Cons c rest)
    have fb: "feed_byte s c = emit0 (crlf_byte s c)" using assms(2-4) by (simp add: feed_byte_def)
    show ?thesis
    proof (cases "c = 13")
      case 13: True
      then have "crlf_loop rest 1 = (ok, raw', pos)" using assms(1) Cons True by simp
      with assms(2-4) have "crlf_read (s\<lparr>hs_data_crlf_pos := 1\<rparr>) rest ok raw' pos"
        by (intro crlf_feed_lf) simp_all
      moreover have "feed_byte s c = Inr (s\<lparr>hs_data_crlf_pos := 1\<rparr>, [])"
        using fb 13 True by (simp add: crlf_byte_def emit0_def)
      ultimately show ?thesis unfolding Cons by (intro crlf_read_step) simp_all
    next
      case False
      then have "\<not> ok" "raw' = rest" using assms(1) Cons True by auto
      moreover have "feed s [c] = Inl ''ducknng: malformed chunk data terminator in streaming HTTP response''"
        unfolding feed_one fb using False True by (simp add: crlf_byte_def emit0_def)
      ultimately show ?thesis
        unfolding crlf_read_def using Cons by (metis append_Cons append_Nil)
    qed
  qed
qed

lemma feed_data:
  "hs_body_mode s = BODY_CHUNKED \<Longrightarrow> hs_chunk_state s = CHUNK_DATA \<Longrightarrow> \<not> hs_eof s \<Longrightarrow>
   hs_chunk_remaining s \<noteq> 0 \<Longrightarrow> length bs \<le> unat (hs_chunk_remaining s) \<Longrightarrow>
   feed s bs = Inr (if hs_chunk_remaining s - of_nat (length bs) = 0
     then s\<lparr>hs_chunk_remaining := 0, hs_chunk_state := CHUNK_DATA_CRLF, hs_data_crlf_pos := 0\<rparr>
     else s\<lparr>hs_chunk_remaining := hs_chunk_remaining s - of_nat (length bs)\<rparr>, bs)"
proof (induction bs arbitrary: s)
  case Nil
  then show ?case by simp
next
  case (Cons b bs)
  let ?n = "hs_chunk_remaining s"
  have fb: "feed_byte s b = Inr (data_byte s, [b])" using Cons.prems(1-3) by (simp add: feed_byte_def)
  have "1 \<le> ?n" using Cons.prems(4) by (simp add: word_le_nat_alt word_unat_eq_iff)
  then have u: "unat (?n - 1) = unat ?n - 1" by (simp add: unat_sub)
  show ?case
  proof (cases "?n - 1 = 0")
    case True
    then have "bs = []" using u Cons.prems(5) by simp
    with True fb show ?thesis by (simp add: data_byte_def)
  next
    case False
    then have d: "data_byte s = s\<lparr>hs_chunk_remaining := ?n - 1\<rparr>" by (simp add: data_byte_def Let_def)
    have "length bs \<le> unat (?n - 1)" using Cons.prems(5) u by simp
    with Cons.IH [of "data_byte s"] Cons.prems False fb d show ?thesis
      by (simp add: diff_diff_eq2 algebra_simps)
  qed
qed

lemma feed_length:
  "hs_body_mode s = BODY_CONTENT_LENGTH \<Longrightarrow> \<not> hs_eof s \<Longrightarrow>
   hs_content_remaining s \<noteq> 0 \<Longrightarrow> length bs \<le> unat (hs_content_remaining s) \<Longrightarrow>
   feed s bs = Inr (if hs_content_remaining s - of_nat (length bs) = 0
     then s\<lparr>hs_content_remaining := 0, hs_eof := True\<rparr>
     else s\<lparr>hs_content_remaining := hs_content_remaining s - of_nat (length bs)\<rparr>, bs)"
proof (induction bs arbitrary: s)
  case Nil
  then show ?case by simp
next
  case (Cons b bs)
  let ?n = "hs_content_remaining s"
  have fb: "feed_byte s b = Inr (length_byte s, [b])" using Cons.prems(1,2) by (simp add: feed_byte_def)
  have "1 \<le> ?n" using Cons.prems(3) by (simp add: word_le_nat_alt word_unat_eq_iff)
  then have u: "unat (?n - 1) = unat ?n - 1" by (simp add: unat_sub)
  show ?case
  proof (cases "?n - 1 = 0")
    case True
    then have "bs = []" using u Cons.prems(4) by simp
    with True fb show ?thesis by (simp add: length_byte_def)
  next
    case False
    then have d: "length_byte s = s\<lparr>hs_content_remaining := ?n - 1\<rparr>" by (simp add: length_byte_def Let_def)
    have "length bs \<le> unat (?n - 1)" using Cons.prems(4) u by simp
    with Cons.IH [of "length_byte s"] Cons.prems False fb d show ?thesis
      by (simp add: diff_diff_eq2 algebra_simps)
  qed
qed

lemma feed_until_close: "hs_body_mode s = BODY_UNTIL_CLOSE \<Longrightarrow> \<not> hs_eof s \<Longrightarrow> feed s bs = Inr (s, bs)"
  by (induction bs) (simp_all add: feed_byte_def)

lemma parse_chunk_size_dec:
  "ducknng_http_stream_parse_chunk_size (dec s) = map_sum id dec (ducknng_http_stream_parse_chunk_size s)"
  by (auto simp: ducknng_http_stream_parse_chunk_size_def dec_def split: sum.splits)

lemma parse_chunk_size_keeps:
  "ducknng_http_stream_parse_chunk_size s = Inr s' \<Longrightarrow>
     hs_raw s' = hs_raw s \<and> hs_body_mode s' = hs_body_mode s \<and> hs_eof s' = hs_eof s \<and> hs_line s' = [] \<and>
     (hs_chunk_state s' = CHUNK_DATA \<and> hs_chunk_remaining s' \<noteq> 0 \<or> hs_chunk_state s' = CHUNK_TRAILERS) \<and>
     hs_open s' = hs_open s \<and> hs_failed s' = hs_failed s \<and> hs_closing s' = hs_closing s"
  by (auto simp: ducknng_http_stream_parse_chunk_size_def split: sum.splits if_splits)

lemma line_done_keeps:
  assumes "line_done s = Inr s'" "dec_ok s" "\<not> hs_eof s" "hs_body_mode s = BODY_CHUNKED"
    "hs_chunk_state s = CHUNK_SIZE \<or> hs_chunk_state s = CHUNK_TRAILERS"
  shows "dec_ok s' \<and> hs_open s' = hs_open s \<and> hs_failed s' = hs_failed s \<and> hs_closing s' = hs_closing s \<and>
    hs_body_mode s' = hs_body_mode s"
  using assms parse_chunk_size_keeps [of s s']
  by (auto simp: line_done_def dec_ok_def split: if_splits)

lemma feed_byte_keeps:
  assumes "feed_byte s b = Inr (s', o1)" "dec_ok s"
  shows "dec_ok s' \<and> hs_open s' = hs_open s \<and> hs_failed s' = hs_failed s \<and> hs_closing s' = hs_closing s \<and>
    hs_body_mode s' = hs_body_mode s"
proof (cases "hs_eof s")
  case True
  then show ?thesis using assms by (simp add: feed_byte_def)
next
  case False
  show ?thesis
  proof (cases "hs_body_mode s")
    case BODY_CHUNKED
    show ?thesis
    proof (cases "hs_chunk_state s")
      case CHUNK_DATA
      then show ?thesis
        using assms False BODY_CHUNKED
        by (cases "hs_chunk_remaining s = 1") (auto simp: feed_byte_def data_byte_def dec_ok_def Let_def)
    next
      case CHUNK_DATA_CRLF
      then show ?thesis
        using assms False BODY_CHUNKED
        by (auto simp: feed_byte_def crlf_byte_def dec_ok_def emit0_def split: if_splits)
    next
      case CHUNK_SIZE
      then have "line_byte s b = Inr s'"
        using assms(1) False BODY_CHUNKED by (auto simp: feed_byte_def emit0_def split: sum.splits)
      then show ?thesis
        using assms(2) False BODY_CHUNKED CHUNK_SIZE line_done_keeps [of "s\<lparr>hs_line_saw_cr := False\<rparr>" s']
        by (auto simp: line_byte_def dec_ok_def split: if_splits)
    next
      case CHUNK_TRAILERS
      then have "line_byte s b = Inr s'"
        using assms(1) False BODY_CHUNKED by (auto simp: feed_byte_def emit0_def split: sum.splits)
      then show ?thesis
        using assms(2) False BODY_CHUNKED CHUNK_TRAILERS line_done_keeps [of "s\<lparr>hs_line_saw_cr := False\<rparr>" s']
        by (auto simp: line_byte_def dec_ok_def split: if_splits)
    qed
  next
    case BODY_CONTENT_LENGTH
    then show ?thesis
      using assms False
      by (cases "hs_content_remaining s = 1") (auto simp: feed_byte_def length_byte_def dec_ok_def Let_def)
  qed (use assms False in \<open>auto simp: feed_byte_def dec_ok_def\<close>)
qed

lemma feed_keeps:
  "feed s bs = Inr (s', o1) \<Longrightarrow> dec_ok s \<Longrightarrow>
     dec_ok s' \<and> hs_open s' = hs_open s \<and> hs_failed s' = hs_failed s \<and> hs_closing s' = hs_closing s \<and>
     hs_body_mode s' = hs_body_mode s"
proof (induction bs arbitrary: s o1)
  case (Cons b bs)
  then obtain s1 ob ob' where "feed_byte s b = Inr (s1, ob)" "feed s1 bs = Inr (s', ob')"
    by (auto simp: andthen_def split: sum.splits prod.splits)
  with Cons.IH [of s1 ob'] Cons.prems(2) feed_byte_keeps [of s b s1 ob] show ?case by auto
qed auto

lemma dec_ok_dec [simp]: "dec_ok (dec s) = dec_ok s"
  by (cases "hs_body_mode s") (simp_all add: dec_ok_def)

lemma read_line_ref:
  assumes "ducknng_http_stream_read_line s = (r, s1)"
    and "hs_body_mode s = BODY_CHUNKED" "hs_chunk_state s = CHUNK_SIZE \<or> hs_chunk_state s = CHUNK_TRAILERS"
    and "\<not> hs_eof s" "dec_ok s"
  shows "case r of
      Inl e \<Rightarrow> \<exists>a. hs_raw s = a @ hs_raw s1 \<and> feed (dec s) a = Inl e
    | Inr complete \<Rightarrow>
        (if complete then \<exists>a. a \<noteq> [] \<and> hs_raw s = a @ hs_raw s1 \<and> feed (dec s) a = emit0 (line_done (dec s1))
         else hs_raw s1 = [] \<and> feed (dec s) (hs_raw s) = Inr (dec s1, []))"
    and "hs_chunk_state s1 = hs_chunk_state s" "hs_body_mode s1 = hs_body_mode s" "hs_eof s1 = hs_eof s"
proof -
  obtain raw' line' cr' where l: "read_line_loop (hs_raw s) (hs_line s) (hs_line_saw_cr s) = (r, raw', line', cr')"
    and s1: "s1 = s\<lparr>hs_raw := raw', hs_line := line', hs_line_saw_cr := cr'\<rparr>"
    using assms(1) by (auto simp: ducknng_http_stream_read_line_def split: prod.splits)
  show "hs_chunk_state s1 = hs_chunk_state s" "hs_body_mode s1 = hs_body_mode s" "hs_eof s1 = hs_eof s"
    by (simp_all add: s1)
  have lr: "line_read (dec s) (hs_raw s) r raw' line' cr'"
    using assms l by (intro read_line_feed) (auto simp: dec_ok_def)
  have d1: "dec s1 = (dec s)\<lparr>hs_line := line', hs_line_saw_cr := cr'\<rparr>" by (simp add: s1 dec_def)
  show "case r of
      Inl e \<Rightarrow> \<exists>a. hs_raw s = a @ hs_raw s1 \<and> feed (dec s) a = Inl e
    | Inr complete \<Rightarrow>
        (if complete then \<exists>a. a \<noteq> [] \<and> hs_raw s = a @ hs_raw s1 \<and> feed (dec s) a = emit0 (line_done (dec s1))
         else hs_raw s1 = [] \<and> feed (dec s) (hs_raw s) = Inr (dec s1, []))"
  proof (cases r)
    case (Inl e)
    then show ?thesis using lr by (simp add: line_read_def s1)
  next
    case (Inr complete)
    show ?thesis
    proof (cases complete)
      case False
      then show ?thesis using lr Inr d1 by (simp add: line_read_def s1)
    next
      case True
      then obtain a where a: "hs_raw s = a @ 10 # raw'" "\<not> cr'"
          "feed (dec s) a = Inr ((dec s)\<lparr>hs_line := line', hs_line_saw_cr := True\<rparr>, [])"
        using lr Inr by (auto simp: line_read_def)
      have "feed_byte ((dec s)\<lparr>hs_line := line', hs_line_saw_cr := True\<rparr>) 10 = emit0 (line_done (dec s1))"
        unfolding d1 using assms(2-4) a(2) by (auto simp: feed_byte_def line_byte_def)
      then have "feed (dec s) (a @ [10]) = emit0 (line_done (dec s1))"
        unfolding feed_append a(3) feed_one andthen_simps
        by (auto simp: emit0_def split: sum.splits)
      moreover have "hs_raw s = (a @ [10]) @ hs_raw s1" using a(1) by (simp add: s1)
      ultimately show ?thesis using Inr True by (intro exI [of _ "a @ [10]"] | simp)+
    qed
  qed
qed

text \<open>
  A decoder run refines the byte machine: it consumed a prefix of the unread bytes, and it stopped
  for one of three reasons: the input is used up, the end of the body was seen, or there is output.
\<close>

definition run_refines :: "http_stream \<Rightarrow> nat \<Rightarrow> process_result \<Rightarrow> bool" where
  "run_refines s cap res = (case res of
     (Inl e, s', out) \<Rightarrow> \<exists>a. hs_raw s = a @ hs_raw s' \<and> feed (dec s) a = Inl e
   | (Inr (rc, eof), s', out) \<Rightarrow>
       (\<exists>a. hs_raw s = a @ hs_raw s' \<and> feed (dec s) a = Inr (dec s', out)) \<and> length out \<le> cap \<and>
       (rc = 0 \<and> \<not> eof \<and> hs_raw s' = [] \<and> out = [] \<and> \<not> hs_eof s' \<or>
        rc = 1 \<and> eof \<and> hs_eof s' \<and> out = [] \<or> rc = 1 \<and> \<not> eof \<and> out \<noteq> []))"

lemma run_refines_step:
  assumes "hs_raw s = a @ hs_raw s1" "feed (dec s) a = Inr (dec s1, [])" "run_refines s1 cap res"
  shows "run_refines s cap res"
proof -
  obtain r s' out where res: "res = (r, s', out)" by (cases res)
  show ?thesis
  proof (cases r)
    case (Inl e)
    then obtain b where "hs_raw s1 = b @ hs_raw s'" "feed (dec s1) b = Inl e"
      using assms(3) by (auto simp: run_refines_def res)
    then have "hs_raw s = (a @ b) @ hs_raw s'" "feed (dec s) (a @ b) = Inl e"
      using assms(1,2) by (simp_all add: feed_append)
    then show ?thesis unfolding run_refines_def res Inl by auto
  next
    case (Inr p)
    obtain rc eof where p: "p = (rc, eof)" by (cases p)
    obtain b where "hs_raw s1 = b @ hs_raw s'" "feed (dec s1) b = Inr (dec s', out)"
      using assms(3) by (auto simp: run_refines_def res Inr p)
    then have "hs_raw s = (a @ b) @ hs_raw s'" "feed (dec s) (a @ b) = Inr (dec s', out)"
      using assms(1,2) by (simp_all add: feed_append)
    then show ?thesis using assms(3) unfolding run_refines_def res Inr p by auto
  qed
qed

text \<open>The loop's progress: every round either uses input or moves on to a state of smaller rank.\<close>

definition rank :: "http_stream \<Rightarrow> nat" where
  "rank s = 4 * length (hs_raw s) +
     (case hs_chunk_state s of CHUNK_DATA \<Rightarrow> 3 | CHUNK_DATA_CRLF \<Rightarrow> 2 | _ \<Rightarrow> 1)"

lemma min3_bounds:
  "ducknng_http_stream_min3 a b c \<le> a" "ducknng_http_stream_min3 a b c \<le> b"
  "ducknng_http_stream_min3 a b c \<le> unat c"
  "ducknng_http_stream_min3 a b c = 0 \<longleftrightarrow> a = 0 \<or> b = 0 \<or> c = 0"
  by (auto simp: ducknng_http_stream_min3_def Let_def word_unat_eq_iff)

definition chunk_running :: "http_stream \<Rightarrow> bool" where
  "chunk_running s \<longleftrightarrow> hs_body_mode s = BODY_CHUNKED \<and> \<not> hs_eof s \<and> dec_ok s"

lemma chunk_data_run:
  assumes "chunk_running s" "hs_chunk_state s = CHUNK_DATA" "0 < cap"
  shows "\<exists>res. process_chunked s [] cap = Some res \<and> run_refines s cap res"
proof -
  let ?m = "hs_chunk_remaining s"
  define n where "n = ducknng_http_stream_min3 (length (hs_raw s)) cap ?m"
  define s1 where "s1 = s\<lparr>hs_raw := drop n (hs_raw s), hs_chunk_remaining := ?m - of_nat n\<rparr>"
  define s2 where "s2 = (if hs_chunk_remaining s1 = 0
      then s1\<lparr>hs_chunk_state := CHUNK_DATA_CRLF, hs_data_crlf_pos := 0\<rparr> else s1)"
  have st: "hs_body_mode s = BODY_CHUNKED" "\<not> hs_eof s" "?m \<noteq> 0"
    using assms(1,2) by (auto simp: chunk_running_def dec_ok_def)
  have n: "n \<le> length (hs_raw s)" "n \<le> cap" "n \<le> unat ?m" and n0: "n = 0 \<longleftrightarrow> hs_raw s = []"
    using min3_bounds [of "length (hs_raw s)" cap ?m] st(3) assms(3) by (simp_all add: n_def)
  have f: "feed (dec s) (take n (hs_raw s)) = Inr (dec s2, take n (hs_raw s))"
    using feed_data [of "dec s" "take n (hs_raw s)"] st assms(2) n
    by (auto simp: s2_def s1_def dec_def)
  have raw: "hs_raw s = take n (hs_raw s) @ hs_raw s2" "hs_eof s2 = hs_eof s"
    by (simp_all add: s2_def s1_def)
  have step: "process_chunked s [] cap = (let out = take n (hs_raw s) in
      if length out > 0 then Some (Inr (1, False), s2, out)
      else if hs_raw s2 = [] then Some (Inr (0, False), s2, out) else process_chunked s2 out cap)"
    unfolding n_def s1_def s2_def Let_def
    by (subst process_chunked.simps)
      (simp only: assms(2) http_stream_chunk_state.case Let_def append_Nil list.size(3) diff_zero)
  show ?thesis
  proof (cases "n = 0")
    case True
    then have r: "hs_raw s2 = []" using n0 by (simp add: s2_def s1_def)
    then have "process_chunked s [] cap = Some (Inr (0, False), s2, [])"
      unfolding step using True by simp
    with f raw st r True show ?thesis by (auto simp: run_refines_def)
  next
    case False
    then have ne: "take n (hs_raw s) \<noteq> []" using n by auto
    then have "process_chunked s [] cap = Some (Inr (1, False), s2, take n (hs_raw s))"
      unfolding step by (simp add: Let_def)
    moreover have "length (take n (hs_raw s)) \<le> cap" using n by simp
    ultimately show ?thesis using f raw(1) ne unfolding run_refines_def by fastforce
  qed
qed

lemma line_done_dec: "line_done (dec s) = map_sum id dec (line_done s)"
  by (auto simp: line_done_def parse_chunk_size_dec) (simp_all add: dec_def)

lemma process_line_step:
  assumes "ducknng_http_stream_read_line s = (r, s1)" "\<not> hs_eof s"
    and "hs_chunk_state s = CHUNK_SIZE \<or> hs_chunk_state s = CHUNK_TRAILERS"
  shows "process_chunked s [] cap = (case r of
      Inl err \<Rightarrow> Some (Inl err, s1, [])
    | Inr complete \<Rightarrow> if \<not> complete then Some (Inr (0, False), s1, [])
        else (case line_done s1 of
          Inl err \<Rightarrow> Some (Inl err, s1, [])
        | Inr s2 \<Rightarrow> if hs_eof s2 then Some (Inr (1, True), s2, []) else process_chunked s2 [] cap))"
proof -
  have k: "hs_chunk_state s1 = hs_chunk_state s" "\<not> hs_eof s1"
    using assms(1,2) by (auto simp: ducknng_http_stream_read_line_def split: prod.splits)
  show ?thesis
    using assms(3)
  proof
    assume st: "hs_chunk_state s = CHUNK_SIZE"
    then have "line_done s1 = ducknng_http_stream_parse_chunk_size s1" using k by (simp add: line_done_def)
    moreover have "\<not> hs_eof s2" if "ducknng_http_stream_parse_chunk_size s1 = Inr s2" for s2
      using parse_chunk_size_keeps [OF that] k by simp
    ultimately show ?thesis
      by (subst process_chunked.simps) (auto simp: st assms(1) split: sum.splits)
  next
    assume st: "hs_chunk_state s = CHUNK_TRAILERS"
    then show ?thesis
      using k by (subst process_chunked.simps) (auto simp: st assms(1) line_done_def split: sum.splits)
  qed
qed

lemma chunk_line_run:
  assumes run: "chunk_running s" and st: "hs_chunk_state s = CHUNK_SIZE \<or> hs_chunk_state s = CHUNK_TRAILERS"
    and IH: "\<And>s'. rank s' < rank s \<Longrightarrow> chunk_running s' \<Longrightarrow>
      \<exists>res. process_chunked s' [] cap = Some res \<and> run_refines s' cap res"
  shows "\<exists>res. process_chunked s [] cap = Some res \<and> run_refines s cap res"
proof -
  have ok: "hs_body_mode s = BODY_CHUNKED" "\<not> hs_eof s" "dec_ok s"
    using run by (simp_all add: chunk_running_def)
  obtain r s1 where rl: "ducknng_http_stream_read_line s = (r, s1)" by fastforce
  note ref = read_line_ref [OF rl ok(1) st ok(2,3)] and step = process_line_step [OF rl ok(2) st, of cap]
  show ?thesis
  proof (cases r)
    case (Inl e)
    with ref(1) step show ?thesis by (auto simp: run_refines_def)
  next
    case (Inr complete)
    show ?thesis
    proof (cases complete)
      case False
      then have "feed (dec s) (hs_raw s) = Inr (dec s1, [])" "hs_raw s1 = []" using ref(1) Inr by simp_all
      with step Inr False ref(4) ok(2) show ?thesis by (auto simp: run_refines_def)
    next
      case True
      then obtain a where a: "a \<noteq> []" "hs_raw s = a @ hs_raw s1"
          "feed (dec s) a = emit0 (map_sum id dec (line_done s1))"
        using ref(1) Inr unfolding line_done_dec by auto
      show ?thesis
      proof (cases "line_done s1")
        case (Inl e)
        with a step Inr True show ?thesis by (auto simp: run_refines_def emit0_def)
      next
        case s2: (Inr s2)
        then have f: "feed (dec s) a = Inr (dec s2, [])" using a(3) by (simp add: emit0_def)
        have raw: "hs_raw s2 = hs_raw s1"
          using s2 parse_chunk_size_keeps [of s1 s2] by (auto simp: line_done_def split: if_splits)
        show ?thesis
        proof (cases "hs_eof s2")
          case eof: True
          with step Inr True s2 f a(2) raw show ?thesis by (auto simp: run_refines_def)
        next
          case False
          have "chunk_running s2"
            using feed_keeps [OF f] ok False by (simp add: chunk_running_def)
          moreover have "rank s2 < rank s"
            using a(1,2) raw by (cases a) (auto simp: rank_def split: http_stream_chunk_state.splits)
          ultimately obtain res where res: "process_chunked s2 [] cap = Some res" "run_refines s2 cap res"
            using IH by blast
          then have "run_refines s cap res"
            using a(2) raw f by (intro run_refines_step [of s a s2]) simp_all
          with step Inr True s2 False res(1) show ?thesis by simp
        qed
      qed
    qed
  qed
qed

lemma chunk_crlf_run:
  assumes run: "chunk_running s" and st: "hs_chunk_state s = CHUNK_DATA_CRLF"
    and IH: "\<And>s'. rank s' < rank s \<Longrightarrow> chunk_running s' \<Longrightarrow>
      \<exists>res. process_chunked s' [] cap = Some res \<and> run_refines s' cap res"
  shows "\<exists>res. process_chunked s [] cap = Some res \<and> run_refines s cap res"
proof -
  have ok: "hs_body_mode s = BODY_CHUNKED" "\<not> hs_eof s" "dec_ok s" "hs_data_crlf_pos s < 2"
    using run st by (auto simp: chunk_running_def dec_ok_def)
  obtain good raw' pos where cl: "crlf_loop (hs_raw s) (hs_data_crlf_pos s) = (good, raw', pos)"
    by (metis prod_cases3)
  define s1 where "s1 = s\<lparr>hs_raw := raw', hs_data_crlf_pos := pos\<rparr>"
  define s2 where "s2 = s1\<lparr>hs_chunk_state := CHUNK_SIZE\<rparr>"
  have rd: "crlf_read (dec s) (hs_raw s) good raw' pos"
    using crlf_feed [of "hs_raw s" "dec s"] cl st ok by simp
  have step: "process_chunked s [] cap =
      (if \<not> good then Some (Inl ''ducknng: malformed chunk data terminator in streaming HTTP response'', s1, [])
       else if pos < 2 then Some (Inr (0, False), s1, []) else process_chunked s2 [] cap)"
    by (subst process_chunked.simps) (simp add: st cl s1_def s2_def Let_def)
  consider "\<not> good" | "good" "pos < 2" | "good" "\<not> pos < 2" by blast
  then show ?thesis
  proof cases
    case 1
    with rd step show ?thesis by (auto simp: crlf_read_def run_refines_def s1_def)
  next
    case 2
    then have "feed (dec s) (hs_raw s) = Inr (dec s1, [])" "hs_raw s1 = []"
      using rd by (simp_all add: crlf_read_def s1_def dec_def)
    with 2 step ok(2) show ?thesis by (auto simp: run_refines_def s1_def)
  next
    case 3
    then obtain a where a: "a \<noteq> []" "hs_raw s = a @ hs_raw s2" "feed (dec s) a = Inr (dec s2, [])"
      using rd by (auto simp: crlf_read_def s2_def s1_def dec_def)
    have "chunk_running s2" using feed_keeps [OF a(3)] ok by (simp add: chunk_running_def s2_def s1_def)
    moreover have "rank s2 < rank s" using a(1,2) by (cases a) (auto simp: rank_def s2_def st)
    ultimately obtain res where "process_chunked s2 [] cap = Some res" "run_refines s2 cap res"
      using IH by blast
    with run_refines_step [OF a(2,3)] step 3 show ?thesis by auto
  qed
qed

lemma process_chunked_run:
  "chunk_running s \<Longrightarrow> 0 < cap \<Longrightarrow> \<exists>res. process_chunked s [] cap = Some res \<and> run_refines s cap res"
proof (induction "rank s" arbitrary: s rule: less_induct)
  case less
  note IH = less.hyps [OF _ _ less.prems(2)]
  show ?case
  proof (cases "hs_chunk_state s")
    case CHUNK_DATA
    with less.prems show ?thesis by (intro chunk_data_run)
  next
    case CHUNK_DATA_CRLF
    then show ?thesis by (rule chunk_crlf_run [OF less.prems(1) _ IH])
  next
    case CHUNK_SIZE
    then show ?thesis by (intro chunk_line_run [OF less.prems(1) _ IH]) simp_all
  next
    case CHUNK_TRAILERS
    then show ?thesis by (intro chunk_line_run [OF less.prems(1) _ IH]) simp_all
  qed
qed

lemma until_close_run:
  assumes "hs_body_mode s = BODY_UNTIL_CLOSE" "\<not> hs_eof s" "0 < cap"
  shows "\<exists>res. ducknng_http_stream_process s [] cap = Some res \<and> run_refines s cap res"
proof -
  define n where "n = min (length (hs_raw s)) cap"
  define s1 where "s1 = s\<lparr>hs_raw := drop n (hs_raw s)\<rparr>"
  have step: "ducknng_http_stream_process s [] cap =
      (if n > 0 then Some (Inr (1, False), s1, take n (hs_raw s)) else Some (Inr (0, False), s, []))"
    using assms(1,2) by (simp add: ducknng_http_stream_process_def Let_def n_def s1_def)
  show ?thesis
  proof (cases "n = 0")
    case True
    then have "hs_raw s = []" using assms(3) by (auto simp: n_def min_def split: if_splits)
    with step True assms(2) show ?thesis by (auto simp: run_refines_def)
  next
    case False
    have "feed (dec s) (take n (hs_raw s)) = Inr (dec s1, take n (hs_raw s))"
      using feed_until_close [of "dec s"] assms(1,2) by (simp add: s1_def dec_def)
    moreover have "hs_raw s = take n (hs_raw s) @ hs_raw s1" by (simp add: s1_def)
    moreover have "take n (hs_raw s) \<noteq> []" "length (take n (hs_raw s)) \<le> cap"
      using False by (auto simp: n_def)
    ultimately show ?thesis using step False unfolding run_refines_def by fastforce
  qed
qed

lemma content_length_run:
  assumes "hs_body_mode s = BODY_CONTENT_LENGTH" "\<not> hs_eof s" "dec_ok s" "0 < cap"
  shows "\<exists>res. ducknng_http_stream_process s [] cap = Some res \<and> run_refines s cap res"
proof -
  let ?m = "hs_content_remaining s"
  define n where "n = ducknng_http_stream_min3 (length (hs_raw s)) cap ?m"
  define s1 where "s1 = s\<lparr>hs_raw := drop n (hs_raw s), hs_content_remaining := ?m - of_nat n\<rparr>"
  define s2 where "s2 = (if hs_content_remaining s1 = 0 then s1\<lparr>hs_eof := True\<rparr> else s1)"
  have m: "?m \<noteq> 0" using assms(1-3) by (simp add: dec_ok_def)
  have n: "n \<le> length (hs_raw s)" "n \<le> cap" "n \<le> unat ?m" and n0: "n = 0 \<longleftrightarrow> hs_raw s = []"
    using min3_bounds [of "length (hs_raw s)" cap ?m] m assms(4) by (simp_all add: n_def)
  have f: "feed (dec s) (take n (hs_raw s)) = Inr (dec s2, take n (hs_raw s))"
    using feed_length [of "dec s" "take n (hs_raw s)"] assms(1,2) m n by (auto simp: s2_def s1_def dec_def)
  have raw: "hs_raw s = take n (hs_raw s) @ hs_raw s2" by (simp add: s2_def s1_def)
  have step: "ducknng_http_stream_process s [] cap = (let out = take n (hs_raw s) in
      if length out > 0 then Some (Inr (1, False), s2, out)
      else if hs_eof s2 then Some (Inr (1, True), s2, out) else Some (Inr (0, False), s2, out))"
    unfolding ducknng_http_stream_process_def n_def s1_def s2_def Let_def
    by (simp only: assms(1,2) if_False http_stream_body_mode.case append_Nil list.size(3) diff_zero)
  show ?thesis
  proof (cases "n = 0")
    case True
    then have "hs_raw s2 = []" "\<not> hs_eof s2" using n0 m assms(2) by (simp_all add: s2_def s1_def)
    moreover from this have "ducknng_http_stream_process s [] cap = Some (Inr (0, False), s2, [])"
      unfolding step using True by simp
    ultimately show ?thesis using f raw True by (auto simp: run_refines_def)
  next
    case False
    then have ne: "take n (hs_raw s) \<noteq> []" "length (take n (hs_raw s)) \<le> cap" using n by auto
    then have "ducknng_http_stream_process s [] cap = Some (Inr (1, False), s2, take n (hs_raw s))"
      unfolding step by (simp add: Let_def)
    with f raw ne show ?thesis unfolding run_refines_def by fastforce
  qed
qed

lemma process_run:
  assumes "dec_ok s" "0 < cap"
  shows "\<exists>res. ducknng_http_stream_process s [] cap = Some res \<and> run_refines s cap res"
proof (cases "hs_eof s")
  case True
  then show ?thesis by (simp add: ducknng_http_stream_process_def run_refines_def)
next
  case False
  show ?thesis
  proof (cases "hs_body_mode s")
    case BODY_NONE
    with False assms(1) show ?thesis by (simp add: dec_ok_def)
  next
    case BODY_CHUNKED
    then show ?thesis
      using process_chunked_run [of s cap] assms False
      by (simp add: ducknng_http_stream_process_def chunk_running_def)
  next
    case BODY_UNTIL_CLOSE
    then show ?thesis using False assms(2) by (rule until_close_run)
  next
    case BODY_CONTENT_LENGTH
    then show ?thesis using False assms by (rule content_length_run)
  qed
qed

section \<open>A session of receives\<close>

text \<open>
  The state of a receiving session: the stream, all bytes the connection delivered so far, and all
  body bytes handed out so far. A step is a receive that works on buffered bytes or a completed raw
  read of any admissible size, which is only submitted when nothing is buffered, for a receive whose
  size \<open>recv_begin\<close> admitted.
\<close>

type_synonym session_state = "http_stream \<times> bytes \<times> bytes"

definition opened :: "http_stream \<Rightarrow> bool" where
  "opened s \<longleftrightarrow> hs_open s \<and> \<not> hs_failed s \<and> \<not> hs_closing s \<and> hs_raw s = [] \<and> dec_ok s"

definition body_init :: "http_stream \<Rightarrow> session_state \<Rightarrow> bool" where
  "body_init s0 = (\<lambda>(s, delivered, produced). s = s0 \<and> opened s0 \<and> delivered = [] \<and> produced = [])"

inductive body_step :: "session_state \<Rightarrow> session_state \<Rightarrow> bool" where
  recv_begin: "ducknng_http_client_stream_recv_begin s cap = Some (rc, eof, act, err, s', out) \<Longrightarrow>
    body_step (s, del, body) (s', del, body @ out)"
| recv_advance: "hs_open s \<and> \<not> hs_failed s \<and> \<not> hs_closing s \<and> hs_raw s = [] \<Longrightarrow>
    ducknng_http_client_stream_recv_advance s 0 [] False data [] cap = Some (rc, eof, act, err, s', out) \<Longrightarrow>
    0 < length data \<Longrightarrow> length data \<le> DUCKNNG_HTTP_STREAM_READ_BUFFER_SIZE \<Longrightarrow>
    0 < cap \<Longrightarrow> cap \<le> DUCKNNG_HTTP_STREAM_MAX_RECV_BYTES \<Longrightarrow>
    body_step (s, del, body) (s', del @ data, body @ out)"

inductive_cases body_stepE: "body_step (s, del, body) t"

definition body_inv :: "http_stream \<Rightarrow> session_state \<Rightarrow> bool" where
  "body_inv s0 = (\<lambda>(s, del, body).
     opened s0 \<and>
     (if hs_failed s then \<exists>a b e. del = a @ b \<and> feed (dec s0) a = Inl e
      else hs_open s \<and> \<not> hs_closing s \<and>
        (\<exists>a. del = a @ hs_raw s \<and> feed (dec s0) a = Inr (dec s, body))))"

lemma body_inv_ok: "body_inv s0 (s, del, body) \<Longrightarrow> \<not> hs_failed s \<Longrightarrow> dec_ok s"
  using feed_keeps [of "dec s0" _ "dec s" body] by (auto simp: body_inv_def opened_def)

text \<open>A decoder run on unread bytes that extend what was delivered keeps the invariant.\<close>

lemma run_keeps_inv:
  assumes inv: "opened s0" "hs_open s" "\<not> hs_closing s" "\<not> hs_failed s"
    and del: "del = a @ hs_raw s" "feed (dec s0) a = Inr (dec s, body)"
    and run: "run_refines s cap res" and fin: "finish_process res = (rc, eof, act, err, s', out)"
  shows "body_inv s0 (s', del, body @ out)"
proof -
  obtain r s1 out1 where res: "res = (r, s1, out1)" by (cases res)
  have ok: "dec_ok (dec s)" using feed_keeps [OF del(2)] inv(1) by (simp add: opened_def)
  show ?thesis
  proof (cases r)
    case (Inl e)
    then obtain b where b: "hs_raw s = b @ hs_raw s1" "feed (dec s) b = Inl e"
      using run by (auto simp: run_refines_def res)
    have "feed (dec s0) (a @ b) = Inl e" by (simp add: feed_append del(2) b(2))
    moreover have "del = (a @ b) @ hs_raw s1" using del(1) b(1) by simp
    moreover have "s' = s1\<lparr>hs_failed := True\<rparr>" using fin by (simp add: finish_process_def res Inl)
    ultimately have "hs_failed s'" "\<exists>a b e. del = a @ b \<and> feed (dec s0) a = Inl e" by (simp, blast)
    with inv(1) show ?thesis by (simp add: body_inv_def)
  next
    case (Inr p)
    then obtain b where b: "hs_raw s = b @ hs_raw s1" "feed (dec s) b = Inr (dec s1, out1)"
      using run by (cases p) (auto simp: run_refines_def res)
    have f: "feed (dec s0) (a @ b) = Inr (dec s1, body @ out1)" by (simp add: feed_append del(2) b(2))
    have s': "s' = s1" "out = out1" using fin by (auto simp: finish_process_def res Inr split: prod.splits if_splits)
    have "del = (a @ b) @ hs_raw s1" using del(1) b(1) by simp
    with f have ex: "\<exists>a. del = a @ hs_raw s1 \<and> feed (dec s0) a = Inr (dec s1, body @ out1)" by blast
    have "hs_open (dec s1) = hs_open (dec s)" "hs_closing (dec s1) = hs_closing (dec s)"
        "hs_failed (dec s1) = hs_failed (dec s)"
      using feed_keeps [OF b(2) ok] by simp_all
    then have "hs_open s1" "\<not> hs_closing s1" "\<not> hs_failed s1" using inv by (simp_all add: dec_def)
    with inv(1) ex s' show ?thesis by (simp add: body_inv_def)
  qed
qed

lemma body_inv_begin:
  assumes "body_inv s0 (s, del, body)"
    and "ducknng_http_client_stream_recv_begin s cap = Some (rc, eof, act, err, s', out)"
  shows "body_inv s0 (s', del, body @ out)"
proof (cases "cap = 0 \<or> cap > DUCKNNG_HTTP_STREAM_MAX_RECV_BYTES \<or> \<not> hs_open s \<or> hs_failed s \<or> hs_closing s")
  case True
  then have "s' = s" "out = []"
    using assms(2) by (auto simp: ducknng_http_client_stream_recv_begin_def split: if_splits)
  with assms(1) show ?thesis by simp
next
  case False
  then obtain a where a: "opened s0" "del = a @ hs_raw s" "feed (dec s0) a = Inr (dec s, body)"
    using assms(1) by (auto simp: body_inv_def)
  have ok: "dec_ok s" using body_inv_ok [OF assms(1)] False by simp
  have "0 < cap" using False by simp
  from process_run [OF ok this] obtain res where
    res: "ducknng_http_stream_process s [] cap = Some res" "run_refines s cap res" by blast
  then have "finish_process res = (rc, eof, act, err, s', out)"
    using assms(2) False by (simp add: ducknng_http_client_stream_recv_begin_def)
  with run_keeps_inv [OF a(1) _ _ _ a(2,3) res(2)] False show ?thesis by simp
qed

lemma body_inv_advance:
  assumes "body_inv s0 (s, del, body)" "hs_open s \<and> \<not> hs_failed s \<and> \<not> hs_closing s \<and> hs_raw s = []"
    and "ducknng_http_client_stream_recv_advance s 0 [] False data [] cap = Some (rc, eof, act, err, s', out)"
    and "0 < length data" "length data \<le> DUCKNNG_HTTP_STREAM_READ_BUFFER_SIZE"
    and "0 < cap" "cap \<le> DUCKNNG_HTTP_STREAM_MAX_RECV_BYTES"
  shows "body_inv s0 (s', del @ data, body @ out)"
proof -
  let ?s = "s\<lparr>hs_raw := data\<rparr>"
  obtain a where a: "opened s0" "del = a" "feed (dec s0) a = Inr (dec s, body)"
    using assms(1,2) by (auto simp: body_inv_def)
  have d: "dec ?s = dec s" by (simp add: dec_def)
  have ok: "dec_ok ?s" using body_inv_ok [OF assms(1)] assms(2) d dec_ok_dec by metis
  from process_run [OF ok assms(6)] obtain res where
    res: "ducknng_http_stream_process ?s [] cap = Some res" "run_refines ?s cap res" by blast
  then have "finish_process res = (rc, eof, act, err, s', out)"
    using assms(3-7) by (auto simp: ducknng_http_client_stream_recv_advance_def split: if_splits)
  with run_keeps_inv [OF a(1) _ _ _ _ _ res(2), of "del @ data" a body] a assms(2) d
  show ?thesis by simp
qed

interpretation body: machine "body_init s0" body_step "body_inv s0" for s0
proof
  show "body_inv s0 s" if "body_init s0 s" for s
    using that by (auto simp: body_init_def body_inv_def opened_def)
  show "body_inv s0 t" if "body_inv s0 s" "body_step s t" for s t
    using that(2,1) by cases (blast intro: body_inv_begin body_inv_advance)+
qed

section \<open>Well-formed chunked bodies\<close>

text \<open>Characters a size or trailer line may contain, and the value of a hexadecimal number.\<close>

definition line_char :: "u8 \<Rightarrow> bool" where
  "line_char c \<longleftrightarrow> c \<noteq> 13 \<and> c \<noteq> 10 \<and> \<not> ((c < 0x20 \<and> c \<noteq> 9) \<or> c = 0x7f)"

definition line_ok :: "bytes \<Rightarrow> bool" where
  "line_ok l \<longleftrightarrow> length l \<le> DUCKNNG_HTTP_STREAM_LINE_MAX \<and> list_all line_char l"

fun hex_val :: "nat \<Rightarrow> bytes \<Rightarrow> nat option" where
  "hex_val n [] = Some n"
| "hex_val n (c # cs) = do { d \<leftarrow> hex_digit c; hex_val (n * 16 + d) cs }"

text \<open>A chunk: the digits of its size, its extension (empty or starting with a semicolon), its data.\<close>

definition size_line_ok :: "bytes \<Rightarrow> bytes \<Rightarrow> nat \<Rightarrow> bool" where
  "size_line_ok h ext n \<longleftrightarrow> h \<noteq> [] \<and> hex_val 0 h = Some n \<and> (ext = [] \<or> hd ext = 59) \<and> line_ok (h @ ext)"

definition chunk_ok :: "bytes \<times> bytes \<times> bytes \<Rightarrow> bool" where
  "chunk_ok = (\<lambda>(h, ext, data). size_line_ok h ext (length data) \<and> 0 < length data \<and> length data < 2 ^ 64)"

definition chunk_bytes :: "bytes \<times> bytes \<times> bytes \<Rightarrow> bytes" where
  "chunk_bytes = (\<lambda>(h, ext, data). (h @ ext) @ [13, 10] @ data @ [13, 10])"

definition chunk_data :: "bytes \<times> bytes \<times> bytes \<Rightarrow> bytes" where
  "chunk_data = (\<lambda>(h, ext, data). data)"

definition trailer_ok :: "bytes \<Rightarrow> bool" where
  "trailer_ok l \<longleftrightarrow> l \<noteq> [] \<and> line_ok l"

definition chunked_body :: "(bytes \<times> bytes \<times> bytes) list \<Rightarrow> bytes \<times> bytes \<Rightarrow> bytes list \<Rightarrow> bytes" where
  "chunked_body chunks fin trailers = concat (map chunk_bytes chunks) @ (fst fin @ snd fin) @ [13, 10] @
     concat (map (\<lambda>l. l @ [13, 10]) trailers) @ [13, 10]"

text \<open>A decoder between two chunks.\<close>

definition at_size :: "http_stream \<Rightarrow> bool" where
  "at_size s \<longleftrightarrow> hs_body_mode s = BODY_CHUNKED \<and> \<not> hs_eof s \<and> hs_chunk_state s = CHUNK_SIZE \<and>
     hs_line s = [] \<and> \<not> hs_line_saw_cr s"

lemma feed_line_chars:
  "list_all line_char l \<Longrightarrow> length (hs_line s) + length l \<le> DUCKNNG_HTTP_STREAM_LINE_MAX \<Longrightarrow>
   hs_body_mode s = BODY_CHUNKED \<Longrightarrow> \<not> hs_eof s \<Longrightarrow> \<not> hs_line_saw_cr s \<Longrightarrow>
   hs_chunk_state s = CHUNK_SIZE \<or> hs_chunk_state s = CHUNK_TRAILERS \<Longrightarrow>
   feed s l = Inr (s\<lparr>hs_line := hs_line s @ l\<rparr>, [])"
proof (induction l arbitrary: s)
  case (Cons c l)
  have "feed_byte s c = Inr (s\<lparr>hs_line := hs_line s @ [c]\<rparr>, [])"
    using Cons.prems by (auto simp: feed_byte_def line_byte_def emit0_def line_char_def)
  moreover have "feed (s\<lparr>hs_line := hs_line s @ [c]\<rparr>) l = Inr (s\<lparr>hs_line := hs_line s @ c # l\<rparr>, [])"
    using Cons.IH [of "s\<lparr>hs_line := hs_line s @ [c]\<rparr>"] Cons.prems by simp
  ultimately show ?case by simp
qed simp

lemma feed_line:
  assumes "line_ok l" "hs_line s = []" "hs_body_mode s = BODY_CHUNKED" "\<not> hs_eof s" "\<not> hs_line_saw_cr s"
    "hs_chunk_state s = CHUNK_SIZE \<or> hs_chunk_state s = CHUNK_TRAILERS"
  shows "feed s (l @ [13, 10]) = emit0 (line_done (s\<lparr>hs_line := l\<rparr>))"
proof -
  let ?s = "s\<lparr>hs_line := l\<rparr>"
  have l: "feed s l = Inr (?s, [])" using feed_line_chars [of l s] assms by (simp add: line_ok_def)
  have cr: "feed_byte ?s 13 = Inr (?s\<lparr>hs_line_saw_cr := True\<rparr>, [])"
    using assms by (auto simp: feed_byte_def line_byte_def emit0_def)
  have eq: "s\<lparr>hs_line := l, hs_line_saw_cr := False\<rparr> = ?s" using assms(5) by (cases s) simp
  have "feed_byte (?s\<lparr>hs_line_saw_cr := True\<rparr>) 10 =
      emit0 (line_done (s\<lparr>hs_line := l, hs_line_saw_cr := False\<rparr>))"
    using assms by (auto simp: feed_byte_def line_byte_def)
  note lf = this [unfolded eq]
  have "feed s (l @ [13, 10]) = andthen (feed s l) (\<lambda>s. feed s ([13] @ [10]))" by (simp add: feed_append)
  also have "\<dots> = emit0 (line_done ?s)"
    unfolding l feed_append feed_one andthen_simps cr lf
    by (auto simp: emit0_def split: sum.splits)
  finally show ?thesis .
qed

text \<open>The overflow guard of the number parsers is exact.\<close>

lemma digit_guard:
  fixes n :: u64
  assumes "0 < b" "b < 2 ^ 64" "d < b"
  shows "n > (UINT64_MAX - of_nat d) div of_nat b \<longleftrightarrow> 2 ^ 64 \<le> unat n * b + d"
    and "unat n * b + d < 2 ^ 64 \<Longrightarrow> unat (n * of_nat b + of_nat d) = unat n * b + d"
proof -
  have ud: "unat (of_nat d :: u64) = d" "unat (of_nat b :: u64) = b"
    using assms by (simp_all add: unat_of_nat)
  have "(of_nat d :: u64) \<le> UINT64_MAX" using ud(1) assms by (simp add: word_le_nat_alt)
  then have "unat ((UINT64_MAX - of_nat d) div of_nat b) = (2 ^ 64 - 1 - d) div b"
    using ud by (simp add: unat_div unat_sub)
  then have "n > (UINT64_MAX - of_nat d) div of_nat b \<longleftrightarrow> (2 ^ 64 - 1 - d) div b < unat n"
    by (simp add: word_less_nat_alt)
  also have "\<dots> \<longleftrightarrow> 2 ^ 64 - 1 - d < unat n * b" using assms(1) by (rule div_less_iff_less_mult)
  also have "\<dots> \<longleftrightarrow> 2 ^ 64 \<le> unat n * b + d" using assms by auto
  finally show "n > (UINT64_MAX - of_nat d) div of_nat b \<longleftrightarrow> 2 ^ 64 \<le> unat n * b + d" .
  assume lt: "unat n * b + d < 2 ^ 64"
  then have "unat (n * of_nat b) = unat n * b" using ud by (simp add: unat_mult_no_overflow)
  with lt ud show "unat (n * of_nat b + of_nat d) = unat n * b + d" by (simp add: unat_add_no_overflow)
qed

lemma hex_digit_less: "hex_digit c = Some d \<Longrightarrow> d < 16"
  by (auto simp: hex_digit_def Let_def split: if_splits)

lemma hex_val_mono: "hex_val n cs = Some m \<Longrightarrow> n \<le> m"
proof (induction cs arbitrary: n)
  case (Cons c cs)
  then obtain d where "hex_val (n * 16 + d) cs = Some m" by (auto simp: bind_eq_Some_conv)
  with Cons.IH show ?case by fastforce
qed simp

lemma chunk_size_loop_hex:
  "hex_val (unat n) h = Some m \<Longrightarrow> m < 2 ^ 64 \<Longrightarrow> ext = [] \<or> hd ext = 59 \<Longrightarrow>
     chunk_size_loop (h @ ext) n k = Inr (of_nat m, k + length h)"
proof (induction h arbitrary: n k)
  case Nil
  then show ?case by (cases ext) (auto simp: word_unat_eq_iff unat_of_nat)
next
  case (Cons c h)
  then obtain d where d: "hex_digit c = Some d" "hex_val (unat n * 16 + d) h = Some m"
    by (auto simp: bind_eq_Some_conv)
  have lt: "d < 16" "unat n * 16 + d < 2 ^ 64"
    using hex_digit_less [OF d(1)] hex_val_mono [OF d(2)] Cons.prems(2) by simp_all
  have "c \<noteq> 59" using d(1) by (auto simp: hex_digit_def)
  moreover have "\<not> n > (UINT64_MAX - of_nat d) div 16" "unat (n * 16 + of_nat d) = unat n * 16 + d"
    using digit_guard [of 16 d n] lt by simp_all
  ultimately show ?case using Cons.IH [of "n * 16 + of_nat d" "k + 1"] d Cons.prems(2,3) by simp
qed

lemma parse_size_line:
  assumes "size_line_ok h ext n" "n < 2 ^ 64" "hs_line s = h @ ext"
  shows "ducknng_http_stream_parse_chunk_size s = Inr (s\<lparr>hs_chunk_remaining := of_nat n, hs_line := [],
    hs_chunk_state := (if n = 0 then CHUNK_TRAILERS else CHUNK_DATA)\<rparr>)"
proof -
  have "chunk_size_loop (h @ ext) 0 0 = Inr (of_nat n, length h)"
    using chunk_size_loop_hex [of 0 h n ext 0] assms(1,2) by (simp add: size_line_ok_def)
  moreover have "(of_nat n :: u64) = 0 \<longleftrightarrow> n = 0"
    using assms(2) by (simp add: word_unat_eq_iff unat_of_nat)
  ultimately show ?thesis
    using assms(1,3) by (simp add: ducknng_http_stream_parse_chunk_size_def size_line_ok_def)
qed

lemma feed_chunk:
  assumes "at_size s" "chunk_ok c"
  shows "\<exists>s'. feed s (chunk_bytes c) = Inr (s', chunk_data c) \<and> at_size s'"
proof -
  obtain h ext data where c: "c = (h, ext, data)" by (cases c)
  have ok: "size_line_ok h ext (length data)" "data \<noteq> []" "length data < 2 ^ 64" "line_ok (h @ ext)"
    using assms(2) by (auto simp: chunk_ok_def c size_line_ok_def)
  define s1 where "s1 = s\<lparr>hs_chunk_remaining := of_nat (length data), hs_line := [], hs_chunk_state := CHUNK_DATA\<rparr>"
  define s2 where "s2 = s1\<lparr>hs_chunk_remaining := 0, hs_chunk_state := CHUNK_DATA_CRLF, hs_data_crlf_pos := 0\<rparr>"
  define s3 where "s3 = s2\<lparr>hs_data_crlf_pos := 2, hs_chunk_state := CHUNK_SIZE\<rparr>"
  have line: "feed s ((h @ ext) @ [13, 10]) = Inr (s1, [])"
    using feed_line [of "h @ ext" s] ok assms(1) parse_size_line [OF ok(1,3), of "s\<lparr>hs_line := h @ ext\<rparr>"]
    by (auto simp: at_size_def line_done_def emit0_def s1_def)
  have u: "unat (of_nat (length data) :: u64) = length data" using ok(3) by (rule unat_of_nat_u64)
  have dat: "feed s1 data = Inr (s2, data)"
    using feed_data [of s1 data] assms(1) u ok(2)
    by (auto simp: s1_def s2_def at_size_def word_unat_eq_iff)
  have crlf: "feed s2 [13, 10] = Inr (s3, [])"
    using assms(1) by (simp add: s2_def s1_def s3_def at_size_def feed_byte_def crlf_byte_def emit0_def)
  have "feed s (chunk_bytes c) = andthen (feed s ((h @ ext) @ [13, 10])) (\<lambda>s. feed s (data @ [13, 10]))"
    unfolding chunk_bytes_def c by (simp flip: feed_append)
  also have "\<dots> = Inr (s3, data)" unfolding line unfolding feed_append dat andthen_simps crlf by (simp add: dat crlf del: feed.simps)
  finally show ?thesis
    using assms(1) by (auto simp: chunk_data_def c at_size_def s3_def s2_def s1_def)
qed

lemma feed_chunks:
  "at_size s \<Longrightarrow> \<forall>c \<in> set chunks. chunk_ok c \<Longrightarrow>
     \<exists>s'. feed s (concat (map chunk_bytes chunks)) = Inr (s', concat (map chunk_data chunks)) \<and> at_size s'"
proof (induction chunks arbitrary: s)
  case (Cons c chunks)
  obtain s1 where s1: "feed s (chunk_bytes c) = Inr (s1, chunk_data c)" "at_size s1"
    using feed_chunk [OF Cons.prems(1), of c] Cons.prems(2) by auto
  obtain s2 where "feed s1 (concat (map chunk_bytes chunks)) = Inr (s2, concat (map chunk_data chunks))" "at_size s2"
    using Cons.IH [OF s1(2)] Cons.prems(2) by auto
  with s1 show ?case by (simp add: feed_append)
qed simp

lemma feed_trailers:
  "hs_body_mode s = BODY_CHUNKED \<Longrightarrow> \<not> hs_eof s \<Longrightarrow> hs_chunk_state s = CHUNK_TRAILERS \<Longrightarrow>
   hs_line s = [] \<Longrightarrow> \<not> hs_line_saw_cr s \<Longrightarrow> \<forall>l \<in> set trailers. trailer_ok l \<Longrightarrow>
   \<exists>s'. feed s (concat (map (\<lambda>l. l @ [13, 10]) trailers) @ [13, 10]) = Inr (s', []) \<and> hs_eof s'"
proof (induction trailers)
  case Nil
  then have "feed s ([] @ [13, 10]) = emit0 (line_done (s\<lparr>hs_line := []\<rparr>))"
    by (intro feed_line) (simp_all add: line_ok_def)
  with Nil show ?case by (simp add: line_done_def emit0_def del: feed.simps)
next
  case (Cons l trailers)
  then have "feed s (l @ [13, 10]) = emit0 (line_done (s\<lparr>hs_line := l\<rparr>))"
    by (intro feed_line) (simp_all add: trailer_ok_def)
  moreover have "s\<lparr>hs_line := []\<rparr> = s" using Cons.prems(4) by (cases s) simp
  ultimately have l: "feed s (l @ [13, 10]) = Inr (s, [])"
    using Cons.prems by (simp add: line_done_def emit0_def trailer_ok_def del: feed.simps)
  have "feed s (concat (map (\<lambda>l. l @ [13, 10]) (l # trailers)) @ [13, 10]) =
      andthen (feed s (l @ [13, 10])) (\<lambda>s. feed s (concat (map (\<lambda>l. l @ [13, 10]) trailers) @ [13, 10]))"
    by (simp flip: feed_append)
  with l Cons show ?case by (auto simp del: feed.simps)
qed

lemma feed_chunked_body:
  assumes "at_size s" "\<forall>c \<in> set chunks. chunk_ok c" "size_line_ok (fst fin) (snd fin) 0"
    and "\<forall>l \<in> set trailers. trailer_ok l"
  shows "\<exists>s'. feed s (chunked_body chunks fin trailers) = Inr (s', concat (map chunk_data chunks)) \<and> hs_eof s'"
proof -
  obtain s1 where s1: "feed s (concat (map chunk_bytes chunks)) = Inr (s1, concat (map chunk_data chunks))"
      "at_size s1"
    using feed_chunks [OF assms(1,2)] by blast
  define s2 where "s2 = s1\<lparr>hs_chunk_remaining := 0, hs_line := [], hs_chunk_state := CHUNK_TRAILERS\<rparr>"
  have l: "feed s1 ((fst fin @ snd fin) @ [13, 10]) = Inr (s2, [])"
    using feed_line [of "fst fin @ snd fin" s1] s1(2) assms(3)
      parse_size_line [OF assms(3), of "s1\<lparr>hs_line := fst fin @ snd fin\<rparr>"]
    by (auto simp: at_size_def line_done_def emit0_def s2_def size_line_ok_def)
  obtain s3 where s3: "feed s2 (concat (map (\<lambda>l. l @ [13, 10]) trailers) @ [13, 10]) = Inr (s3, [])" "hs_eof s3"
    using feed_trailers [of s2 trailers] s1(2) assms(4) by (auto simp: s2_def at_size_def)
  have "feed s (chunked_body chunks fin trailers) =
      andthen (feed s (concat (map chunk_bytes chunks))) (\<lambda>s. andthen (feed s ((fst fin @ snd fin) @ [13, 10]))
        (\<lambda>s. feed s (concat (map (\<lambda>l. l @ [13, 10]) trailers) @ [13, 10])))"
    unfolding chunked_body_def by (simp flip: feed_append)
  with s1(1) l s3 show ?thesis by (simp del: feed.simps)
qed

text \<open>What an invariant state says about a complete body that feeds to the end of file.\<close>

lemma body_inv_complete:
  assumes "body_inv s0 (s, del, body)" "feed (dec s0) wire = Inr (s', whole)" "hs_eof s'"
    and "del @ future = wire @ beyond"
  shows "\<not> hs_failed s \<and> (\<exists>rest. whole = body @ rest) \<and> (hs_eof s \<longrightarrow> body = whole)"
proof -
  have full: "feed (dec s0) (del @ future) = Inr (s', whole)"
    unfolding assms(4) feed_append assms(2) using feed_eof [OF assms(3)] by simp
  have nf: "\<not> hs_failed s"
  proof
    assume "hs_failed s"
    then obtain a b e where "del = a @ b" "feed (dec s0) a = Inl e"
      using assms(1) by (auto simp: body_inv_def)
    then have "feed (dec s0) (del @ future) = Inl e" by (simp add: feed_append)
    with full show False by simp
  qed
  then obtain a where a: "del = a @ hs_raw s" "feed (dec s0) a = Inr (dec s, body)"
    using assms(1) by (auto simp: body_inv_def)
  have eq: "feed (dec s0) (del @ future) = andthen (Inr (dec s, body)) (\<lambda>s'. feed s' (hs_raw s @ future))"
    unfolding a(1) append_assoc feed_append [of _ a] a(2) by (rule refl)
  then obtain rest where rest: "feed (dec s) (hs_raw s @ future) = Inr (s', rest)" "whole = body @ rest"
    using full by (auto split: sum.splits)
  moreover have "rest = []" if "hs_eof s"
    using rest(1) feed_eof [of "dec s" "hs_raw s @ future"] that by simp
  ultimately show ?thesis using nf by auto
qed

section \<open>Properties\<close>


definition sample_stream :: http_stream where
  "sample_stream = ducknng_http_client_stream_prepare
     \<lparr>hs_open_phase := OPEN_DONE, hs_open := True, hs_body_mode := BODY_CHUNKED\<rparr>"

definition sample_chunk :: "bytes \<times> bytes \<times> bytes" where
  "sample_chunk = ([50], [59, 120], [7, 8])"

lemma sample_stream_ok: "opened sample_stream" "at_size sample_stream"
  by (simp_all add: sample_stream_def ducknng_http_client_stream_prepare_def opened_def dec_ok_def at_size_def)

lemma sample_chunk_ok: "chunk_ok sample_chunk" "size_line_ok [48] [] 0"
  by (simp_all add: sample_chunk_def chunk_ok_def size_line_ok_def hex_digit_def line_ok_def line_char_def
      Let_def)

lemma read_reaches:
  assumes "opened s0" "0 < length data" "length data \<le> DUCKNNG_HTTP_STREAM_READ_BUFFER_SIZE"
  shows "\<exists>s out. reachable (body_init s0) body_step (s, data, out)"
proof -
  have ok: "dec_ok (s0\<lparr>hs_raw := data\<rparr>)"
    using assms(1) dec_ok_dec [of s0] dec_ok_dec [of "s0\<lparr>hs_raw := data\<rparr>"] by (simp add: opened_def dec_def)
  obtain rc eof act err s out where
    "ducknng_http_client_stream_recv_advance s0 0 [] False data [] 1 = Some (rc, eof, act, err, s, out)"
    using process_run [OF ok, of 1] assms(2,3)
    by (auto simp: ducknng_http_client_stream_recv_advance_def) (metis prod.exhaust)
  then have "body_step (s0, [], []) (s, [] @ data, [] @ out)"
    using assms by (intro recv_advance [where cap = 1]) (simp_all add: opened_def)
  moreover have "reachable (body_init s0) body_step (s0, [], [])"
    using assms(1) by (intro reach_init) (simp add: body_init_def)
  ultimately have "reachable (body_init s0) body_step (s, data, out)" by (auto intro: reach_step)
  then show ?thesis by blast
qed


text \<open>
  C20. Every receive returns and makes progress. On an open stream, a receive of 1 to 67108864 bytes
  ends: in an error that marks the stream failed, or asking for input with everything buffered
  consumed and nothing handed out, or at the end of the body, or with between 1 and the requested
  number of bytes.
\<close>

theorem receive_returns:
  assumes "hs_open s" "\<not> hs_failed s" "\<not> hs_closing s" "dec_ok s"
    and "0 < cap" "cap \<le> DUCKNNG_HTTP_STREAM_MAX_RECV_BYTES"
  shows "\<exists>rc eof act err s' out.
    ducknng_http_client_stream_recv_begin s cap = Some (rc, eof, act, err, s', out) \<and>
    (rc = -1 \<and> hs_failed s' \<and> err \<noteq> None \<or>
     rc = 0 \<and> act = ACTION_READ_BODY \<and> hs_raw s' = [] \<and> out = [] \<and> \<not> hs_eof s' \<or>
     rc = 1 \<and> eof \<and> hs_eof s' \<and> out = [] \<or>
     rc = 1 \<and> \<not> eof \<and> 1 \<le> length out \<and> length out \<le> cap)"
proof -
  obtain r s1 out where res: "ducknng_http_stream_process s [] cap = Some (r, s1, out)"
      "run_refines s cap (r, s1, out)"
    using process_run [OF assms(4,5)] by (metis prod_cases3)
  then have b: "ducknng_http_client_stream_recv_begin s cap = Some (finish_process (r, s1, out))"
    using assms by (simp add: ducknng_http_client_stream_recv_begin_def)
  show ?thesis
  proof (cases r)
    case (Inl e)
    with b show ?thesis by (auto simp: finish_process_def)
  next
    case (Inr p)
    with b res(2) show ?thesis
      by (cases p) (auto simp: finish_process_def run_refines_def Suc_le_eq split: if_splits)
  qed
qed

theorem receive_returns_witness:
  "\<exists>rc eof act err s' out.
    ducknng_http_client_stream_recv_begin (sample_stream\<lparr>hs_raw := [49, 13, 10, 7]\<rparr>) 5 =
      Some (rc, eof, act, err, s', out) \<and> rc \<in> {-1, 0, 1}"
proof -
  let ?s = "sample_stream\<lparr>hs_raw := [49, 13, 10, 7]\<rparr>"
  have "dec_ok ?s" by (simp add: dec_ok_def sample_stream_def ducknng_http_client_stream_prepare_def)
  moreover have "hs_open ?s" "\<not> hs_failed ?s" "\<not> hs_closing ?s"
    using sample_stream_ok by (simp_all add: opened_def)
  ultimately obtain rc eof act err s' out where
    "ducknng_http_client_stream_recv_begin ?s 5 = Some (rc, eof, act, err, s', out)" "rc \<in> {-1, 0, 1}"
    using receive_returns [of ?s 5] by simp blast
  then show ?thesis by blast
qed

text \<open>The mathematical value of a string of decimal digits.\<close>

fun dec_val :: "nat \<Rightarrow> string \<Rightarrow> nat option" where
  "dec_val n [] = Some n"
| "dec_val n (c # cs) = (if 48 \<le> code c \<and> code c \<le> 57 then dec_val (n * 10 + (code c - 48)) cs else None)"

lemma dec_val_mono: "dec_val n cs = Some m \<Longrightarrow> n \<le> m"
proof (induction cs arbitrary: n)
  case (Cons c cs)
  then have "n * 10 + (code c - 48) \<le> m" by (auto split: if_splits)
  then show ?case by simp
qed simp

lemma content_length_loop_exact:
  "content_length_loop cs n = Inr v \<longleftrightarrow> (\<exists>m. dec_val (unat n) cs = Some m \<and> m < 2 ^ 64 \<and> v = of_nat m)"
proof (induction cs arbitrary: n)
  case Nil
  show ?case using unat_u64_less [of n] by auto
next
  case (Cons c cs)
  let ?d = "code c - 48"
  show ?case
  proof (cases "48 \<le> code c \<and> code c \<le> 57")
    case False
    then show ?thesis by auto
  next
    case True
    note g = digit_guard [of 10 ?d n]
    have d: "?d < 10" using True by arith
    show ?thesis
    proof (cases "unat n * 10 + ?d < 2 ^ 64")
      case lt: True
      then have "\<not> n > (UINT64_MAX - of_nat ?d) div 10" "unat (n * 10 + of_nat ?d) = unat n * 10 + ?d"
        using g d by simp_all
      then show ?thesis using Cons.IH [of "n * 10 + of_nat ?d"] True by (auto simp: Let_def not_less)
    next
      case False
      then have "n > (UINT64_MAX - of_nat ?d) div 10" using g d by simp
      moreover have "\<not> (\<exists>m. dec_val (unat n * 10 + ?d) cs = Some m \<and> m < 2 ^ 64)"
        using False dec_val_mono [of "unat n * 10 + ?d" cs] by fastforce
      ultimately show ?thesis using True by (auto simp: Let_def)
    qed
  qed
qed

text \<open>
  A Content-Length is accepted exactly when it is a non-empty string of decimal digits whose
  value is below \<open>2 ^ 64\<close>, and then the result is that value: no header value wraps around.
\<close>

theorem content_length_exact:
  "ducknng_http_stream_parse_content_length val = Inr v \<longleftrightarrow>
     (\<exists>c cs m. val = Some (c # cs) \<and> dec_val 0 (c # cs) = Some m \<and> m < 2 ^ 64 \<and> v = of_nat m)"
proof (cases "nonempty val")
  case False
  then show ?thesis by (auto simp: ducknng_http_stream_parse_content_length_def)
next
  case True
  then obtain c cs where val: "val = Some (c # cs)" using nonempty_cases by blast
  then show ?thesis
    using content_length_loop_exact [of "c # cs" 0 v]
    by (simp add: ducknng_http_stream_parse_content_length_def del: content_length_loop.simps dec_val.simps)
qed

end
