(* ===== verification/Limits.thy ===== *)
theory Limits
  imports Checked Interfaces
begin

text \<open>
  Per-service and per-peer limits (\<open>ducknng_service.c\<close>): requests in flight, reply-byte quotas and
  the sliding window of session opens.

  The service's fields that these operations use form the record \<open>svc_limits\<close>; the session table
  extends it. Every operation runs under the service mutex from its first read to its last write, so
  operations are atomic and an execution is a sequence of them. Counters of live requests and
  table entries are natural numbers. The ring buffer of open times always starts at index 0 (the head is
  only ever set to 0), so it is the list of its valid entries. Allocations are the parameter \<open>ok\<close>,
  indexed by the order in which an operation makes them.
\<close>

record peer_state =
  ps_identity :: string
  ps_inflight :: nat
  ps_reply_bytes :: u64
  ps_open_times :: "u64 list"
  ps_open_cap :: nat

record svc_limits =
  shutting_down :: bool
  max_open_sessions :: u64
  max_active_pipes :: u64
  max_inflight_requests :: u64
  max_sessions_per_peer_identity :: u64
  max_inflight_per_peer_identity :: u64
  max_reply_bytes_per_peer_identity :: u64
  max_session_open_rate_per_peer_identity :: u64
  inflight_request_count :: nat
  peer_identity_states :: "peer_state list"
  peer_identity_state_cap :: nat

section \<open>Operations\<close>

definition ducknng_service_set_limits ::
  "'a svc_limits_scheme \<Rightarrow> u64 \<Rightarrow> u64 \<Rightarrow> u64 \<Rightarrow> u64 \<Rightarrow> u64 \<Rightarrow> u64 \<Rightarrow> u64 \<Rightarrow> 'a svc_limits_scheme" where
  "ducknng_service_set_limits svc open_sessions pipes inflight peer_sessions peer_inflight
       peer_reply_bytes peer_open_rate =
     svc\<lparr>max_open_sessions := open_sessions,
         max_active_pipes := pipes,
         max_inflight_requests := inflight,
         max_sessions_per_peer_identity := peer_sessions,
         max_inflight_per_peer_identity := peer_inflight,
         max_reply_bytes_per_peer_identity := peer_reply_bytes,
         max_session_open_rate_per_peer_identity := peer_open_rate\<rparr>"

definition fresh_peer :: "string \<Rightarrow> peer_state" where
  "fresh_peer identity = \<lparr> ps_identity = identity, ps_inflight = 0, ps_reply_bytes = 0,
     ps_open_times = [], ps_open_cap = 0 \<rparr>"

text \<open>The index of the peer's slot; \<open>None\<close> for a missing identity or a failed allocation.\<close>

definition ducknng_service_find_or_create_peer_identity_locked ::
  "(nat \<Rightarrow> bool) \<Rightarrow> 'a svc_limits_scheme \<Rightarrow> cstring \<Rightarrow> nat option \<times> 'a svc_limits_scheme" where
  "ducknng_service_find_or_create_peer_identity_locked ok svc identity =
     (if \<not> nonempty identity then (None, svc)
      else case find_idx (\<lambda>p. ps_identity p = deref identity) (peer_identity_states svc) of
        Some i \<Rightarrow> (Some i, svc)
      | None \<Rightarrow>
          let n = length (peer_identity_states svc);
              grow = (n = peer_identity_state_cap svc);
              cap = peer_identity_state_cap svc
          in if grow \<and> \<not> ok 0 then (None, svc)
             else
               let svc = (if grow then svc\<lparr>peer_identity_state_cap := (if cap \<noteq> 0 then cap * 2 else 8)\<rparr>
                          else svc)
               in if \<not> ok 1 then (None, svc)
                  else (Some n, svc\<lparr>peer_identity_states :=
                          peer_identity_states svc @ [fresh_peer (deref identity)]\<rparr>))"

definition ducknng_service_clear_peer_identity_states :: "'a svc_limits_scheme \<Rightarrow> 'a svc_limits_scheme" where
  "ducknng_service_clear_peer_identity_states svc =
     svc\<lparr>peer_identity_states := [], peer_identity_state_cap := 0\<rparr>"

definition set_peer :: "'a svc_limits_scheme \<Rightarrow> nat \<Rightarrow> peer_state \<Rightarrow> 'a svc_limits_scheme" where
  "set_peer svc i p = svc\<lparr>peer_identity_states := (peer_identity_states svc)[i := p]\<rparr>"

text \<open>\<open>Some err\<close> is the return code \<open>-1\<close>, \<open>None\<close> is 0. A failed allocation allows the session.\<close>

definition ducknng_service_check_and_record_session_open_locked ::
  "(nat \<Rightarrow> bool) \<Rightarrow> 'a svc_limits_scheme \<Rightarrow> cstring \<Rightarrow> u64 \<Rightarrow> cstring \<times> 'a svc_limits_scheme" where
  "ducknng_service_check_and_record_session_open_locked ok svc identity now_ms =
     (if \<not> nonempty identity \<or> max_session_open_rate_per_peer_identity svc = 0 then (None, svc)
      else case ducknng_service_find_or_create_peer_identity_locked ok svc identity of
        (None, svc) \<Rightarrow> (None, svc)
      | (Some i, svc) \<Rightarrow>
          let p = peer_identity_states svc ! i;
              p = p\<lparr>ps_open_times := filter (\<lambda>t. t + 1000 > now_ms) (ps_open_times p)\<rparr>
          in if length (ps_open_times p) \<ge> unat (max_session_open_rate_per_peer_identity svc)
             then (Some ''ducknng: session open rate per peer identity exceeded'', set_peer svc i p)
             else if length (ps_open_times p) = ps_open_cap p \<and> \<not> ok 2 then (None, set_peer svc i p)
             else
               let p = (if length (ps_open_times p) = ps_open_cap p
                        then p\<lparr>ps_open_cap := (if ps_open_cap p \<noteq> 0 then ps_open_cap p * 2 else 8)\<rparr>
                        else p)
               in (None, set_peer svc i (p\<lparr>ps_open_times := ps_open_times p @ [now_ms]\<rparr>)))"

definition ducknng_service_begin_request ::
  "(nat \<Rightarrow> bool) \<Rightarrow> 'a svc_limits_scheme \<Rightarrow> cstring \<Rightarrow> cstring \<times> 'a svc_limits_scheme" where
  "ducknng_service_begin_request ok svc caller_identity =
     (if shutting_down svc then (Some ''ducknng: service is shutting down'', svc)
      else if max_inflight_requests svc > 0 \<and> inflight_request_count svc \<ge> unat (max_inflight_requests svc)
      then (Some ''ducknng: max inflight requests exceeded'', svc)
      else
        let (err, svc) =
          (if nonempty caller_identity then
             (case ducknng_service_find_or_create_peer_identity_locked ok svc caller_identity of
                (None, svc) \<Rightarrow> (None, svc)
              | (Some i, svc) \<Rightarrow>
                  let p = peer_identity_states svc ! i in
                  if max_inflight_per_peer_identity svc > 0 \<and>
                     ps_inflight p \<ge> unat (max_inflight_per_peer_identity svc)
                  then (Some ''ducknng: max inflight requests per peer identity exceeded'', svc)
                  else if max_reply_bytes_per_peer_identity svc > 0 \<and>
                     ps_reply_bytes p \<ge> max_reply_bytes_per_peer_identity svc
                  then (Some ''ducknng: reply byte quota for peer identity exceeded'', svc)
                  else (None, set_peer svc i (p\<lparr>ps_inflight := ps_inflight p + 1\<rparr>)))
           else (None, svc))
        in case err of
             Some e \<Rightarrow> (Some e, svc)
           | None \<Rightarrow> (None, svc\<lparr>inflight_request_count := inflight_request_count svc + 1\<rparr>))"

definition ducknng_service_end_request ::
  "'a svc_limits_scheme \<Rightarrow> cstring \<Rightarrow> size_t \<Rightarrow> 'a svc_limits_scheme" where
  "ducknng_service_end_request svc caller_identity reply_bytes =
     (let svc = svc\<lparr>inflight_request_count :=
            (if inflight_request_count svc > 0 then inflight_request_count svc - 1
             else inflight_request_count svc)\<rparr>
      in if nonempty caller_identity then
           (case find_idx (\<lambda>p. ps_identity p = deref caller_identity) (peer_identity_states svc) of
              None \<Rightarrow> svc
            | Some i \<Rightarrow>
                let p = peer_identity_states svc ! i
                in set_peer svc i (p\<lparr>ps_inflight := (if ps_inflight p > 0 then ps_inflight p - 1 else ps_inflight p),
                                    ps_reply_bytes := ps_reply_bytes p + reply_bytes\<rparr>))
         else svc)"

section \<open>The table of peers\<close>

text \<open>Identities are unique; \<open>peer\<close> reads an identity's slot.\<close>

definition peers_ok :: "'a svc_limits_scheme \<Rightarrow> bool" where
  "peers_ok svc \<longleftrightarrow> distinct (map ps_identity (peer_identity_states svc))"

definition peer :: "'a svc_limits_scheme \<Rightarrow> string \<Rightarrow> peer_state option" where
  "peer svc identity = find (\<lambda>p. ps_identity p = identity) (peer_identity_states svc)"

definition inflight_of :: "'a svc_limits_scheme \<Rightarrow> string \<Rightarrow> nat" where
  "inflight_of svc identity = (case peer svc identity of None \<Rightarrow> 0 | Some p \<Rightarrow> ps_inflight p)"

lemma find_find_idx: "find P xs = map_option (nth xs) (find_idx P xs)"
  by (induction xs) (auto simp: option.map_comp o_def)

lemma peer_find_idx:
  "peer svc identity = map_option (nth (peer_identity_states svc))
     (find_idx (\<lambda>p. ps_identity p = identity) (peer_identity_states svc))"
  by (simp add: peer_def find_find_idx)

lemma find_idx_distinct:
  assumes "distinct (map f xs)" "i < length xs"
  shows "find_idx (\<lambda>x. f x = k) xs = Some i \<longleftrightarrow> f (xs ! i) = k"
proof
  assume "find_idx (\<lambda>x. f x = k) xs = Some i"
  then show "f (xs ! i) = k" by (rule find_idx_SomeD(2))
next
  assume k: "f (xs ! i) = k"
  have "f (xs ! j) \<noteq> k" if "j < i" for j
    using that assms k nth_eq_iff_index_eq [of "map f xs" j i] by auto
  with assms(2) k show "find_idx (\<lambda>x. f x = k) xs = Some i" by (simp add: find_idx_Some)
qed

lemma find_idx_update:
  assumes "i < length xs" "f y = f (xs ! i)"
  shows "find_idx (\<lambda>x. f x = k) (xs[i := y]) = find_idx (\<lambda>x. f x = k) xs"
  using assms by (induction xs arbitrary: i) (auto split: nat.splits)

lemma peer_set_peer:
  assumes "peers_ok svc" "i < length (peer_identity_states svc)"
    and "ps_identity p = ps_identity (peer_identity_states svc ! i)"
  shows "peer (set_peer svc i p) = (peer svc)(ps_identity p := Some p)" "peers_ok (set_peer svc i p)"
proof -
  let ?ps = "peer_identity_states svc"
  show "peers_ok (set_peer svc i p)"
    using assms by (simp add: peers_ok_def set_peer_def map_update) (metis list_update_id nth_map)
  show "peer (set_peer svc i p) = (peer svc)(ps_identity p := Some p)"
  proof
    fix k
    have idx: "find_idx (\<lambda>p. ps_identity p = k) (?ps[i := p]) = find_idx (\<lambda>p. ps_identity p = k) ?ps"
      using assms by (intro find_idx_update) simp_all
    show "peer (set_peer svc i p) k = ((peer svc)(ps_identity p := Some p)) k"
    proof (cases "k = ps_identity p")
      case True
      then have "find_idx (\<lambda>p. ps_identity p = k) ?ps = Some i"
        using find_idx_distinct [of ps_identity ?ps i k] assms by (simp add: peers_ok_def)
      with True idx assms(2) show ?thesis by (simp add: peer_find_idx set_peer_def)
    next
      case False
      have "j \<noteq> i" if "find_idx (\<lambda>p. ps_identity p = k) ?ps = Some j" for j
        using find_idx_SomeD(2) [OF that] False assms(3) by auto
      then show ?thesis
        using False idx by (cases "find_idx (\<lambda>p. ps_identity p = k) ?ps") (simp_all add: peer_find_idx set_peer_def del: find_idx_None)
    qed
  qed
qed

text \<open>Finding or creating a slot, when allocations succeed.\<close>

lemma find_or_create:
  fixes svc :: "'a svc_limits_scheme"
  assumes "peers_ok svc" "who \<noteq> []" "\<And>n. ok n"
  obtains i svc' where
    "ducknng_service_find_or_create_peer_identity_locked ok svc (Some who) = (Some i, svc')"
    "i < length (peer_identity_states svc')" "peers_ok svc'"
    "peer_identity_states svc' ! i =
       (case peer svc (who) of None \<Rightarrow> fresh_peer (who) | Some p \<Rightarrow> p)"
    "ps_identity (peer_identity_states svc' ! i) = who"
    "\<And>k. k \<noteq> who \<Longrightarrow> peer svc' k = peer svc k"
    "\<exists>ps c. svc' = svc\<lparr>peer_identity_states := ps, peer_identity_state_cap := c\<rparr>"
proof (cases "find_idx (\<lambda>p. ps_identity p = who) (peer_identity_states svc)")
  case (Some i)
  show thesis
  proof (rule that [of i svc])
    show "ducknng_service_find_or_create_peer_identity_locked ok svc (Some who) = (Some i, svc)"
      using Some assms(2) by (simp add: ducknng_service_find_or_create_peer_identity_locked_def)
    show "i < length (peer_identity_states svc)"
      "ps_identity (peer_identity_states svc ! i) = who"
      using find_idx_SomeD [OF Some] by simp_all
    show "peer_identity_states svc ! i =
       (case peer svc (who) of None \<Rightarrow> fresh_peer (who) | Some p \<Rightarrow> p)"
      using Some by (simp add: peer_find_idx)
    show "\<exists>ps c. svc = svc\<lparr>peer_identity_states := ps, peer_identity_state_cap := c\<rparr>"
      by (rule exI [of _ "peer_identity_states svc"], rule exI [of _ "peer_identity_state_cap svc"]) simp
  qed (use assms(1) in simp_all)
next
  case None
  let ?n = "length (peer_identity_states svc)" and ?p = "fresh_peer (who)"
  define svc' where "svc' = svc\<lparr>peer_identity_states := peer_identity_states svc @ [?p],
      peer_identity_state_cap := (if ?n = peer_identity_state_cap svc
        then (if ?n \<noteq> 0 then ?n * 2 else 8) else peer_identity_state_cap svc)\<rparr>"
  have absent: "\<forall>p \<in> set (peer_identity_states svc). ps_identity p \<noteq> who"
    using None by simp
  show thesis
  proof (rule that [of ?n svc'])
    show "ducknng_service_find_or_create_peer_identity_locked ok svc (Some who) = (Some ?n, svc')"
      using None assms(2,3)
      by (auto simp: ducknng_service_find_or_create_peer_identity_locked_def svc'_def Let_def
          simp del: find_idx_None)
    show "?n < length (peer_identity_states svc')" by (simp add: svc'_def)
    show "peers_ok svc'" using assms(1) absent by (auto simp: peers_ok_def svc'_def fresh_peer_def)
    show "peer_identity_states svc' ! ?n =
       (case peer svc (who) of None \<Rightarrow> ?p | Some p \<Rightarrow> p)"
      using None by (simp add: svc'_def peer_find_idx del: find_idx_None)
    show "ps_identity (peer_identity_states svc' ! ?n) = who"
      by (simp add: svc'_def fresh_peer_def)
    show "peer svc' k = peer svc k" if "k \<noteq> who" for k
    proof -
      have "find (\<lambda>p. ps_identity p = k) (xs @ [?p]) = find (\<lambda>p. ps_identity p = k) xs" for xs
        using that by (induction xs) (auto simp: fresh_peer_def)
      then show ?thesis by (simp add: peer_def svc'_def)
    qed
    show "\<exists>ps c. svc' = svc\<lparr>peer_identity_states := ps, peer_identity_state_cap := c\<rparr>"
      unfolding svc'_def by blast
  qed
qed

section \<open>Requests in flight\<close>

text \<open>
  The state of an execution: the service, and the identities of the requests that have begun and not
  ended. A step begins a request (admitted or refused), ends one of the active ones, or changes the
  limits. Allocations succeed.
\<close>

type_synonym inflight_state = "svc_limits \<times> cstring list"

definition alloc_ok :: "nat \<Rightarrow> bool" where
  "alloc_ok n = True"

lemma alloc_ok [simp]: "alloc_ok n"
  by (simp add: alloc_ok_def)

inductive inflight_step :: "inflight_state \<Rightarrow> inflight_state \<Rightarrow> bool" where
  begin_ok: "ducknng_service_begin_request alloc_ok svc caller = (None, svc') \<Longrightarrow>
    inflight_step (svc, active) (svc', caller # active)"
| begin_refused: "ducknng_service_begin_request alloc_ok svc caller = (Some err, svc') \<Longrightarrow>
    inflight_step (svc, active) (svc', active)"
| request_end: "caller \<in> set active \<Longrightarrow>
    inflight_step (svc, active) (ducknng_service_end_request svc caller n, remove1 caller active)"
| limits: "inflight_step (svc, active) (ducknng_service_set_limits svc a b c d e f g, active)"

definition inflight_init :: "inflight_state \<Rightarrow> bool" where
  "inflight_init = (\<lambda>(svc, active). active = [] \<and> inflight_request_count svc = 0 \<and>
     peer_identity_states svc = [])"

text \<open>The counters are exact.\<close>

definition inflight_inv :: "inflight_state \<Rightarrow> bool" where
  "inflight_inv = (\<lambda>(svc, active). peers_ok svc \<and> inflight_request_count svc = length active \<and>
     (\<forall>k. k \<noteq> [] \<longrightarrow> inflight_of svc k = count_list active (Some k)))"

lemma peer_inflight_count [simp]: "peer (svc\<lparr>inflight_request_count := n\<rparr>) = peer svc"
  "peers_ok (svc\<lparr>inflight_request_count := n\<rparr>) = peers_ok svc"
  "inflight_of (svc\<lparr>inflight_request_count := n\<rparr>) = inflight_of svc"
  by (simp_all add: peer_def [abs_def] peers_ok_def inflight_of_def [abs_def])

lemma begin_request_cases:
  assumes "peers_ok svc" "ducknng_service_begin_request alloc_ok svc caller = (err, svc')"
  shows "peers_ok svc' \<and> inflight_request_count svc' =
      inflight_request_count svc + (if err = None then 1 else 0) \<and>
    (\<forall>k. k \<noteq> [] \<longrightarrow> inflight_of svc' k =
       inflight_of svc k + (if err = None \<and> caller = Some k then 1 else 0)) \<and>
    (err = None \<longrightarrow>
      (max_inflight_requests svc > 0 \<longrightarrow> inflight_request_count svc' \<le> unat (max_inflight_requests svc)) \<and>
      (\<forall>k. caller = Some k \<and> k \<noteq> [] \<and> max_inflight_per_peer_identity svc > 0 \<longrightarrow>
         inflight_of svc' k \<le> unat (max_inflight_per_peer_identity svc)))"
proof (cases "nonempty caller")
  case False
  then have "\<not> (caller = Some k \<and> k \<noteq> [])" for k by auto
  with False assms show ?thesis
    by (auto simp: ducknng_service_begin_request_def Let_def split: if_splits)
next
  case True
  then obtain id where id: "caller = Some id" "id \<noteq> []" by (cases caller) auto
  obtain i s1 where f: "ducknng_service_find_or_create_peer_identity_locked alloc_ok svc (Some id) = (Some i, s1)"
      "i < length (peer_identity_states s1)" "peers_ok s1"
      "peer_identity_states s1 ! i = (case peer svc id of None \<Rightarrow> fresh_peer id | Some p \<Rightarrow> p)"
      "ps_identity (peer_identity_states s1 ! i) = id" "\<And>k. k \<noteq> id \<Longrightarrow> peer s1 k = peer svc k"
      "\<exists>ps c. s1 = svc\<lparr>peer_identity_states := ps, peer_identity_state_cap := c\<rparr>"
    by (rule find_or_create [OF assms(1) id(2) alloc_ok]) (rule that)
  let ?p = "peer_identity_states s1 ! i"
  let ?p' = "?p\<lparr>ps_inflight := Suc (ps_inflight ?p)\<rparr>"
  have same: "inflight_request_count s1 = inflight_request_count svc"
      "max_inflight_per_peer_identity s1 = max_inflight_per_peer_identity svc"
    using f(7) by auto
  have pid: "ps_inflight ?p = inflight_of svc id"
    using f(4) by (auto simp: inflight_of_def fresh_peer_def split: option.splits)
  have in1: "inflight_of s1 k = inflight_of svc k" for k
  proof (cases "k = id")
    case True
    have "find_idx (\<lambda>p. ps_identity p = id) (peer_identity_states s1) = Some i"
      using find_idx_distinct [of ps_identity "peer_identity_states s1" i id] f(2,3,5) by (simp add: peers_ok_def)
    then have "peer s1 id = Some ?p" by (simp add: peer_find_idx)
    then have "inflight_of s1 id = ps_inflight ?p" by (simp add: inflight_of_def)
    with True pid show ?thesis by simp
  qed (use f(6) in \<open>simp add: inflight_of_def\<close>)
  have ps: "peer (set_peer s1 i ?p') = (peer s1)(id := Some ?p')" "peers_ok (set_peer s1 i ?p')"
    using peer_set_peer [OF f(3,2), of ?p'] f(5) by simp_all
  have in2: "inflight_of (set_peer s1 i ?p') k = inflight_of svc k + (if k = id then 1 else 0)" for k
  proof (cases "k = id")
    case True
    have "inflight_of (set_peer s1 i ?p') id = ps_inflight ?p + 1" by (simp add: inflight_of_def ps(1))
    with True pid show ?thesis by simp
  next
    case False
    then have "peer (set_peer s1 i ?p') k = peer s1 k" by (simp add: ps(1))
    then have "inflight_of (set_peer s1 i ?p') k = inflight_of s1 k" by (simp add: inflight_of_def)
    with False in1 show ?thesis by simp
  qed
  let ?s = "(set_peer s1 i ?p')\<lparr>inflight_request_count := inflight_request_count svc + 1\<rparr>"
  define full where "full \<longleftrightarrow> max_inflight_requests svc > 0 \<and>
      inflight_request_count svc \<ge> unat (max_inflight_requests svc)"
  define peer_full where "peer_full \<longleftrightarrow> max_inflight_per_peer_identity svc > 0 \<and>
      ps_inflight ?p \<ge> unat (max_inflight_per_peer_identity svc)"
  have "inflight_request_count (set_peer s1 i ?p') = inflight_request_count svc"
    using same(1) by (simp add: set_peer_def)
  then have "ducknng_service_begin_request alloc_ok svc caller =
      (if shutting_down svc then (Some ''ducknng: service is shutting down'', svc)
       else if full then (Some ''ducknng: max inflight requests exceeded'', svc)
       else if peer_full then (Some ''ducknng: max inflight requests per peer identity exceeded'', s1)
       else if max_reply_bytes_per_peer_identity s1 > 0 \<and> ps_reply_bytes ?p \<ge> max_reply_bytes_per_peer_identity s1
       then (Some ''ducknng: reply byte quota for peer identity exceeded'', s1) else (None, ?s))"
    unfolding ducknng_service_begin_request_def full_def peer_full_def using f(1) id same(2)
    by (simp add: Let_def)
  then consider (refused) "err \<noteq> None" "svc' = svc \<or> svc' = s1"
    | (admitted) "err = None" "svc' = ?s" "\<not> full" "\<not> peer_full"
    using assms(2) by (auto split: if_splits)
  then show ?thesis
  proof cases
    case refused
    then show ?thesis using assms(1) f(3) same(1) in1 by auto
  next
    case admitted
    then have "inflight_of svc' k = inflight_of svc k + (if k = id then 1 else 0)" for k using in2 by simp
    moreover have "peers_ok svc'" "inflight_request_count svc' = inflight_request_count svc + 1"
      using admitted(2) ps(2) by simp_all
    ultimately show ?thesis using admitted(1,3,4) pid id unfolding full_def peer_full_def by auto
  qed
qed


lemma end_request_inflight:
  assumes "inflight_inv (svc, active)" "caller \<in> set active"
  shows "inflight_inv (ducknng_service_end_request svc caller n, remove1 caller active)"
proof -
  let ?c = "svc\<lparr>inflight_request_count := length active - 1\<rparr>"
  have inv: "peers_ok svc" "inflight_request_count svc = length active"
      "\<And>k. k \<noteq> [] \<Longrightarrow> inflight_of svc k = count_list active (Some k)"
    using assms(1) by (simp_all add: inflight_inv_def)
  have len: "length (remove1 caller active) = length active - 1" "length active > 0"
    using assms(2) by (auto simp: length_remove1)
  have cnt: "count_list (remove1 caller active) (Some k) =
      count_list active (Some k) - (if caller = Some k then 1 else 0)" for k
    using assms(2) by (auto simp: count_list_eq_length_filter filter_remove1 length_remove1)
  show ?thesis
  proof (cases "\<exists>id. caller = Some id \<and> id \<noteq> []")
    case False
    then have "\<not> nonempty caller" by (cases caller) auto
    then have "ducknng_service_end_request svc caller n = ?c"
      using inv(2) len(2) by (simp add: ducknng_service_end_request_def)
    moreover have "caller \<noteq> Some k" if "k \<noteq> []" for k using False that by auto
    ultimately show ?thesis using inv len(1) cnt by (simp add: inflight_inv_def)
  next
    case True
    then obtain id where id: "caller = Some id" "id \<noteq> []" by blast
    have pos: "inflight_of svc id > 0"
      using inv(3) [OF id(2)] assms(2) id(1) by (metis count_list_0_iff gr0I)
    obtain i where i: "find_idx (\<lambda>p. ps_identity p = id) (peer_identity_states svc) = Some i"
      using pos by (cases "find_idx (\<lambda>p. ps_identity p = id) (peer_identity_states svc)")
        (simp_all add: inflight_of_def peer_find_idx del: find_idx_None)
    let ?p = "peer_identity_states svc ! i"
    let ?p' = "?p\<lparr>ps_inflight := ps_inflight ?p - 1, ps_reply_bytes := ps_reply_bytes ?p + n\<rparr>"
    have "(if 0 < m then m - 1 else m) = m - 1" for m :: nat by simp
    then have "ducknng_service_end_request svc caller n = set_peer ?c i ?p'"
      using inv(2) len(2) id i by (simp add: ducknng_service_end_request_def Let_def)
    moreover have "peer (set_peer ?c i ?p') = (peer svc)(id := Some ?p')" "peers_ok (set_peer ?c i ?p')"
      using peer_set_peer [of ?c i ?p'] inv(1) find_idx_SomeD [OF i] by simp_all
    moreover have "ps_inflight ?p = inflight_of svc id"
      using i by (simp add: inflight_of_def peer_find_idx)
    moreover have "inflight_request_count (set_peer ?c i ?p') = length active - 1"
      by (simp add: set_peer_def)
    ultimately show ?thesis
      using inv(3) cnt len(1) id by (simp add: inflight_inv_def inflight_of_def)
  qed
qed

interpretation inflight: machine inflight_init inflight_step inflight_inv
proof unfold_locales
  fix s assume "inflight_init s"
  then show "inflight_inv s"
    by (auto simp: inflight_init_def inflight_inv_def peers_ok_def inflight_of_def peer_def)
next
  fix s t assume "inflight_inv s" "inflight_step s t"
  from this(2,1) show "inflight_inv t"
  proof (cases rule: inflight_step.cases)
    case (begin_ok svc caller svc' active)
    with \<open>inflight_inv s\<close> begin_request_cases [OF _ begin_ok(3)] show ?thesis
      by (simp add: inflight_inv_def)
  next
    case (begin_refused svc caller err svc' active)
    with \<open>inflight_inv s\<close> begin_request_cases [OF _ begin_refused(3)] show ?thesis
      by (simp add: inflight_inv_def)
  next
    case (request_end caller active svc n)
    with \<open>inflight_inv s\<close> end_request_inflight show ?thesis by simp
  next
    case (limits svc active a b c d e f g)
    with \<open>inflight_inv s\<close> show ?thesis
      by (simp add: inflight_inv_def ducknng_service_set_limits_def peers_ok_def inflight_of_def peer_def)
  qed
qed


definition idle_service :: svc_limits where
  "idle_service = \<lparr> shutting_down = False, max_open_sessions = 0, max_active_pipes = 0,
     max_inflight_requests = 2, max_sessions_per_peer_identity = 0, max_inflight_per_peer_identity = 1,
     max_reply_bytes_per_peer_identity = 0, max_session_open_rate_per_peer_identity = 2,
     inflight_request_count = 0, peer_identity_states = [], peer_identity_state_cap = 0 \<rparr>"



section \<open>The rate of session opens\<close>

definition open_times_of :: "'a svc_limits_scheme \<Rightarrow> string \<Rightarrow> u64 list" where
  "open_times_of svc identity = (case peer svc identity of None \<Rightarrow> [] | Some p \<Rightarrow> ps_open_times p)"

definition recent :: "u64 \<Rightarrow> u64 list \<Rightarrow> u64 list" where
  "recent now_ms ts = filter (\<lambda>t. t + 1000 > now_ms) ts"

lemma check_open_step:
  assumes "peers_ok svc" "who \<noteq> []" "max_session_open_rate_per_peer_identity svc > 0"
    and "ducknng_service_check_and_record_session_open_locked alloc_ok svc (Some who) now_ms = (err, svc')"
  shows "peers_ok svc' \<and>
    max_session_open_rate_per_peer_identity svc' = max_session_open_rate_per_peer_identity svc \<and>
    (err = None \<longleftrightarrow> length (recent now_ms (open_times_of svc who)) <
       unat (max_session_open_rate_per_peer_identity svc)) \<and>
    open_times_of svc' who =
      recent now_ms (open_times_of svc who) @ (if err = None then [now_ms] else [])"
proof -
  obtain i s1 where f: "ducknng_service_find_or_create_peer_identity_locked alloc_ok svc (Some who) = (Some i, s1)"
      "i < length (peer_identity_states s1)" "peers_ok s1"
      "peer_identity_states s1 ! i = (case peer svc who of None \<Rightarrow> fresh_peer who | Some p \<Rightarrow> p)"
      "ps_identity (peer_identity_states s1 ! i) = who"
      "\<exists>ps c. s1 = svc\<lparr>peer_identity_states := ps, peer_identity_state_cap := c\<rparr>"
    by (rule find_or_create [OF assms(1,2) alloc_ok]) (rule that)
  let ?p = "peer_identity_states s1 ! i"
  let ?r = "max_session_open_rate_per_peer_identity svc"
  define w where "w = recent now_ms (open_times_of svc who)"
  have rate: "max_session_open_rate_per_peer_identity s1 = ?r"
    using f(6) by auto
  have times: "filter (\<lambda>t. t + 1000 > now_ms) (ps_open_times ?p) = w"
    using f(4) unfolding w_def by (auto simp: open_times_of_def recent_def fresh_peer_def split: option.splits)
  have "\<exists>q. svc' = set_peer s1 i q \<and> ps_identity q = who \<and>
      (err = None \<longleftrightarrow> length w < unat ?r) \<and> ps_open_times q = w @ (if err = None then [now_ms] else [])"
    using assms(4) f(1,5) assms(2,3) times rate
    by (auto simp: ducknng_service_check_and_record_session_open_locked_def Let_def word_gt_0
        split: if_splits)
  then obtain q where q: "svc' = set_peer s1 i q" "ps_identity q = who"
      "err = None \<longleftrightarrow> length w < unat ?r" "ps_open_times q = w @ (if err = None then [now_ms] else [])"
    by blast
  have "peer svc' = (peer s1)(who := Some q)" "peers_ok svc'"
    using peer_set_peer [OF f(3,2), of q] f(5) q(1,2) by simp_all
  moreover have "max_session_open_rate_per_peer_identity svc' = ?r"
    using rate q(1) by (simp add: set_peer_def)
  ultimately show ?thesis using q(3,4) by (simp add: open_times_of_def w_def)
qed

text \<open>The times at which a sequence of attempts succeeds, and the sliding window it should follow.\<close>

fun accepted_opens :: "svc_limits \<Rightarrow> string \<Rightarrow> u64 list \<Rightarrow> u64 list" where
  "accepted_opens svc who [] = []"
| "accepted_opens svc who (t # ts) =
     (case ducknng_service_check_and_record_session_open_locked alloc_ok svc (Some who) t of
        (None, svc') \<Rightarrow> t # accepted_opens svc' who ts
      | (Some err, svc') \<Rightarrow> accepted_opens svc' who ts)"

fun window_opens :: "u64 \<Rightarrow> u64 list \<Rightarrow> u64 list \<Rightarrow> u64 list" where
  "window_opens rate past [] = []"
| "window_opens rate past (t # ts) =
     (if length (recent t past) < unat rate then t # window_opens rate (past @ [t]) ts
      else window_opens rate past ts)"

lemma recent_simps [simp]: "recent now_ms (xs @ ys) = recent now_ms xs @ recent now_ms ys"
  "recent now_ms [] = []" "recent now_ms [t] = (if t + 1000 > now_ms then [t] else [])"
  by (simp_all add: recent_def)

lemma recent_recent: "t \<le> t' \<Longrightarrow> recent t' (recent t xs) = recent t' xs"
  by (auto simp: recent_def intro!: filter_cong)

lemma accepted_window:
  assumes "sorted ts" "peers_ok svc" "who \<noteq> []" "max_session_open_rate_per_peer_identity svc > 0"
    and "\<forall>t \<in> set ts. recent t (open_times_of svc who) = recent t past"
  shows "accepted_opens svc who ts = window_opens (max_session_open_rate_per_peer_identity svc) past ts"
  using assms
proof (induction ts arbitrary: svc past)
  case (Cons t ts)
  obtain err svc' where c: "ducknng_service_check_and_record_session_open_locked alloc_ok svc (Some who) t = (err, svc')"
    by fastforce
  note s = check_open_step [OF Cons.prems(2-4) c]
  have now: "recent t (open_times_of svc who) = recent t past" using Cons.prems(5) by simp
  let ?past = "past @ (if err = None then [t] else [])"
  have "\<forall>t' \<in> set ts. recent t' (open_times_of svc' who) = recent t' ?past"
    using Cons.prems(1) s now by (auto simp: recent_recent)
  then have "accepted_opens svc' who ts = window_opens (max_session_open_rate_per_peer_identity svc') ?past ts"
    using Cons.prems s by (intro Cons.IH) auto
  with c s now show ?case by (cases err) auto
qed simp

lemma window_bound:
  assumes "sorted (past @ ts)"
    and "\<forall>now_ms. length (filter (\<lambda>t. t \<le> now_ms \<and> now_ms < t + 1000) past) \<le> unat rate"
  shows "length (filter (\<lambda>t. t \<le> now_ms \<and> now_ms < t + 1000) (past @ window_opens rate past ts)) \<le> unat rate"
  using assms
proof (induction ts arbitrary: past)
  case Nil
  then show ?case by simp
next
  case (Cons t ts)
  show ?case
  proof (cases "length (recent t past) < unat rate")
    case False
    then have "window_opens rate past (t # ts) = window_opens rate past ts" by simp
    moreover have "sorted (past @ ts)" using Cons.prems(1) by (simp add: sorted_append)
    ultimately show ?thesis using Cons.IH [of past] Cons.prems(2) by simp
  next
    case True
    have le: "\<forall>s \<in> set past. s \<le> t" using Cons.prems(1) by (simp add: sorted_append)
    have "length (filter (\<lambda>s. s \<le> n \<and> n < s + 1000) (past @ [t])) \<le> unat rate" for n
    proof (cases "t \<le> n \<and> n < t + 1000")
      case in_window: True
      have "length (filter (\<lambda>s. s \<le> n \<and> n < s + 1000) past) \<le> length (recent t past)"
        unfolding recent_def using in_window le
        by (induction past) (auto dest: order_le_less_trans)
      with True in_window show ?thesis by simp
    next
      case False
      then show ?thesis using Cons.prems(2) by auto
    qed
    then have "length (filter (\<lambda>s. s \<le> now_ms \<and> now_ms < s + 1000)
        ((past @ [t]) @ window_opens rate (past @ [t]) ts)) \<le> unat rate"
      using Cons.prems by (intro Cons.IH) auto
    with True show ?thesis by simp
  qed
qed

text \<open>
  C22. The session-open rate limit is a sliding window of one second. For a peer that has opened no
  session yet and attempts at times that do not go backwards, the attempts that succeed are those the window
  admits (an attempt is refused exactly when the limit's number of successes lie less than a second back),
  and no interval of one second contains more successes than the limit.
\<close>

theorem open_rate_window:
  assumes "sorted ts" "peers_ok svc" "who \<noteq> []"
    and "max_session_open_rate_per_peer_identity svc > 0" "open_times_of svc who = []"
  shows "accepted_opens svc who ts =
      window_opens (max_session_open_rate_per_peer_identity svc) [] ts \<and>
    (\<forall>now_ms. length (filter (\<lambda>t. t \<le> now_ms \<and> now_ms < t + 1000) (accepted_opens svc who ts)) \<le>
       unat (max_session_open_rate_per_peer_identity svc))"
proof -
  have "accepted_opens svc who ts = window_opens (max_session_open_rate_per_peer_identity svc) [] ts"
    using assms by (intro accepted_window) simp_all
  with window_bound [of "[]" ts] assms(1) show ?thesis by simp
qed

theorem open_rate_window_witness:
  "accepted_opens idle_service ''tls:cn:a'' [0, 10, 500, 1005, 1010, 1011] = [0, 10, 1005, 1010]"
proof -
  have "accepted_opens idle_service ''tls:cn:a'' [0, 10, 500, 1005, 1010, 1011] =
      window_opens (max_session_open_rate_per_peer_identity idle_service) [] [0, 10, 500, 1005, 1010, 1011]"
    by (rule conjunct1 [OF open_rate_window])
      (simp_all add: peers_ok_def open_times_of_def peer_def idle_service_def)
  also have "\<dots> = [0, 10, 1005, 1010]" by code_simp
  finally show ?thesis .
qed

end
