(* ===== verification/Session.thy ===== *)
theory Session
  imports Limits
begin

text \<open>
  The session table (\<open>ducknng_session.c\<close>).

  A session object is a record; the table of a service is the list \<open>sessions\<close>, and a session that has
  been detached from it lives on until it is destroyed. Handles of the database library are opaque numbers.
  The calls a function makes into the database library and the connection pool are its list of effects, in
  order. Every table operation runs under the service mutex; the one place where an operation
  lets go of it, the pruning loop, takes what other threads do meanwhile as a parameter.

  The parameters of an operation that come from outside the program are the record \<open>env\<close>: which of the
  operation's allocations succeed (by ordinal), the random words, the clock readings, and whether the mutex and
  the condition variable of a new session can be initialised.
\<close>

type_synonym handle = nat

record ducknng_session =
  session_id :: u64
  owner_token :: cstring
  owner_identity :: cstring
  result_handle :: cstring
  row_payload_format :: int
  fetch_batch_chunks :: u64
  row_schema_sent :: bool
  sess_result :: "handle option"
  result_open :: bool
  eos :: bool
  cancelled :: bool
  batch_no :: u64
  last_touch_ms :: u64
  refcount :: nat
  closing :: bool
  mu_initialized :: bool
  cv_initialized :: bool
  session_svc :: bool
  session_con :: "handle option"
  session_pool_index :: size_t
  session_stmt :: "handle option"
  session_pending :: "handle option"
  pending_ready :: bool
  stmt_open :: bool
  pending_open :: bool
  is_upload :: bool
  upload_appender :: "handle option"
  upload_appender_open :: bool
  upload_txn_open :: bool
  upload_target :: cstring
  upload_rows :: u64
  upload_col_names :: "cstring list option"
  upload_col_count :: u64

text \<open>\<open>session_svc\<close> says whether the weak reference to the service is set.\<close>

definition zero_session :: ducknng_session where
  "zero_session = \<lparr> session_id = 0, owner_token = None, owner_identity = None, result_handle = None,
     row_payload_format = 0, fetch_batch_chunks = 0, row_schema_sent = False, sess_result = None,
     result_open = False, eos = False, cancelled = False, batch_no = 0, last_touch_ms = 0, refcount = 0,
     closing = False, mu_initialized = False, cv_initialized = False, session_svc = False,
     session_con = None, session_pool_index = 0, session_stmt = None, session_pending = None,
     pending_ready = False, stmt_open = False, pending_open = False, is_upload = False,
     upload_appender = None, upload_appender_open = False, upload_txn_open = False,
     upload_target = None, upload_rows = 0, upload_col_names = None, upload_col_count = 0 \<rparr>"

record svc_sessions = svc_limits +
  svc_mu_initialized :: bool
  sessions :: "ducknng_session list"
  session_cap :: nat
  session_count_visible :: nat
  next_session_id :: u64
  session_idle_ms :: u64

record env =
  alloc :: "nat \<Rightarrow> bool"
  random_word :: "nat \<Rightarrow> u32"
  now :: "nat \<Rightarrow> u64"
  mutex_init :: bool
  cond_init :: bool

datatype effect = Destroy_Result "handle option" | Destroy_Pending "handle option"
  | Destroy_Prepare "handle option" | Appender_Destroy "handle option"
  | Query_Rollback "handle option" | Release_Connection size_t

datatype session_auth = AUTH_OK | AUTH_TOKEN_MISMATCH | AUTH_IDENTITY_MISMATCH

abbreviation DUCKNNG_DEFAULT_FETCH_BATCH_CHUNKS :: u64 where
  "DUCKNNG_DEFAULT_FETCH_BATCH_CHUNKS \<equiv> 12"
abbreviation DUCKNNG_MAX_FETCH_BATCH_CHUNKS :: u64 where
  "DUCKNNG_MAX_FETCH_BATCH_CHUNKS \<equiv> 256"
abbreviation NO_POOL_INDEX :: size_t where
  "NO_POOL_INDEX \<equiv> SIZE_MAX"

section \<open>Session objects\<close>

definition ducknng_session_mark_closing :: "ducknng_session \<Rightarrow> ducknng_session" where
  "ducknng_session_mark_closing s = (if \<not> mu_initialized s then s else s\<lparr>closing := True\<rparr>)"

definition ducknng_session_try_acquire :: "ducknng_session \<Rightarrow> bool \<times> ducknng_session" where
  "ducknng_session_try_acquire s =
     (if \<not> mu_initialized s then (False, s)
      else if \<not> closing s then (True, s\<lparr>refcount := refcount s + 1\<rparr>) else (False, s))"

definition ducknng_session_release :: "ducknng_session \<Rightarrow> ducknng_session" where
  "ducknng_session_release s =
     (if \<not> mu_initialized s then s
      else if refcount s > 0 then s\<lparr>refcount := refcount s - 1\<rparr> else s)"

text \<open>Eight digits per random word, the most significant first.\<close>

definition hex_word :: "u32 \<Rightarrow> string" where
  "hex_word v = map (\<lambda>shift. ''0123456789abcdef'' ! unat (drop_bit shift v AND 0x0f))
     [28, 24, 20, 16, 12, 8, 4, 0]"

definition ducknng_session_generate_hex_token :: "(nat \<Rightarrow> u32) \<Rightarrow> string" where
  "ducknng_session_generate_hex_token rnd = concat (map (\<lambda>i. hex_word (rnd i)) [0, 1, 2, 3])"

text \<open>The comparison that inspects every byte: a missing byte counts as 0.\<close>

definition token_byte :: "string \<Rightarrow> nat \<Rightarrow> u8" where
  "token_byte s i = (if i < length s then of_nat (code (s ! i)) else 0)"

definition ducknng_session_token_equal :: "cstring \<Rightarrow> cstring \<Rightarrow> bool" where
  "ducknng_session_token_equal a b =
     (case (a, b) of
        (Some a, Some b) \<Rightarrow>
          let la = of_nat (length a) :: size_t; lb = of_nat (length b) :: size_t;
              max_len = (if length a > length b then length a else length b);
              diff = ucast (la XOR lb) :: u8
          in fold (\<lambda>i diff. diff OR (token_byte a i XOR token_byte b i)) [0..<max_len] diff = 0
      | _ \<Rightarrow> False)"

definition ducknng_session_owner_auth :: "ducknng_session \<Rightarrow> cstring \<Rightarrow> cstring \<Rightarrow> session_auth" where
  "ducknng_session_owner_auth s token caller_identity =
     (if owner_token s = None \<or> \<not> nonempty token \<or> \<not> ducknng_session_token_equal (owner_token s) token
      then AUTH_TOKEN_MISMATCH
      else if nonempty (owner_identity s) \<and>
              (caller_identity = None \<or> deref (owner_identity s) \<noteq> deref caller_identity)
      then AUTH_IDENTITY_MISMATCH
      else AUTH_OK)"

text \<open>
  Destruction first waits until no reference is left; \<open>destroy_ready\<close> says that it no longer has to.
  \<open>ducknng_session_destroy\<close> is what it does then.
\<close>

definition destroy_ready :: "ducknng_session \<Rightarrow> bool" where
  "destroy_ready s \<longleftrightarrow> \<not> mu_initialized s \<or> \<not> (refcount s > 0 \<and> cv_initialized s)"

definition ducknng_session_destroy :: "ducknng_session \<Rightarrow> effect list" where
  "ducknng_session_destroy s =
     (if result_open s then [Destroy_Result (sess_result s)] else []) @
     (if pending_open s then [Destroy_Pending (session_pending s)] else []) @
     (if stmt_open s then [Destroy_Prepare (session_stmt s)] else []) @
     (if upload_appender_open s then [Appender_Destroy (upload_appender s)] else []) @
     (if upload_txn_open s \<and> session_con s \<noteq> None then [Query_Rollback (session_con s)] else []) @
     (if session_svc s \<and> session_pool_index s \<noteq> NO_POOL_INDEX
      then [Release_Connection (session_pool_index s)] else [])"

text \<open>
  Creation. The allocations are the object (4), the token (5) and the identity (6); 0 to 3
  belong to the caller.
\<close>

definition ducknng_session_create ::
  "env \<Rightarrow> handle option \<Rightarrow> u64 \<Rightarrow> cstring \<Rightarrow> cstring \<Rightarrow> (string + ducknng_session) \<times> effect list" where
  "ducknng_session_create e result sid token identity =
     (let drop_result = (case result of None \<Rightarrow> [] | Some r \<Rightarrow> [Destroy_Result (Some r)])
      in if \<not> alloc e 4 then (Inl ''ducknng: out of memory allocating session'', drop_result)
      else if \<not> nonempty token then (Inl ''ducknng: missing session owner token'', drop_result)
      else if \<not> alloc e 5 then (Inl ''ducknng: out of memory copying session owner token'', drop_result)
      else if nonempty identity \<and> \<not> alloc e 6
      then (Inl ''ducknng: out of memory copying session owner identity'', drop_result)
      else
        let s = zero_session\<lparr>session_id := sid, owner_token := token,
                  owner_identity := (if nonempty identity then identity else None),
                  sess_result := result, result_open := (result \<noteq> None),
                  fetch_batch_chunks := DUCKNNG_DEFAULT_FETCH_BATCH_CHUNKS,
                  last_touch_ms := now e 1\<rparr>
        in if \<not> mutex_init e
           then (Inl ''ducknng: failed to initialize session mutex'', drop_result)
           else if \<not> cond_init e
           then (Inl ''ducknng: failed to initialize session condition variable'', drop_result)
           else (Inr (s\<lparr>mu_initialized := True, cv_initialized := True\<rparr>), []))"

definition ducknng_session_create_streaming ::
  "env \<Rightarrow> handle option \<Rightarrow> size_t \<Rightarrow> handle option \<Rightarrow> handle option \<Rightarrow> u64 \<Rightarrow> cstring \<Rightarrow> cstring \<Rightarrow>
   string + ducknng_session" where
  "ducknng_session_create_streaming e con pool_index stmt pending sid token identity =
     (if \<not> alloc e 4 then Inl ''ducknng: out of memory allocating session''
      else if \<not> nonempty token then Inl ''ducknng: missing session owner token''
      else if \<not> alloc e 5 then Inl ''ducknng: out of memory copying session owner token''
      else if nonempty identity \<and> \<not> alloc e 6
      then Inl ''ducknng: out of memory copying session owner identity''
      else
        let s = zero_session\<lparr>session_id := sid, owner_token := token,
                  owner_identity := (if nonempty identity then identity else None),
                  session_svc := True, session_con := con, session_pool_index := pool_index,
                  session_stmt := stmt, session_pending := pending,
                  stmt_open := (stmt \<noteq> None), pending_open := (pending \<noteq> None), pending_ready := False,
                  fetch_batch_chunks := DUCKNNG_DEFAULT_FETCH_BATCH_CHUNKS,
                  last_touch_ms := now e 1\<rparr>
        in if \<not> mutex_init e then Inl ''ducknng: failed to initialize session mutex''
           else if \<not> cond_init e then Inl ''ducknng: failed to initialize session condition variable''
           else Inr (s\<lparr>mu_initialized := True, cv_initialized := True\<rparr>))"


section \<open>The table\<close>

text \<open>Results of the operations that add a session: the return code and message, or the three outputs.\<close>

type_synonym add_result = "int \<times> string + u64 \<times> string \<times> string"

definition ducknng_service_publish_session_count :: "'a svc_sessions_scheme \<Rightarrow> 'a svc_sessions_scheme" where
  "ducknng_service_publish_session_count svc = svc\<lparr>session_count_visible := length (sessions svc)\<rparr>"

definition ducknng_service_detach_session_locked ::
  "'a svc_sessions_scheme \<Rightarrow> nat \<Rightarrow> ducknng_session option \<times> 'a svc_sessions_scheme" where
  "ducknng_service_detach_session_locked svc idx =
     (if idx \<ge> length (sessions svc) then (None, svc)
      else
        let s = sessions svc ! idx;
            svc = svc\<lparr>sessions := remove_nth idx (sessions svc)\<rparr>
        in (Some (ducknng_session_mark_closing s), ducknng_service_publish_session_count svc))"

text \<open>
  The guards and the growth of the table that both registrars perform under the lock. The
  allocations 0 to 2 are those of the rate check, 3 is the new table.
\<close>

definition session_admission ::
  "env \<Rightarrow> 'a svc_sessions_scheme \<Rightarrow> cstring \<Rightarrow> (int \<times> string) option \<times> 'a svc_sessions_scheme" where
  "session_admission e svc identity =
     (if shutting_down svc then (Some (1, ''ducknng: service is stopping''), svc)
      else if max_open_sessions svc > 0 \<and> length (sessions svc) \<ge> unat (max_open_sessions svc)
      then (Some (1, ''ducknng: max open sessions exceeded''), svc)
      else if max_sessions_per_peer_identity svc > 0 \<and> nonempty identity \<and>
              length (filter (\<lambda>s. owner_identity s = identity) (sessions svc)) \<ge>
                unat (max_sessions_per_peer_identity svc)
      then (Some (1, ''ducknng: max sessions per peer identity exceeded''), svc)
      else case ducknng_service_check_and_record_session_open_locked (alloc e) svc identity (now e 0) of
        (Some err, svc) \<Rightarrow> (Some (1, err), svc)
      | (None, svc) \<Rightarrow>
          if length (sessions svc) = session_cap svc then
            (if \<not> alloc e 3 then (Some (-1, ''ducknng: out of memory growing session table''), svc)
             else (None, svc\<lparr>session_cap := (if session_cap svc \<noteq> 0 then session_cap svc * 2 else 4)\<rparr>))
          else (None, svc))"

definition insert_session :: "ducknng_session \<Rightarrow> 'a svc_sessions_scheme \<Rightarrow> 'a svc_sessions_scheme" where
  "insert_session s svc = ducknng_service_publish_session_count
     (svc\<lparr>next_session_id := next_session_id svc + 1, sessions := sessions svc @ [s]\<rparr>)"

definition ducknng_service_add_session ::
  "env \<Rightarrow> 'a svc_sessions_scheme \<Rightarrow> handle option \<Rightarrow> cstring \<Rightarrow> int \<Rightarrow>
   add_result \<times> 'a svc_sessions_scheme \<times> effect list" where
  "ducknng_service_add_session e svc result identity format =
     (case session_admission e svc identity of
        (Some err, svc) \<Rightarrow>
          (Inl err, svc, case result of None \<Rightarrow> [] | Some r \<Rightarrow> [Destroy_Result (Some r)])
      | (None, svc) \<Rightarrow>
          let sid = next_session_id svc;
              token = ducknng_session_generate_hex_token (random_word e);
              handle = ducknng_session_generate_hex_token (\<lambda>i. random_word e (i + 4))
          in case ducknng_session_create e result sid (Some token) identity of
               (Inl err, eff) \<Rightarrow> (Inl (-1, err), svc, eff)
             | (Inr s, eff) \<Rightarrow>
                 if \<not> alloc e 7
                 then (Inl (-1, ''ducknng: out of memory copying result handle''), svc,
                       eff @ ducknng_session_destroy s)
                 else
                   let s = s\<lparr>result_handle := Some handle, row_payload_format := format\<rparr>
                   in if \<not> alloc e 8
                      then (Inl (-1, ''ducknng: out of memory copying session owner token''), svc,
                            eff @ ducknng_session_destroy s)
                      else if \<not> alloc e 9
                      then (Inl (-1, ''ducknng: out of memory copying result handle''), svc,
                            eff @ ducknng_session_destroy s)
                      else (Inr (sid, token, handle), insert_session s svc, eff))"

definition ducknng_service_acquire_session ::
  "'a svc_sessions_scheme \<Rightarrow> u64 \<Rightarrow> cstring \<Rightarrow> cstring \<Rightarrow>
   (ducknng_session option \<times> session_auth) \<times> 'a svc_sessions_scheme" where
  "ducknng_service_acquire_session svc sid token caller_identity =
     (if sid = 0 then ((None, AUTH_OK), svc)
      else case find_idx (\<lambda>s. session_id s = sid) (sessions svc) of
        None \<Rightarrow> ((None, AUTH_OK), svc)
      | Some i \<Rightarrow>
          let auth = ducknng_session_owner_auth (sessions svc ! i) token caller_identity
          in if auth \<noteq> AUTH_OK then ((None, auth), svc)
             else case ducknng_session_try_acquire (sessions svc ! i) of
               (True, s) \<Rightarrow> ((Some s, AUTH_OK), svc\<lparr>sessions := (sessions svc)[i := s]\<rparr>)
             | (False, s) \<Rightarrow> ((None, AUTH_OK), svc))"

definition ducknng_service_remove_session ::
  "'a svc_sessions_scheme \<Rightarrow> u64 \<Rightarrow> cstring \<Rightarrow> cstring \<Rightarrow>
   (ducknng_session option \<times> session_auth) \<times> 'a svc_sessions_scheme" where
  "ducknng_service_remove_session svc sid token caller_identity =
     (if sid = 0 then ((None, AUTH_OK), svc)
      else case find_idx (\<lambda>s. session_id s = sid) (sessions svc) of
        None \<Rightarrow> ((None, AUTH_OK), svc)
      | Some i \<Rightarrow>
          let auth = ducknng_session_owner_auth (sessions svc ! i) token caller_identity
          in if auth \<noteq> AUTH_OK then ((None, auth), svc)
             else case ducknng_service_detach_session_locked svc i of
               (s, svc) \<Rightarrow> ((s, AUTH_OK), svc))"

definition ducknng_service_detach_all_sessions ::
  "'a svc_sessions_scheme \<Rightarrow> ducknng_session list \<times> 'a svc_sessions_scheme" where
  "ducknng_service_detach_all_sessions svc =
     (let empty = ducknng_service_publish_session_count (svc\<lparr>sessions := [], session_cap := 0\<rparr>)
      in (if \<not> svc_mu_initialized svc then sessions svc
          else map ducknng_session_mark_closing (sessions svc), empty))"

definition should_remove :: "'a svc_sessions_scheme \<Rightarrow> u64 \<Rightarrow> ducknng_session \<Rightarrow> bool" where
  "should_remove svc now_ms s \<longleftrightarrow> mu_initialized s \<and>
     \<not> closing s \<and> refcount s = 0 \<and> \<not> cancelled s \<and> \<not> eos s \<and>
     now_ms \<ge> last_touch_ms s \<and> now_ms - last_touch_ms s > session_idle_ms svc"

text \<open>
  The pruning loop. A removed session is destroyed with the lock released; \<open>meanwhile n\<close> is what other
  threads do to the service while the \<open>n\<close>-th removed one is destroyed. The removed
  sessions are the result.
\<close>

partial_function (option) prune_loop ::
  "(nat \<Rightarrow> 'a svc_sessions_scheme \<Rightarrow> 'a svc_sessions_scheme) \<Rightarrow> u64 \<Rightarrow> nat \<Rightarrow> ducknng_session list \<Rightarrow>
   'a svc_sessions_scheme \<Rightarrow> (ducknng_session list \<times> 'a svc_sessions_scheme) option" where
  [code]: "prune_loop meanwhile now_ms i removed svc =
     (if i < length (sessions svc) then
        (if should_remove svc now_ms (sessions svc ! i) then
           (case ducknng_service_detach_session_locked svc i of
              (Some s, svc) \<Rightarrow>
                prune_loop meanwhile now_ms i (removed @ [s]) (meanwhile (length removed) svc)
            | (None, svc) \<Rightarrow> Some (removed, svc))
         else prune_loop meanwhile now_ms (i + 1) removed svc)
      else Some (removed, svc))"

definition ducknng_service_prune_idle_sessions ::
  "(nat \<Rightarrow> 'a svc_sessions_scheme \<Rightarrow> 'a svc_sessions_scheme) \<Rightarrow> 'a svc_sessions_scheme \<Rightarrow> u64 \<Rightarrow>
   (ducknng_session list \<times> 'a svc_sessions_scheme) option" where
  "ducknng_service_prune_idle_sessions meanwhile svc now_ms =
     (if session_idle_ms svc = 0 then Some ([], svc) else prune_loop meanwhile now_ms 0 [] svc)"

text \<open>
  Streaming and upload sessions. On a failure after creation the resources are taken off the session
  before it is destroyed, because the caller keeps them.
\<close>

definition disown :: "ducknng_session \<Rightarrow> ducknng_session" where
  "disown s = s\<lparr>session_svc := False, session_pool_index := NO_POOL_INDEX, stmt_open := False,
     pending_open := False\<rparr>"

definition ducknng_service_add_session_full ::
  "env \<Rightarrow> 'a svc_sessions_scheme \<Rightarrow> handle option \<Rightarrow> size_t \<Rightarrow> handle option \<Rightarrow> handle option \<Rightarrow> handle option \<Rightarrow>
   bool \<Rightarrow> cstring \<Rightarrow> cstring list option \<Rightarrow> u64 \<Rightarrow> cstring \<Rightarrow> int \<Rightarrow> u64 \<Rightarrow>
   add_result \<times> 'a svc_sessions_scheme \<times> effect list" where
  "ducknng_service_add_session_full e svc con pool_index stmt pending appender upload target
       col_names col_count identity format chunks =
     (case session_admission e svc identity of
        (Some err, svc) \<Rightarrow> (Inl err, svc, [])
      | (None, svc) \<Rightarrow>
          let sid = next_session_id svc;
              token = ducknng_session_generate_hex_token (random_word e);
              handle = ducknng_session_generate_hex_token (\<lambda>i. random_word e (i + 4))
          in case ducknng_session_create_streaming e con pool_index stmt pending sid (Some token) identity of
               Inl err \<Rightarrow> (Inl (-1, err), svc, [])
             | Inr s \<Rightarrow>
                 if \<not> alloc e 7
                 then (Inl (-1, ''ducknng: out of memory copying result handle''), svc,
                       ducknng_session_destroy (disown s))
                 else
                   let chunks = (if chunks = 0 then DUCKNNG_DEFAULT_FETCH_BATCH_CHUNKS else chunks);
                       chunks = (if chunks > DUCKNNG_MAX_FETCH_BATCH_CHUNKS
                                 then DUCKNNG_MAX_FETCH_BATCH_CHUNKS else chunks);
                       s = s\<lparr>result_handle := Some handle, row_payload_format := format,
                             fetch_batch_chunks := chunks\<rparr>
                   in if \<not> alloc e 8
                      then (Inl (-1, ''ducknng: out of memory copying session owner token''), svc,
                            ducknng_session_destroy (disown s))
                      else if \<not> alloc e 9
                      then (Inl (-1, ''ducknng: out of memory copying result handle''), svc,
                            ducknng_session_destroy (disown s))
                      else
                        let s = (if upload
                                 then s\<lparr>is_upload := True, upload_appender := appender,
                                        upload_appender_open := True, upload_txn_open := True,
                                        upload_target := (if nonempty target \<and> alloc e 10 then target else None),
                                        upload_col_names := col_names, upload_col_count := col_count\<rparr>
                                 else s)
                        in (Inr (sid, token, handle), insert_session s svc, []))"

definition ducknng_service_add_session_streaming ::
  "env \<Rightarrow> 'a svc_sessions_scheme \<Rightarrow> handle option \<Rightarrow> size_t \<Rightarrow> handle option \<Rightarrow> handle option \<Rightarrow> cstring \<Rightarrow>
   int \<Rightarrow> u64 \<Rightarrow> add_result \<times> 'a svc_sessions_scheme \<times> effect list" where
  "ducknng_service_add_session_streaming e svc con pool_index stmt pending identity format chunks =
     ducknng_service_add_session_full e svc con pool_index stmt pending None False None None 0
       identity format chunks"

definition ducknng_service_add_upload_session ::
  "env \<Rightarrow> 'a svc_sessions_scheme \<Rightarrow> handle option \<Rightarrow> size_t \<Rightarrow> handle option \<Rightarrow> cstring \<Rightarrow>
   cstring list option \<Rightarrow> u64 \<Rightarrow> cstring \<Rightarrow> add_result \<times> 'a svc_sessions_scheme \<times> effect list" where
  "ducknng_service_add_upload_session e svc con pool_index appender target col_names col_count identity =
     (if appender = None then (Inl (-1, ''ducknng: missing upload session appender''), svc, [])
      else ducknng_service_add_session_full e svc con pool_index None None appender True target
             col_names col_count identity 0 0)"


section \<open>Tokens\<close>

lemma or_zero_iff: "(d :: u8) OR e = 0 \<longleftrightarrow> d = 0 \<and> e = 0"
  by (auto simp: bit_eq_iff bit_simps)

lemma xor_zero_iff: "(d :: u8) XOR e = 0 \<longleftrightarrow> d = e"
  by (auto simp: bit_eq_iff bit_simps)

lemma fold_or_zero:
  "fold (\<lambda>i diff. diff OR f i) xs d = 0 \<longleftrightarrow> (d :: u8) = 0 \<and> (\<forall>i \<in> set xs. f i = 0)"
  by (induction xs arbitrary: d) (auto simp: or_zero_iff)

lemma token_byte_eq:
  assumes "i < length a" "i < length b"
  shows "token_byte a i = token_byte b i \<longleftrightarrow> a ! i = b ! i"
proof -
  have "(of_nat (code c) :: u8) = of_nat (code d) \<longleftrightarrow> c = d" for c d
  proof -
    have "(of_nat (code c) :: u8) = of_nat (code d) \<longleftrightarrow> code c = code d"
      by (subst word_unat_eq_iff) (simp add: unat_of_nat code_less)
    then show ?thesis by simp
  qed
  with assms show ?thesis by (simp add: token_byte_def)
qed

lemma token_byte_nonzero:
  assumes "nul_free b" "i < length b"
  shows "token_byte b i \<noteq> 0"
proof -
  have "unat (of_nat (code (b ! i)) :: u8) = code (b ! i)" by (simp add: unat_of_nat code_less)
  moreover have "code (b ! i) \<noteq> 0" using assms by (simp add: nul_free_def)
  ultimately show ?thesis using assms(2) by (metis token_byte_def unsigned_0)
qed

lemma token_equal_iff:
  assumes "nul_free a" "nul_free b"
  shows "ducknng_session_token_equal (Some a) (Some b) \<longleftrightarrow> a = b"
proof
  let ?m = "if length a > length b then length a else length b"
  assume "ducknng_session_token_equal (Some a) (Some b)"
  then have eq: "token_byte a i = token_byte b i" if "i < ?m" for i
    using that by (simp add: ducknng_session_token_equal_def Let_def fold_or_zero xor_zero_iff)
  have "\<not> length a < length b"
  proof
    assume "length a < length b"
    then have "token_byte b (length a) = token_byte a (length a)" "length a < length b"
      using eq [of "length a"] by simp_all
    with token_byte_nonzero [OF assms(2)] show False by (simp add: token_byte_def)
  qed
  moreover have "\<not> length b < length a"
  proof
    assume "length b < length a"
    then have "token_byte a (length b) = token_byte b (length b)" "length b < length a"
      using eq [of "length b"] by simp_all
    with token_byte_nonzero [OF assms(1)] show False by (simp add: token_byte_def)
  qed
  ultimately have len: "length a = length b" by simp
  show "a = b"
  proof (rule nth_equalityI [OF len])
    fix i assume "i < length a"
    with len eq [of i] show "a ! i = b ! i" by (simp add: token_byte_eq)
  qed
next
  assume "a = b"
  moreover have "fold (\<lambda>i d. d) xs (0 :: u8) = 0" for xs :: "nat list" by (induction xs) auto
  ultimately show "ducknng_session_token_equal (Some a) (Some b)"
    by (simp add: ducknng_session_token_equal_def)
qed

lemma owner_auth_iff:
  assumes "nul_free (deref (owner_token s))" "nul_free (deref token)"
  shows "ducknng_session_owner_auth s token caller = AUTH_OK \<longleftrightarrow>
    nonempty token \<and> owner_token s = token \<and> (nonempty (owner_identity s) \<longrightarrow> owner_identity s = caller)"
  using assms
  by (cases "owner_token s"; cases token; cases "owner_identity s"; cases caller)
    (auto simp: ducknng_session_owner_auth_def token_equal_iff)

text \<open>Generated tokens: 32 hexadecimal digits, a different one for different random words.\<close>

lemma hex_digits_inj:
  assumes "m < 16" "n < 16" "''0123456789abcdef'' ! m = ''0123456789abcdef'' ! n"
  shows "m = n"
proof -
  have "distinct ''0123456789abcdef''" by simp
  with assms show ?thesis by (simp add: nth_eq_iff_index_eq)
qed

lemma nibble_less: "unat ((v :: u32) AND 0x0f) < 16"
proof -
  have "v AND 0x0f = take_bit 4 v" by (simp add: take_bit_eq_mask mask_eq_exp_minus_1)
  then have "unat (v AND 0x0f) = take_bit 4 (unat v)" by (simp only: unsigned_take_bit_eq)
  with take_bit_nat_less_exp [of 4 "unat v"] show ?thesis by simp
qed

lemma bit_nibbles:
  assumes "\<forall>k \<in> {0, 4, 8, 12, 16, 20, 24, 28}. drop_bit k v AND 0x0f = drop_bit k w AND (0x0f :: u32)"
  shows "v = w"
proof (rule bit_word_eqI)
  fix n assume "n < LENGTH(32)"
  then have n: "n < 32" by simp
  define k where "k = 4 * (n div 4)"
  have "k \<in> {0, 4, 8, 12, 16, 20, 24, 28}" using n unfolding k_def by (cases "n div 4 < 8") auto
  with assms have "drop_bit k v AND 0x0f = drop_bit k w AND 0x0f" by (rule bspec)
  then have "bit (drop_bit k v AND 0x0f) (n mod 4) = bit (drop_bit k w AND 0x0f) (n mod 4)" by simp
  moreover have "(0x0f :: u32) = mask 4" by (simp add: mask_eq_exp_minus_1)
  moreover have "k + n mod 4 = n" by (simp add: k_def)
  ultimately show "bit v n = bit w n" using n by (simp add: bit_simps)
qed

lemma hex_word_inj: "hex_word v = hex_word w \<Longrightarrow> v = w"
  unfolding hex_word_def
  by (rule bit_nibbles) (auto simp: word_unat_eq_iff dest!: hex_digits_inj [OF nibble_less nibble_less])

lemma length_hex_word [simp]: "length (hex_word v) = 8"
  by (simp add: hex_word_def)

lemma hex_token_inj:
  "ducknng_session_generate_hex_token f = ducknng_session_generate_hex_token g \<Longrightarrow>
   f 0 = g 0 \<and> f 1 = g 1 \<and> f 2 = g 2 \<and> f 3 = g 3"
  by (auto simp: ducknng_session_generate_hex_token_def dest!: hex_word_inj)

lemma length_hex_token [simp]: "length (ducknng_session_generate_hex_token f) = 32"
  by (simp add: ducknng_session_generate_hex_token_def)

lemma hex_token_nul_free: "nul_free (ducknng_session_generate_hex_token f)"
proof -
  have "set (hex_word v) \<subseteq> set ''0123456789abcdef''" for v
  proof -
    have "''0123456789abcdef'' ! unat ((w :: u32) AND 0x0f) \<in> set ''0123456789abcdef''" for w
      by (rule nth_mem) (use nibble_less [of w] in \<open>simp add: eval_nat_numeral\<close>)
    then show ?thesis unfolding hex_word_def set_map by blast
  qed
  then have "c \<in> set ''0123456789abcdef''" if "c \<in> set (hex_word v)" for c v using that by blast
  moreover have "nul_free ''0123456789abcdef''" by (simp add: nul_free_def)
  ultimately have "nul_free (hex_word v)" for v unfolding nul_free_def by blast
  then show ?thesis by (auto simp: ducknng_session_generate_hex_token_def nul_free_def)
qed


section \<open>Access to sessions\<close>

text \<open>Well-formed tables: unique identifiers below the next one, NUL-free tokens, initialised locks.\<close>

definition table_ok :: "'a svc_sessions_scheme \<Rightarrow> bool" where
  "table_ok svc \<longleftrightarrow> distinct (map session_id (sessions svc)) \<and>
     (\<forall>s \<in> set (sessions svc). 0 < session_id s \<and> session_id s < next_session_id svc \<and>
        nul_free (deref (owner_token s)) \<and> mu_initialized s \<and> cv_initialized s \<and> \<not> closing s) \<and>
     session_count_visible svc = length (sessions svc)"

definition may_use :: "ducknng_session \<Rightarrow> cstring \<Rightarrow> cstring \<Rightarrow> bool" where
  "may_use s token caller \<longleftrightarrow> nonempty token \<and> owner_token s = token \<and>
     (nonempty (owner_identity s) \<longrightarrow> owner_identity s = caller)"

lemma list_update_unique:
  assumes "i < length xs" "\<And>j. j < length xs \<Longrightarrow> P (xs ! j) \<longleftrightarrow> j = i"
  shows "xs[i := f (xs ! i)] = map (\<lambda>x. if P x then f x else x) xs"
  using assms by (intro nth_equalityI) (simp_all add: nth_list_update)

lemma remove_nth_unique:
  assumes "i < length xs" "\<And>j. j < length xs \<Longrightarrow> P (xs ! j) \<longleftrightarrow> j = i"
  shows "remove_nth i xs = filter (\<lambda>x. \<not> P x) xs"
proof -
  have "\<forall>x \<in> set (take i xs). \<not> P x" "\<forall>x \<in> set (drop (Suc i) xs). \<not> P x"
    using assms by (auto simp: in_set_conv_nth)
  then have "filter (\<lambda>x. \<not> P x) (take i xs @ xs ! i # drop (Suc i) xs) = remove_nth i xs"
    using assms by (simp add: remove_nth_def)
  with nth_split [OF assms(1)] show ?thesis by simp
qed

lemma find_session:
  assumes "table_ok svc" "s \<in> set (sessions svc)"
  obtains i where "find_idx (\<lambda>t. session_id t = session_id s) (sessions svc) = Some i"
    "i < length (sessions svc)" "sessions svc ! i = s"
proof -
  from assms(2) obtain i where i: "i < length (sessions svc)" "sessions svc ! i = s"
    by (auto simp: in_set_conv_nth)
  with assms(1) have "find_idx (\<lambda>t. session_id t = session_id s) (sessions svc) = Some i"
    by (simp add: find_idx_distinct table_ok_def)
  with i that show thesis by blast
qed

lemma acquire_absent:
  assumes "\<forall>s \<in> set (sessions svc). session_id s \<noteq> sid"
  shows "ducknng_service_acquire_session svc sid token caller = ((None, AUTH_OK), svc)"
    and "ducknng_service_remove_session svc sid token caller = ((None, AUTH_OK), svc)"
proof -
  have none: "find_idx (\<lambda>s. session_id s = sid) (sessions svc) = None" using assms by simp
  show "ducknng_service_acquire_session svc sid token caller = ((None, AUTH_OK), svc)"
    "ducknng_service_remove_session svc sid token caller = ((None, AUTH_OK), svc)"
    unfolding ducknng_service_acquire_session_def ducknng_service_remove_session_def none by simp_all
qed

lemma acquire_present:
  assumes "table_ok svc" "nul_free (deref token)" "i < length (sessions svc)"
  shows "ducknng_service_acquire_session svc (session_id (sessions svc ! i)) token caller =
    (if may_use (sessions svc ! i) token caller
     then let s = (sessions svc ! i)\<lparr>refcount := refcount (sessions svc ! i) + 1\<rparr>
          in ((Some s, AUTH_OK), svc\<lparr>sessions := (sessions svc)[i := s]\<rparr>)
     else ((None, ducknng_session_owner_auth (sessions svc ! i) token caller), svc))"
proof -
  let ?s = "sessions svc ! i"
  have "?s \<in> set (sessions svc)" using assms(3) by simp
  then have s: "session_id ?s \<noteq> 0" "nul_free (deref (owner_token ?s))" "mu_initialized ?s" "\<not> closing ?s"
    using assms(1) by (auto simp: table_ok_def)
  have "find_idx (\<lambda>t. session_id t = session_id ?s) (sessions svc) = Some i"
    using assms by (simp add: find_idx_distinct table_ok_def)
  with s owner_auth_iff [OF s(2) assms(2), of caller] show ?thesis
    by (simp add: ducknng_service_acquire_session_def ducknng_session_try_acquire_def may_use_def Let_def)
qed

lemma remove_present:
  assumes "table_ok svc" "nul_free (deref token)" "i < length (sessions svc)"
  shows "ducknng_service_remove_session svc (session_id (sessions svc ! i)) token caller =
    (if may_use (sessions svc ! i) token caller
     then ((Some ((sessions svc ! i)\<lparr>closing := True\<rparr>), AUTH_OK),
           ducknng_service_publish_session_count (svc\<lparr>sessions := remove_nth i (sessions svc)\<rparr>))
     else ((None, ducknng_session_owner_auth (sessions svc ! i) token caller), svc))"
proof -
  let ?s = "sessions svc ! i"
  have "?s \<in> set (sessions svc)" using assms(3) by simp
  then have s: "session_id ?s \<noteq> 0" "nul_free (deref (owner_token ?s))" "mu_initialized ?s"
    using assms(1) by (auto simp: table_ok_def)
  have "find_idx (\<lambda>t. session_id t = session_id ?s) (sessions svc) = Some i"
    using assms by (simp add: find_idx_distinct table_ok_def)
  with s owner_auth_iff [OF s(2) assms(2), of caller] assms(3) show ?thesis
    by (simp add: ducknng_service_remove_session_def ducknng_service_detach_session_locked_def
        ducknng_session_mark_closing_def may_use_def Let_def)
qed

text \<open>
  C5. A session is reached only by its owner. On a well-formed table, acquiring or removing a session
  succeeds exactly when a session with that identifier is in the table, the caller presents its owner token and,
  if the session is bound to a peer identity, the caller has that identity. A refused request leaves the
  service unchanged, a successful acquisition adds one reference to that session and
  changes nothing else, and a successful removal takes exactly that session out and marks it as closing.
\<close>

theorem session_access:
  assumes "table_ok svc" "nul_free (deref token)"
    and "ducknng_service_acquire_session svc sid token caller = ((got, auth), svc')"
    and "ducknng_service_remove_session svc sid token caller = ((removed, auth'), svc'')"
  shows "(got \<noteq> None \<longleftrightarrow> (\<exists>s \<in> set (sessions svc). session_id s = sid \<and> may_use s token caller)) \<and>
    (removed \<noteq> None \<longleftrightarrow> (\<exists>s \<in> set (sessions svc). session_id s = sid \<and> may_use s token caller)) \<and>
    (got = None \<longrightarrow> svc' = svc) \<and> (removed = None \<longrightarrow> svc'' = svc) \<and>
    (got \<noteq> None \<longrightarrow> svc' = svc\<lparr>sessions := map (\<lambda>s. if session_id s = sid
       then s\<lparr>refcount := refcount s + 1\<rparr> else s) (sessions svc)\<rparr>) \<and>
    (\<forall>s. removed = Some s \<longrightarrow> closing s \<and> session_id s = sid \<and>
       sessions svc'' = filter (\<lambda>t. session_id t \<noteq> sid) (sessions svc))"
proof (cases "\<exists>s \<in> set (sessions svc). session_id s = sid")
  case False
  with acquire_absent [of svc sid token caller] assms(3,4) show ?thesis by auto
next
  case True
  then obtain s where s: "s \<in> set (sessions svc)" "session_id s = sid" by blast
  then obtain i where i: "i < length (sessions svc)" "sessions svc ! i = s"
    by (metis in_set_conv_nth)
  have uniq: "j = i" if "j < length (sessions svc)" "session_id (sessions svc ! j) = sid" for j
    using assms(1) i that s(2) nth_eq_iff_index_eq [of "map session_id (sessions svc)" i j]
    by (simp add: table_ok_def)
  then have only: "t = s" if "t \<in> set (sessions svc)" "session_id t = sid" for t
    using that i by (metis in_set_conv_nth)
  have upd: "(sessions svc)[i := s\<lparr>refcount := refcount s + 1\<rparr>] =
      map (\<lambda>s. if session_id s = sid then s\<lparr>refcount := refcount s + 1\<rparr> else s) (sessions svc)"
    using list_update_unique [of i "sessions svc" "\<lambda>t. session_id t = sid"
        "\<lambda>t. t\<lparr>refcount := refcount t + 1\<rparr>"] i s uniq by blast
  have rem: "remove_nth i (sessions svc) = filter (\<lambda>t. session_id t \<noteq> sid) (sessions svc)"
    using remove_nth_unique [of i "sessions svc" "\<lambda>t. session_id t = sid"] i s uniq by blast
  have ex: "(\<exists>t \<in> set (sessions svc). session_id t = sid \<and> may_use t token caller) \<longleftrightarrow> may_use s token caller"
    using s only by blast
  note acq = acquire_present [OF assms(1,2) i(1), of caller, unfolded i(2) s(2) assms(3)]
  note del = remove_present [OF assms(1,2) i(1), of caller, unfolded i(2) s(2) assms(4)]
  show ?thesis
  proof (cases "may_use s token caller")
    case True
    then have "got = Some (s\<lparr>refcount := refcount s + 1\<rparr>)"
        "svc' = svc\<lparr>sessions := (sessions svc)[i := s\<lparr>refcount := refcount s + 1\<rparr>]\<rparr>"
        "removed = Some (s\<lparr>closing := True\<rparr>)"
        "svc'' = ducknng_service_publish_session_count (svc\<lparr>sessions := remove_nth i (sessions svc)\<rparr>)"
      using acq del by (simp_all add: Let_def)
    with True s(2) show ?thesis
      unfolding ex upd rem by (simp add: ducknng_service_publish_session_count_def)
  next
    case False
    then have "got = None" "removed = None" "svc' = svc" "svc'' = svc"
      using acq del by simp_all
    with False show ?thesis unfolding ex by simp
  qed
qed


section \<open>Ownership of the database handles\<close>

text \<open>The rate check changes nothing of the service but the table of peers.\<close>

lemma find_or_create_frame:
  assumes "ducknng_service_find_or_create_peer_identity_locked ok svc identity = (i, svc')"
  obtains ps c where "svc' = svc\<lparr>peer_identity_states := ps, peer_identity_state_cap := c\<rparr>"
proof -
  have "svc' = svc\<lparr>peer_identity_states := peer_identity_states svc',
      peer_identity_state_cap := peer_identity_state_cap svc'\<rparr>"
    using assms
    by (auto simp: ducknng_service_find_or_create_peer_identity_locked_def Let_def
        split: if_splits option.splits simp del: find_idx_None)
  then show thesis by (rule that)
qed

lemma check_open_frame:
  assumes "ducknng_service_check_and_record_session_open_locked ok svc identity now_ms = (err, svc')"
  obtains ps c where "svc' = svc\<lparr>peer_identity_states := ps, peer_identity_state_cap := c\<rparr>"
proof -
  obtain i s1 where f: "ducknng_service_find_or_create_peer_identity_locked ok svc identity = (i, s1)"
    by fastforce
  then obtain ps c where "s1 = svc\<lparr>peer_identity_states := ps, peer_identity_state_cap := c\<rparr>"
    by (rule find_or_create_frame)
  with f assms have "svc' = svc\<lparr>peer_identity_states := peer_identity_states svc',
      peer_identity_state_cap := peer_identity_state_cap svc'\<rparr>"
    by (auto simp: ducknng_service_check_and_record_session_open_locked_def set_peer_def Let_def
        split: if_splits option.splits)
  then show thesis by (rule that)
qed

definition within_limits :: "'a svc_sessions_scheme \<Rightarrow> cstring \<Rightarrow> bool" where
  "within_limits svc identity \<longleftrightarrow> \<not> shutting_down svc \<and>
     (max_open_sessions svc = 0 \<or> length (sessions svc) < unat (max_open_sessions svc)) \<and>
     (max_sessions_per_peer_identity svc = 0 \<or> \<not> nonempty identity \<or>
      length (filter (\<lambda>s. owner_identity s = identity) (sessions svc)) <
        unat (max_sessions_per_peer_identity svc))"

lemma admission_frame:
  assumes "session_admission e svc identity = (err, svc')"
  shows "sessions svc' = sessions svc" "next_session_id svc' = next_session_id svc"
    "session_count_visible svc' = session_count_visible svc"
    "session_idle_ms svc' = session_idle_ms svc" "svc_mu_initialized svc' = svc_mu_initialized svc"
    "err = None \<Longrightarrow> within_limits svc identity"
proof -
  obtain r s1 where c: "ducknng_service_check_and_record_session_open_locked (alloc e) svc identity (now e 0) = (r, s1)"
    by fastforce
  then obtain ps n where s1: "s1 = svc\<lparr>peer_identity_states := ps, peer_identity_state_cap := n\<rparr>"
    by (rule check_open_frame)
  have "svc' = svc \<or> svc' = s1 \<or> (\<exists>m. svc' = s1\<lparr>session_cap := m\<rparr>)"
    using assms c by (auto simp: session_admission_def split: if_splits option.splits)
  then show "sessions svc' = sessions svc" "next_session_id svc' = next_session_id svc"
    "session_count_visible svc' = session_count_visible svc"
    "session_idle_ms svc' = session_idle_ms svc" "svc_mu_initialized svc' = svc_mu_initialized svc"
    using s1 by auto
  show "within_limits svc identity" if "err = None"
    using that assms by (auto simp: session_admission_def within_limits_def word_gt_0 split: if_splits)
qed

lemma disowned_silent:
  "ducknng_session_create_streaming e con pool stmt pending sid token identity = Inr s \<Longrightarrow>
   ducknng_session_destroy (disown (s\<lparr>result_handle := h, row_payload_format := f, fetch_batch_chunks := c\<rparr>)) = [] \<and>
   ducknng_session_destroy (disown s) = []"
  by (auto simp: ducknng_session_create_streaming_def ducknng_session_destroy_def disown_def
      zero_session_def Let_def split: if_splits)

text \<open>What tearing the session down will release.\<close>

definition stream_teardown :: "handle option \<Rightarrow> size_t \<Rightarrow> handle option \<Rightarrow> handle option \<Rightarrow> effect list" where
  "stream_teardown con pool stmt pending =
     (if pending \<noteq> None then [Destroy_Pending pending] else []) @
     (if stmt \<noteq> None then [Destroy_Prepare stmt] else []) @
     (if pool \<noteq> NO_POOL_INDEX then [Release_Connection pool] else [])"

definition upload_teardown :: "handle option \<Rightarrow> size_t \<Rightarrow> handle option \<Rightarrow> effect list" where
  "upload_teardown con pool appender =
     Appender_Destroy appender # (if con \<noteq> None then [Query_Rollback con] else []) @
     (if pool \<noteq> NO_POOL_INDEX then [Release_Connection pool] else [])"

lemma create_streaming_Inr:
  "ducknng_session_create_streaming e con pool stmt pending sid token identity = Inr s \<Longrightarrow>
   s = zero_session\<lparr>session_id := sid, owner_token := token,
         owner_identity := (if nonempty identity then identity else None),
         session_svc := True, session_con := con, session_pool_index := pool,
         session_stmt := stmt, session_pending := pending,
         stmt_open := (stmt \<noteq> None), pending_open := (pending \<noteq> None), pending_ready := False,
         fetch_batch_chunks := DUCKNNG_DEFAULT_FETCH_BATCH_CHUNKS, last_touch_ms := now e 1,
         mu_initialized := True, cv_initialized := True\<rparr>"
  unfolding ducknng_session_create_streaming_def Let_def by (simp split: if_split_asm)

lemma created_streaming:
  assumes "ducknng_session_create_streaming e con pool stmt pending sid token identity = Inr s"
  shows "session_id s = sid" "owner_token s = token" "mu_initialized s" "cv_initialized s" "\<not> closing s"
    "refcount s = 0" "owner_identity s = (if nonempty identity then identity else None)"
    "ducknng_session_destroy s = stream_teardown con pool stmt pending"
    "stmt = None \<Longrightarrow> pending = None \<Longrightarrow>
       ducknng_session_destroy (s\<lparr>upload_appender := a, upload_appender_open := True, upload_txn_open := True\<rparr>) =
       upload_teardown con pool a"
  unfolding create_streaming_Inr [OF assms]
  by (simp_all add: ducknng_session_destroy_def stream_teardown_def upload_teardown_def zero_session_def)


text \<open>The session that a successful call inserts.\<close>

definition new_session :: "u64 \<Rightarrow> string \<Rightarrow> string \<Rightarrow> cstring \<Rightarrow> ducknng_session \<Rightarrow> bool" where
  "new_session sid token handle identity s \<longleftrightarrow> session_id s = sid \<and> owner_token s = Some token \<and>
     result_handle s = Some handle \<and> length token = 32 \<and> nul_free token \<and>
     owner_identity s = (if nonempty identity then identity else None) \<and>
     mu_initialized s \<and> cv_initialized s \<and> \<not> closing s \<and> refcount s = 0"

definition inserted ::
  "'a svc_sessions_scheme \<Rightarrow> cstring \<Rightarrow> u64 \<times> string \<times> string \<Rightarrow> effect list \<Rightarrow> 'a svc_sessions_scheme \<Rightarrow> bool" where
  "inserted svc identity out teardown svc' \<longleftrightarrow>
     (case out of (sid, token, handle) \<Rightarrow>
        within_limits svc identity \<and> sid = next_session_id svc \<and> next_session_id svc' = sid + 1 \<and>
        session_count_visible svc' = length (sessions svc') \<and>
        (\<exists>s. sessions svc' = sessions svc @ [s] \<and> new_session sid token handle identity s \<and>
             ducknng_session_destroy s = teardown))"

definition untouched :: "'a svc_sessions_scheme \<Rightarrow> 'a svc_sessions_scheme \<Rightarrow> bool" where
  "untouched svc svc' \<longleftrightarrow> sessions svc' = sessions svc \<and> next_session_id svc' = next_session_id svc \<and>
     session_count_visible svc' = session_count_visible svc"

lemma insert_session_simps [simp]:
  "sessions (insert_session s svc) = sessions svc @ [s]"
  "next_session_id (insert_session s svc) = next_session_id svc + 1"
  "session_count_visible (insert_session s svc) = Suc (length (sessions svc))"
  by (simp_all add: insert_session_def ducknng_service_publish_session_count_def)

lemma add_full_cases:
  assumes "ducknng_service_add_session_full e svc con pool stmt pending appender upload target
      cols ncols identity format chunks = (r, svc', eff)"
    and "upload \<Longrightarrow> stmt = None \<and> pending = None"
  shows "eff = [] \<and> (case r of Inl err \<Rightarrow> untouched svc svc'
    | Inr out \<Rightarrow> inserted svc identity out
        (if upload then upload_teardown con pool appender else stream_teardown con pool stmt pending) svc')"
proof -
  obtain a s1 where adm: "session_admission e svc identity = (a, s1)" by fastforce
  note fr = admission_frame [OF adm]
  let ?token = "ducknng_session_generate_hex_token (random_word e)"
  let ?c = "ducknng_session_create_streaming e con pool stmt pending (next_session_id s1) (Some ?token) identity"
  show ?thesis
  proof (cases "a = None \<and> (\<exists>s. ?c = Inr s)")
    case False
    then have "eff = []" "svc' = s1" "\<exists>err. r = Inl err"
      using assms(1) adm
      by (auto simp: ducknng_service_add_session_full_def Let_def split: option.splits sum.splits)
    with fr show ?thesis by (auto simp: untouched_def)
  next
    case True
    then obtain s where a: "a = None" and s: "?c = Inr s" by blast
    note cs = created_streaming [OF s]
    let ?handle = "ducknng_session_generate_hex_token (\<lambda>i. random_word e (i + 4))"
    let ?s1 = "\<lambda>ch. s\<lparr>result_handle := Some ?handle, row_payload_format := format, fetch_batch_chunks := ch\<rparr>"
    let ?s2 = "\<lambda>ch t. (?s1 ch)\<lparr>is_upload := True, upload_appender := appender, upload_appender_open := True,
        upload_txn_open := True, upload_target := t, upload_col_names := cols, upload_col_count := ncols\<rparr>"
    have "(\<exists>err. r = Inl err \<and> svc' = s1 \<and> eff = []) \<or>
        (r = Inr (next_session_id s1, ?token, ?handle) \<and> eff = [] \<and>
         (\<exists>ch t. svc' = insert_session (if upload then ?s2 ch t else ?s1 ch) s1))"
      using assms(1) unfolding ducknng_service_add_session_full_def adm a prod.case option.case Let_def s sum.case
      by (auto simp: disowned_silent [OF s] split: if_split_asm)
    then consider (failed) err where "r = Inl err" "svc' = s1" "eff = []"
      | (added) ch t where "r = Inr (next_session_id s1, ?token, ?handle)" "eff = []"
          "svc' = insert_session (if upload then ?s2 ch t else ?s1 ch) s1"
      by blast
    then show ?thesis
    proof cases
      case failed
      with fr show ?thesis by (simp add: untouched_def)
    next
      case added
      have "ducknng_session_destroy (?s1 ch) = ducknng_session_destroy s"
        by (simp add: ducknng_session_destroy_def)
      moreover have "ducknng_session_destroy (?s2 ch t) =
          ducknng_session_destroy (s\<lparr>upload_appender := appender, upload_appender_open := True, upload_txn_open := True\<rparr>)"
        by (simp add: ducknng_session_destroy_def)
      ultimately have "ducknng_session_destroy (if upload then ?s2 ch t else ?s1 ch) =
          (if upload then upload_teardown con pool appender else stream_teardown con pool stmt pending)"
        using cs(8,9) assms(2) by auto
      moreover have "new_session (next_session_id s1) ?token ?handle identity (if upload then ?s2 ch t else ?s1 ch)"
        using cs(1-7) hex_token_nul_free by (simp add: new_session_def)
      ultimately show ?thesis
        using added fr a by (auto simp: inserted_def)
    qed
  qed
qed


lemma create_Inr:
  "ducknng_session_create e result sid token identity = (Inr s, eff) \<Longrightarrow>
   eff = [] \<and> s = zero_session\<lparr>session_id := sid, owner_token := token,
         owner_identity := (if nonempty identity then identity else None),
         sess_result := result, result_open := (result \<noteq> None),
         fetch_batch_chunks := DUCKNNG_DEFAULT_FETCH_BATCH_CHUNKS, last_touch_ms := now e 1,
         mu_initialized := True, cv_initialized := True\<rparr>"
  unfolding ducknng_session_create_def Let_def by (simp split: if_split_asm)

lemma create_Inl:
  "ducknng_session_create e result sid token identity = (Inl err, eff) \<Longrightarrow>
   eff = (case result of None \<Rightarrow> [] | Some r \<Rightarrow> [Destroy_Result (Some r)])"
  unfolding ducknng_session_create_def Let_def by (simp split: if_split_asm)

lemma created:
  assumes "ducknng_session_create e result sid token identity = (Inr s, eff)"
  shows "session_id s = sid" "owner_token s = token" "mu_initialized s" "cv_initialized s" "\<not> closing s"
    "refcount s = 0" "owner_identity s = (if nonempty identity then identity else None)"
    "ducknng_session_destroy s = (case result of None \<Rightarrow> [] | Some r \<Rightarrow> [Destroy_Result (Some r)])"
  unfolding conjunct2 [OF create_Inr [OF assms]]
  by (simp_all add: ducknng_session_destroy_def zero_session_def split: option.split)

lemma add_session_cases:
  assumes "ducknng_service_add_session e svc result identity format = (r, svc', eff)"
  shows "case r of
      Inl err \<Rightarrow> untouched svc svc' \<and> eff = (case result of None \<Rightarrow> [] | Some h \<Rightarrow> [Destroy_Result (Some h)])
    | Inr out \<Rightarrow> eff = [] \<and> inserted svc identity out
        (case result of None \<Rightarrow> [] | Some h \<Rightarrow> [Destroy_Result (Some h)]) svc'"
proof -
  obtain a s1 where adm: "session_admission e svc identity = (a, s1)" by fastforce
  note fr = admission_frame [OF adm]
  let ?token = "ducknng_session_generate_hex_token (random_word e)"
  let ?c = "ducknng_session_create e result (next_session_id s1) (Some ?token) identity"
  let ?gone = "case result of None \<Rightarrow> [] | Some h \<Rightarrow> [Destroy_Result (Some h)]"
  obtain c ceff where c: "?c = (c, ceff)" by fastforce
  show ?thesis
  proof (cases "a = None \<and> (\<exists>s. c = Inr s)")
    case False
    then have "eff = ?gone" "svc' = s1" "\<exists>err. r = Inl err"
      using assms adm c create_Inl [of e result "next_session_id s1" "Some ?token" identity]
      by (auto simp: ducknng_service_add_session_def Let_def split: option.splits sum.splits)
    with fr show ?thesis by (auto simp: untouched_def)
  next
    case True
    then obtain s where a: "a = None" and s: "?c = (Inr s, [])" using c create_Inr by blast
    note cs = created [OF s]
    let ?handle = "ducknng_session_generate_hex_token (\<lambda>i. random_word e (i + 4))"
    let ?s1 = "s\<lparr>result_handle := Some ?handle, row_payload_format := format\<rparr>"
    have "ducknng_session_destroy ?s1 = ducknng_session_destroy s"
      by (simp add: ducknng_session_destroy_def)
    with cs(8) have d: "ducknng_session_destroy ?s1 = ?gone" by simp
    have "(\<exists>err. r = Inl err \<and> svc' = s1 \<and> eff = ?gone) \<or>
        (r = Inr (next_session_id s1, ?token, ?handle) \<and> eff = [] \<and> svc' = insert_session ?s1 s1)"
      using assms unfolding ducknng_service_add_session_def adm a prod.case option.case Let_def s sum.case d
      by (auto simp: cs(8) split: if_split_asm)
    moreover have "new_session (next_session_id s1) ?token ?handle identity ?s1"
      using cs(1-7) hex_token_nul_free by (simp add: new_session_def)
    ultimately show ?thesis
      using d fr a by (auto simp: untouched_def inserted_def)
  qed
qed

text \<open>
  C7. Who owns the database handles of a new session. Registering a streaming or an upload session never
  releases a handle the caller passed: when it fails the table, the next identifier and the published
  count are as before and the caller still owns everything; when it succeeds the limits held, one session is
  appended under the next identifier, and destroying that session releases exactly the caller's handles - for an upload the appender
  is destroyed first, then the transaction rolled back, then the connection given back, so no row of an
  unfinished upload is kept. Registering a session over a result destroys that result exactly once: at
  once when registration fails, and by the session's destruction otherwise.
\<close>

theorem session_ownership:
  assumes "ducknng_service_add_session_streaming e svc con pool stmt pending identity format chunks = (r1, svc1, eff1)"
    and "ducknng_service_add_upload_session e svc con pool appender target cols ncols identity = (r2, svc2, eff2)"
    and "ducknng_service_add_session e svc (Some result) identity format = (r3, svc3, eff3)"
  shows "eff1 = [] \<and> (case r1 of Inl err \<Rightarrow> untouched svc svc1
      | Inr out \<Rightarrow> inserted svc identity out (stream_teardown con pool stmt pending) svc1) \<and>
    eff2 = [] \<and> (case r2 of Inl err \<Rightarrow> untouched svc svc2
      | Inr out \<Rightarrow> inserted svc identity out (upload_teardown con pool appender) svc2) \<and>
    (case r3 of Inl err \<Rightarrow> untouched svc svc3 \<and> eff3 = [Destroy_Result (Some result)]
      | Inr out \<Rightarrow> eff3 = [] \<and> inserted svc identity out [Destroy_Result (Some result)] svc3)"
proof (intro conjI)
  note r1 = add_full_cases [OF assms(1) [unfolded ducknng_service_add_session_streaming_def]]
  show "eff1 = []" "case r1 of Inl err \<Rightarrow> untouched svc svc1
      | Inr out \<Rightarrow> inserted svc identity out (stream_teardown con pool stmt pending) svc1"
    using r1 by (simp_all cong: sum.case_cong)
  show "eff2 = []" "case r2 of Inl err \<Rightarrow> untouched svc svc2
      | Inr out \<Rightarrow> inserted svc identity out (upload_teardown con pool appender) svc2"
  proof (atomize (full), cases "appender = None")
    case True
    with assms(2) show "eff2 = [] \<and> (case r2 of Inl err \<Rightarrow> untouched svc svc2
      | Inr out \<Rightarrow> inserted svc identity out (upload_teardown con pool appender) svc2)"
      by (auto simp: ducknng_service_add_upload_session_def untouched_def)
  next
    case False
    with assms(2) have "ducknng_service_add_session_full e svc con pool None None appender True target
        cols ncols identity 0 0 = (r2, svc2, eff2)"
      by (simp add: ducknng_service_add_upload_session_def)
    from add_full_cases [OF this] show "eff2 = [] \<and> (case r2 of Inl err \<Rightarrow> untouched svc svc2
      | Inr out \<Rightarrow> inserted svc identity out (upload_teardown con pool appender) svc2)"
      by (simp cong: sum.case_cong)
  qed
  show "case r3 of Inl err \<Rightarrow> untouched svc svc3 \<and> eff3 = [Destroy_Result (Some result)]
      | Inr out \<Rightarrow> eff3 = [] \<and> inserted svc identity out [Destroy_Result (Some result)] svc3"
    using add_session_cases [OF assms(3)] by (simp cong: sum.case_cong)
qed


section \<open>Pruning\<close>

lemma detach_in_range:
  "i < length (sessions svc) \<Longrightarrow> ducknng_service_detach_session_locked svc i =
     (Some (ducknng_session_mark_closing (sessions svc ! i)),
      ducknng_service_publish_session_count (svc\<lparr>sessions := remove_nth i (sessions svc)\<rparr>))"
  by (simp add: ducknng_service_detach_session_locked_def Let_def)

lemma publish_simps [simp]:
  "sessions (ducknng_service_publish_session_count svc) = sessions svc"
  "session_idle_ms (ducknng_service_publish_session_count svc) = session_idle_ms svc"
  "next_session_id (ducknng_service_publish_session_count svc) = next_session_id svc"
  "session_count_visible (ducknng_service_publish_session_count svc) = length (sessions svc)"
  by (simp_all add: ducknng_service_publish_session_count_def)

lemma prune_loop_stop: "\<not> i < length (sessions svc) \<Longrightarrow> prune_loop m now_ms i r svc = Some (r, svc)"
  by (subst prune_loop.simps) simp

lemma prune_loop_skip:
  "i < length (sessions svc) \<Longrightarrow> \<not> should_remove svc now_ms (sessions svc ! i) \<Longrightarrow>
   prune_loop m now_ms i r svc = prune_loop m now_ms (i + 1) r svc"
  by (subst prune_loop.simps) simp

lemma prune_loop_take:
  "i < length (sessions svc) \<Longrightarrow> should_remove svc now_ms (sessions svc ! i) \<Longrightarrow>
   prune_loop m now_ms i r svc = prune_loop m now_ms i (r @ [ducknng_session_mark_closing (sessions svc ! i)])
     (m (length r) (ducknng_service_publish_session_count (svc\<lparr>sessions := remove_nth i (sessions svc)\<rparr>)))"
  by (subst prune_loop.simps) (simp add: detach_in_range)

text \<open>What other threads do while the lock is released may change everything but may not open sessions.\<close>

definition no_opens :: "(nat \<Rightarrow> 'a svc_sessions_scheme \<Rightarrow> 'a svc_sessions_scheme) \<Rightarrow> bool" where
  "no_opens m \<longleftrightarrow> (\<forall>n svc. length (sessions (m n svc)) \<le> length (sessions svc))"

lemma prune_loop_returns:
  assumes "no_opens m" "\<forall>s \<in> set r. closing s \<and> destroy_ready s"
  shows "\<exists>r' svc'. prune_loop m now_ms i r svc = Some (r', svc') \<and> (\<forall>s \<in> set r'. closing s \<and> destroy_ready s)"
  using assms(2)
proof (induction "2 * length (sessions svc) - i" arbitrary: i r svc rule: less_induct)
  case less
  consider (stop) "\<not> i < length (sessions svc)"
    | (skip) "i < length (sessions svc)" "\<not> should_remove svc now_ms (sessions svc ! i)"
    | (tak) "i < length (sessions svc)" "should_remove svc now_ms (sessions svc ! i)"
    by blast
  then show ?case
  proof cases
    case stop
    with less.prems show ?thesis by (simp add: prune_loop_stop)
  next
    case skip
    with less show ?thesis by (simp add: prune_loop_skip)
  next
    case tak
    let ?s = "ducknng_session_mark_closing (sessions svc ! i)"
    let ?svc = "m (length r) (ducknng_service_publish_session_count (svc\<lparr>sessions := remove_nth i (sessions svc)\<rparr>))"
    have "length (sessions ?svc) \<le> length (remove_nth i (sessions svc))"
      using assms(1) unfolding no_opens_def by (metis publish_simps(1) svc_sessions.select_convs(2) svc_sessions.surjective svc_sessions.update_convs(2))
    then have "2 * length (sessions ?svc) - i < 2 * length (sessions svc) - i"
      using tak(1) length_remove_nth [OF tak(1)] by linarith
    moreover have "closing ?s \<and> destroy_ready ?s"
      using tak(2) by (simp add: should_remove_def ducknng_session_mark_closing_def destroy_ready_def)
    ultimately show ?thesis
      unfolding prune_loop_take [OF tak] using less by (simp add: ball_Un)
  qed
qed

lemma prune_loop_alone:
  "prune_loop (\<lambda>_ svc. svc) now_ms i r svc = Some (r', svc') \<Longrightarrow>
   sessions svc' = take i (sessions svc) @ filter (\<lambda>s. \<not> should_remove svc now_ms s) (drop i (sessions svc)) \<and>
   r' = r @ map ducknng_session_mark_closing (filter (should_remove svc now_ms) (drop i (sessions svc)))"
proof (induction "2 * length (sessions svc) - i" arbitrary: i r svc rule: less_induct)
  case less
  consider (stop) "\<not> i < length (sessions svc)"
    | (skip) "i < length (sessions svc)" "\<not> should_remove svc now_ms (sessions svc ! i)"
    | (tak) "i < length (sessions svc)" "should_remove svc now_ms (sessions svc ! i)"
    by blast
  then show ?case
  proof cases
    case stop
    with less.prems show ?thesis by (simp add: prune_loop_stop)
  next
    case skip
    have "2 * length (sessions svc) - Suc i < 2 * length (sessions svc) - i" using skip(1) by simp
    moreover have "prune_loop (\<lambda>_ svc. svc) now_ms (Suc i) r svc = Some (r', svc')"
      using less.prems prune_loop_skip [OF skip] by simp
    ultimately have "sessions svc' = take (Suc i) (sessions svc) @
          filter (\<lambda>s. \<not> should_remove svc now_ms s) (drop (Suc i) (sessions svc)) \<and>
        r' = r @ map ducknng_session_mark_closing (filter (should_remove svc now_ms) (drop (Suc i) (sessions svc)))"
      by (rule less.hyps)
    with skip show ?thesis by (simp add: take_Suc_conv_app_nth Cons_nth_drop_Suc [symmetric])
  next
    case tak
    let ?svc = "ducknng_service_publish_session_count (svc\<lparr>sessions := remove_nth i (sessions svc)\<rparr>)"
    let ?r = "r @ [ducknng_session_mark_closing (sessions svc ! i)]"
    have same: "should_remove ?svc now_ms = should_remove svc now_ms"
      by (simp add: should_remove_def fun_eq_iff)
    have "2 * length (sessions ?svc) - i < 2 * length (sessions svc) - i"
      using tak(1) length_remove_nth [OF tak(1)] by simp
    moreover have "prune_loop (\<lambda>_ svc. svc) now_ms i ?r ?svc = Some (r', svc')"
      using less.prems prune_loop_take [OF tak, of "\<lambda>_ svc. svc"] by simp
    ultimately have "sessions svc' = take i (sessions ?svc) @
          filter (\<lambda>s. \<not> should_remove ?svc now_ms s) (drop i (sessions ?svc)) \<and>
        r' = ?r @ map ducknng_session_mark_closing (filter (should_remove ?svc now_ms) (drop i (sessions ?svc)))"
      by (rule less.hyps)
    moreover have "take i (sessions ?svc) = take i (sessions svc)" "drop i (sessions ?svc) = drop (Suc i) (sessions svc)"
      using tak(1) by (simp_all add: remove_nth_def)
    ultimately show ?thesis
      using tak unfolding same by (simp add: Cons_nth_drop_Suc [symmetric])
  qed
qed



section \<open>The life of a session\<close>

text \<open>
  Executions of the whole component: the service, the detached sessions that wait for their destruction, the references
  that running requests hold (by identifier), and the identifiers of the destroyed sessions.
\<close>

type_synonym lifetime = "svc_sessions \<times> ducknng_session list \<times> u64 list \<times> u64 list"

definition opens :: "svc_sessions \<Rightarrow> svc_sessions \<Rightarrow> bool" where
  "opens svc svc' \<longleftrightarrow>
     (\<exists>e con pool stmt pending identity format chunks r eff.
        ducknng_service_add_session_streaming e svc con pool stmt pending identity format chunks = (r, svc', eff)) \<or>
     (\<exists>e con pool appender target cols ncols identity r eff.
        ducknng_service_add_upload_session e svc con pool appender target cols ncols identity = (r, svc', eff)) \<or>
     (\<exists>e result identity format r eff.
        ducknng_service_add_session e svc result identity format = (r, svc', eff))"

definition on_session :: "u64 \<Rightarrow> (ducknng_session \<Rightarrow> ducknng_session) \<Rightarrow> ducknng_session list \<Rightarrow> ducknng_session list" where
  "on_session sid f xs = map (\<lambda>s. if session_id s = sid then f s else s) xs"

text \<open>What a request may do to the session it holds: not touch identity, ownership or bookkeeping.\<close>

definition bookkeeping :: "ducknng_session \<Rightarrow> u64 \<times> cstring \<times> cstring \<times> nat \<times> bool \<times> bool \<times> bool" where
  "bookkeeping s = (session_id s, owner_token s, owner_identity s, refcount s, closing s,
     mu_initialized s, cv_initialized s)"

inductive session_step :: "lifetime \<Rightarrow> lifetime \<Rightarrow> bool" where
  open_session: "opens svc svc' \<Longrightarrow> next_session_id svc \<noteq> UINT64_MAX \<Longrightarrow>
    session_step (svc, det, held, dead) (svc', det, held, dead)"
| acquired: "ducknng_service_acquire_session svc sid token caller = ((Some s, auth), svc') \<Longrightarrow>
    nul_free (deref token) \<Longrightarrow>
    session_step (svc, det, held, dead) (svc', det, sid # held, dead)"
| released: "sid \<in> set held \<Longrightarrow>
    session_step (svc, det, held, dead)
      (svc\<lparr>sessions := on_session sid ducknng_session_release (sessions svc)\<rparr>,
       on_session sid ducknng_session_release det, remove1 sid held, dead)"
| worked: "sid \<in> set held \<Longrightarrow> (\<And>s. bookkeeping (f s) = bookkeeping s) \<Longrightarrow>
    session_step (svc, det, held, dead)
      (svc\<lparr>sessions := on_session sid f (sessions svc)\<rparr>, on_session sid f det, held, dead)"
| removed: "ducknng_service_remove_session svc sid token caller = ((Some s, auth), svc') \<Longrightarrow>
    nul_free (deref token) \<Longrightarrow>
    session_step (svc, det, held, dead) (svc', s # det, held, dead)"
| pruned: "i < length (sessions svc) \<Longrightarrow> should_remove svc now_ms (sessions svc ! i) \<Longrightarrow>
    ducknng_service_detach_session_locked svc i = (Some s, svc') \<Longrightarrow>
    session_step (svc, det, held, dead) (svc', s # det, held, dead)"
| stopped: "svc_mu_initialized svc \<Longrightarrow> ducknng_service_detach_all_sessions svc = (ss, svc') \<Longrightarrow>
    session_step (svc, det, held, dead) (svc', ss @ det, held, dead)"
| destroyed: "s \<in> set det \<Longrightarrow> destroy_ready s \<Longrightarrow>
    session_step (svc, det, held, dead)
      (svc, filter (\<lambda>t. session_id t \<noteq> session_id s) det, held, session_id s # dead)"

definition session_init :: "lifetime \<Rightarrow> bool" where
  "session_init = (\<lambda>(svc, det, held, dead). sessions svc = [] \<and> det = [] \<and> held = [] \<and> dead = [] \<and>
     next_session_id svc = 1 \<and> session_count_visible svc = 0)"

text \<open>The invariant: references are counted exactly and only live sessions are referenced.\<close>

definition session_inv :: "lifetime \<Rightarrow> bool" where
  "session_inv = (\<lambda>(svc, det, held, dead).
     table_ok svc \<and> 0 < next_session_id svc \<and>
     distinct (map session_id (sessions svc @ det)) \<and>
     (\<forall>s \<in> set det. 0 < session_id s \<and> session_id s < next_session_id svc \<and> mu_initialized s \<and>
        cv_initialized s \<and> closing s) \<and>
     (\<forall>s \<in> set (sessions svc @ det). refcount s = count_list held (session_id s)) \<and>
     set held \<subseteq> session_id ` set (sessions svc @ det) \<and>
     distinct dead \<and> (\<forall>d \<in> set dead. d < next_session_id svc \<and> d \<notin> session_id ` set (sessions svc @ det)))"

lemmas session_inv_facts = session_inv_def [THEN fun_cong, of "(svc, det, held, dead)" for svc det held dead,
    unfolded split]


lemma opens_cases:
  assumes "opens svc svc'"
  obtains (same) "untouched svc svc'"
    | (added) identity out teardown where "inserted svc identity out teardown svc'"
proof -
  have "untouched svc svc' \<or> (\<exists>identity out teardown. inserted svc identity out teardown svc')"
    using assms unfolding opens_def
  proof (elim disjE exE)
    fix e con pool stmt pending identity format chunks r eff
    assume "ducknng_service_add_session_streaming e svc con pool stmt pending identity format chunks = (r, svc', eff)"
    from add_full_cases [OF this [unfolded ducknng_service_add_session_streaming_def]]
    show ?thesis by (cases r) auto
  next
    fix e con pool appender target cols ncols identity r eff
    assume "ducknng_service_add_upload_session e svc con pool appender target cols ncols identity = (r, svc', eff)"
    then have "svc' = svc \<or> ducknng_service_add_session_full e svc con pool None None appender True target
        cols ncols identity 0 0 = (r, svc', eff)"
      by (auto simp: ducknng_service_add_upload_session_def split: if_splits)
    then show ?thesis
    proof
      assume "ducknng_service_add_session_full e svc con pool None None appender True target
        cols ncols identity 0 0 = (r, svc', eff)"
      from add_full_cases [OF this] show ?thesis by (cases r) auto
    qed (simp add: untouched_def)
  next
    fix e result identity format r eff
    assume "ducknng_service_add_session e svc result identity format = (r, svc', eff)"
    from add_session_cases [OF this] show ?thesis by (cases r) auto
  qed
  with that show thesis by blast
qed

lemma u64_succ: "(n :: u64) \<noteq> UINT64_MAX \<Longrightarrow> n < n + 1"
proof -
  assume "n \<noteq> UINT64_MAX"
  then have "unat n \<noteq> 2 ^ 64 - 1" by (simp add: word_unat_eq_iff)
  then have "Suc (unat n) < 2 ^ 64" using unat_u64_less [of n] by linarith
  then have "unat (n + 1) = Suc (unat n)" by (simp add: unat_word_ariths)
  then show ?thesis by (simp add: word_less_nat_alt)
qed

lemma open_inv:
  assumes "session_inv (svc, det, held, dead)" "opens svc svc'" "next_session_id svc \<noteq> UINT64_MAX"
  shows "session_inv (svc', det, held, dead)"
  using assms(2)
proof (cases rule: opens_cases)
  case same
  with assms(1) show ?thesis by (simp add: session_inv_facts table_ok_def untouched_def)
next
  case (added identity out teardown)
  obtain sid token handle where "out = (sid, token, handle)" by (cases out)
  with added obtain s where s: "sid = next_session_id svc" "next_session_id svc' = sid + 1"
      "session_count_visible svc' = length (sessions svc')" "sessions svc' = sessions svc @ [s]"
      "new_session sid token handle identity s"
    by (auto simp: inserted_def)
  have inv: "table_ok svc" "distinct (map session_id (sessions svc @ det))" "0 < next_session_id svc"
      "\<And>t. t \<in> set (sessions svc @ det) \<Longrightarrow> 0 < session_id t \<and> session_id t < sid"
      "\<And>t. t \<in> set (sessions svc @ det) \<Longrightarrow> refcount t = count_list held (session_id t)"
      "set held \<subseteq> session_id ` set (sessions svc @ det)"
    using assms(1) s(1) by (auto simp: session_inv_facts table_ok_def)
  have up: "sid < sid + 1" using assms(3) s(1) by (simp add: u64_succ)
  have fresh: "sid \<notin> session_id ` set (sessions svc @ det)" using inv(4) by auto
  then have none: "count_list held sid = 0" using inv(6) by (auto simp: count_list_0_iff)
  have "table_ok svc'"
    using inv(1,3,4) s up fresh by (auto simp: table_ok_def new_session_def intro: less_trans)
  moreover have "distinct (map session_id (sessions svc' @ det))"
    using inv(2) fresh s(4,5) by (auto simp: new_session_def)
  moreover have "\<forall>t \<in> set (sessions svc' @ det). refcount t = count_list held (session_id t)"
    using inv(5) s(4,5) none by (auto simp: new_session_def)
  moreover have "\<forall>d \<in> set dead. d < next_session_id svc' \<and> d \<notin> session_id ` set (sessions svc' @ det)"
    using assms(1) s up by (auto simp: session_inv_facts new_session_def intro: less_trans)
  ultimately show ?thesis
    using assms(1) s up inv(3,6) by (auto simp: session_inv_facts intro: less_trans)
qed


text \<open>Acquiring, releasing and working on a session update one session object.\<close>

definition identity_of :: "ducknng_session \<Rightarrow> u64 \<times> cstring \<times> bool \<times> bool \<times> bool" where
  "identity_of s = (session_id s, owner_token s, closing s, mu_initialized s, cv_initialized s)"

lemma on_session_map:
  assumes "\<And>s. identity_of (f s) = identity_of s"
  shows "map session_id (on_session sid f xs) = map session_id xs"
    and "(\<forall>s \<in> set (on_session sid f xs). P (identity_of s)) \<longleftrightarrow> (\<forall>s \<in> set xs. P (identity_of s))"
proof -
  have id: "session_id (f s) = session_id s" for s using assms [of s] by (simp add: identity_of_def)
  show "map session_id (on_session sid f xs) = map session_id xs"
    by (simp add: on_session_def id)
  have "map identity_of (on_session sid f xs) = map identity_of xs"
    using assms by (simp add: on_session_def)
  then have "identity_of ` set (on_session sid f xs) = identity_of ` set xs" by (metis list.set_map)
  then show "(\<forall>s \<in> set (on_session sid f xs). P (identity_of s)) \<longleftrightarrow> (\<forall>s \<in> set xs. P (identity_of s))"
    by (metis (mono_tags, lifting) imageE image_eqI)
qed

lemma on_session_inv:
  assumes inv: "session_inv (svc, det, held, dead)" and f: "\<And>s. identity_of (f s) = identity_of s"
    and ref: "\<And>s. s \<in> set (sessions svc @ det) \<Longrightarrow> session_id s = sid \<Longrightarrow> refcount (f s) = count_list held' sid"
    and other: "\<And>k. k \<noteq> sid \<Longrightarrow> count_list held' k = count_list held k"
    and held: "set held' \<subseteq> session_id ` set (sessions svc @ det)"
  shows "session_inv (svc\<lparr>sessions := on_session sid f (sessions svc)\<rparr>, on_session sid f det, held', dead)"
proof -
  let ?svc = "svc\<lparr>sessions := on_session sid f (sessions svc)\<rparr>"
  note ids = on_session_map(1) [OF f] and all = on_session_map(2) [OF f]
  have idset: "session_id ` set (on_session sid f xs) = session_id ` set xs" for xs
    using ids [of sid xs] by (metis list.set_map)
  have len: "length (on_session sid f xs) = length xs" for xs by (simp add: on_session_def)
  have sid: "session_id (f s) = session_id s" for s using f [of s] by (simp add: identity_of_def)
  have tab: "table_ok ?svc"
    using inv all [of sid "sessions svc" "\<lambda>(i, t, c, m, v). 0 < i \<and> i < next_session_id svc \<and> nul_free (deref t) \<and> m \<and> v \<and> \<not> c"]
    by (simp add: session_inv_facts table_ok_def ids len identity_of_def)
  have det: "\<forall>s \<in> set (on_session sid f det). 0 < session_id s \<and> session_id s < next_session_id svc \<and>
      mu_initialized s \<and> cv_initialized s \<and> closing s"
    using inv all [of sid det "\<lambda>(i, t, c, m, v). 0 < i \<and> i < next_session_id svc \<and> m \<and> v \<and> c"]
    by (simp add: session_inv_facts identity_of_def)
  have refs: "\<forall>s \<in> set (on_session sid f (sessions svc) @ on_session sid f det).
      refcount s = count_list held' (session_id s)"
    using inv ref other sid by (auto simp: session_inv_facts on_session_def)
  have "distinct (map session_id (sessions ?svc @ on_session sid f det))"
    using inv ids [of sid "sessions svc"] ids [of sid det] by (simp add: session_inv_facts idset del: map_append) simp
  with tab det refs inv held show ?thesis
    by (simp add: session_inv_facts idset image_Un)
qed


lemma acquired_inv:
  assumes inv: "session_inv (svc, det, held, dead)" and tok: "nul_free (deref token)"
    and acq: "ducknng_service_acquire_session svc sid token caller = ((Some s, auth), svc')"
  shows "session_inv (svc', det, sid # held, dead)"
proof -
  let ?f = "\<lambda>s. s\<lparr>refcount := refcount s + 1\<rparr>"
  have ok: "table_ok svc" using inv by (simp add: session_inv_facts)
  have "\<exists>t \<in> set (sessions svc). session_id t = sid"
    using acq acquire_absent(1) [of svc sid token caller] by fastforce
  then obtain i where i: "i < length (sessions svc)" "session_id (sessions svc ! i) = sid"
    by (metis in_set_conv_nth)
  have "session_id (sessions svc ! j) = sid \<longleftrightarrow> j = i" if "j < length (sessions svc)" for j
    using i that ok nth_eq_iff_index_eq [of "map session_id (sessions svc)" i j] by (auto simp: table_ok_def)
  with i(1) have "(sessions svc)[i := ?f (sessions svc ! i)] = on_session sid ?f (sessions svc)"
    unfolding on_session_def by (rule list_update_unique)
  then have svc': "svc' = svc\<lparr>sessions := on_session sid ?f (sessions svc)\<rparr>"
    using acq acquire_present [OF ok tok i(1), of caller] i(2) by (simp add: Let_def split: if_splits)
  have "sid \<in> session_id ` set (sessions svc)" using i nth_mem by blast
  then have "sid \<notin> session_id ` set det" using inv by (auto simp: session_inv_facts)
  then have det: "on_session sid ?f det = det" by (auto simp: on_session_def intro!: map_idI)
  have "session_inv (svc\<lparr>sessions := on_session sid ?f (sessions svc)\<rparr>, on_session sid ?f det, sid # held, dead)"
  proof (rule on_session_inv [OF inv])
    show "set (sid # held) \<subseteq> session_id ` set (sessions svc @ det)"
      using inv \<open>sid \<in> session_id ` set (sessions svc)\<close> by (auto simp: session_inv_facts)
  qed (use inv in \<open>auto simp: identity_of_def session_inv_facts\<close>)
  with svc' det show ?thesis by simp
qed

lemma released_inv:
  assumes inv: "session_inv (svc, det, held, dead)" and "sid \<in> set held"
  shows "session_inv (svc\<lparr>sessions := on_session sid ducknng_session_release (sessions svc)\<rparr>,
    on_session sid ducknng_session_release det, remove1 sid held, dead)"
proof (rule on_session_inv [OF inv])
  have cnt: "count_list (remove1 sid held) k = count_list held k - (if k = sid then 1 else 0)" for k
    using assms(2) by (auto simp: count_list_eq_length_filter filter_remove1 length_remove1)
  then show "count_list (remove1 sid held) k = count_list held k" if "k \<noteq> sid" for k using that by simp
  show "refcount (ducknng_session_release s) = count_list (remove1 sid held) sid"
    if "s \<in> set (sessions svc @ det)" "session_id s = sid" for s
    using that inv cnt [of sid] by (auto simp: ducknng_session_release_def session_inv_facts table_ok_def)
  show "set (remove1 sid held) \<subseteq> session_id ` set (sessions svc @ det)"
    using inv set_remove1_subset [of sid held] by (auto simp: session_inv_facts)
qed (simp add: identity_of_def ducknng_session_release_def)

lemma worked_inv:
  assumes inv: "session_inv (svc, det, held, dead)" and f: "\<And>s. bookkeeping (f s) = bookkeeping s"
  shows "session_inv (svc\<lparr>sessions := on_session sid f (sessions svc)\<rparr>, on_session sid f det, held, dead)"
proof (rule on_session_inv [OF inv])
  show "identity_of (f s) = identity_of s" for s using f [of s] by (simp add: identity_of_def bookkeeping_def)
  show "refcount (f s) = count_list held sid" if "s \<in> set (sessions svc @ det)" "session_id s = sid" for s
    using that inv f [of s] by (auto simp: session_inv_facts bookkeeping_def)
qed (use inv in \<open>auto simp: session_inv_facts\<close>)

text \<open>Detaching moves sessions out of the table and marks them.\<close>

lemma detach_inv:
  assumes inv: "session_inv (svc, det, held, dead)"
    and keep: "sessions svc' = keep" "distinct (map session_id (keep @ gone))" "set (keep @ gone) = set (sessions svc)"
    and same: "next_session_id svc' = next_session_id svc" "session_count_visible svc' = length keep"
  shows "session_inv (svc', map ducknng_session_mark_closing gone @ det, held, dead)"
proof -
  let ?m = ducknng_session_mark_closing
  have mk: "session_id (?m s) = session_id s" "refcount (?m s) = refcount s"
      "mu_initialized (?m s) = mu_initialized s" "cv_initialized (?m s) = cv_initialized s"
      "mu_initialized s \<Longrightarrow> closing (?m s)" for s
    by (simp_all add: ducknng_session_mark_closing_def)
  have ids: "session_id ` set (keep @ map ?m gone @ det) = session_id ` set (sessions svc @ det)"
    unfolding set_append keep(3) [symmetric] by (simp add: image_Un image_image mk Un_assoc)
  have same_ids: "map session_id (map ?m gone) = map session_id gone" by (simp add: mk)
  have "session_id ` set (keep @ gone) \<inter> session_id ` set det = {}"
    unfolding keep(3) using inv by (simp add: session_inv_facts)
  moreover have "distinct (map session_id det)" using inv by (simp add: session_inv_facts)
  ultimately have "distinct (map session_id (keep @ gone) @ map session_id det)"
    unfolding distinct_append [of "map session_id (keep @ gone)"] set_map using keep(2) by blast
  then have dist: "distinct (map session_id (keep @ map ?m gone @ det))"
    unfolding map_append same_ids by simp
  have tab: "\<And>s. s \<in> set (keep @ gone) \<Longrightarrow> 0 < session_id s \<and> session_id s < next_session_id svc \<and>
      nul_free (deref (owner_token s)) \<and> mu_initialized s \<and> cv_initialized s \<and> \<not> closing s"
    "\<And>s. s \<in> set (keep @ gone @ det) \<Longrightarrow> refcount s = count_list held (session_id s)"
    using inv keep(3) by (auto simp: session_inv_facts table_ok_def)
  have "table_ok svc'" using tab(1) keep(1,2) same by (auto simp: table_ok_def)
  moreover have "\<forall>s \<in> set (map ?m gone @ det). 0 < session_id s \<and> session_id s < next_session_id svc \<and>
      mu_initialized s \<and> cv_initialized s \<and> closing s"
    using tab(1) inv by (auto simp: mk session_inv_facts)
  moreover have "\<forall>s \<in> set (keep @ map ?m gone @ det). refcount s = count_list held (session_id s)"
    using tab(2) by (auto simp: mk)
  ultimately show ?thesis
    using inv dist ids unfolding session_inv_facts keep(1) same(1) by simp
qed


lemma removed_inv:
  assumes inv: "session_inv (svc, det, held, dead)" and i: "i < length (sessions svc)"
    and svc': "svc' = ducknng_service_publish_session_count (svc\<lparr>sessions := remove_nth i (sessions svc)\<rparr>)"
  shows "session_inv (svc', ducknng_session_mark_closing (sessions svc ! i) # det, held, dead)"
proof -
  let ?keep = "remove_nth i (sessions svc)" and ?s = "sessions svc ! i"
  have d: "distinct (map session_id (sessions svc))"
    using inv by (simp add: session_inv_facts)
  have "map session_id (sessions svc) ! i = session_id ?s" using i by simp
  then have "set (map session_id ?keep) = set (map session_id (sessions svc)) - {session_id ?s}"
    using set_remove_nth_distinct [OF d] i by (simp add: map_remove_nth)
  then have "distinct (map session_id (?keep @ [?s]))"
    using distinct_remove_nth [OF d, of i] by (simp add: map_remove_nth)
  moreover have "set (?keep @ [?s]) = set (sessions svc)"
  proof -
    have "distinct (sessions svc)" using d by (simp add: distinct_map)
    then have "set ?keep = set (sessions svc) - {?s}" using i by (rule set_remove_nth_distinct)
    then show ?thesis using nth_mem [OF i] by (simp add: insert_absorb)
  qed
  moreover have "sessions svc' = ?keep" "next_session_id svc' = next_session_id svc"
      "session_count_visible svc' = length ?keep"
    by (simp_all add: svc')
  ultimately have "session_inv (svc', map ducknng_session_mark_closing [?s] @ det, held, dead)"
    by (intro detach_inv [OF inv])
  then show ?thesis by simp
qed

lemma destroyed_inv:
  assumes inv: "session_inv (svc, det, held, dead)" and s: "s \<in> set det" "destroy_ready s"
  shows "session_inv (svc, filter (\<lambda>t. session_id t \<noteq> session_id s) det, held, session_id s # dead)"
proof -
  let ?det = "filter (\<lambda>t. session_id t \<noteq> session_id s) det"
  have sp: "refcount s = count_list held (session_id s)" "session_id s < next_session_id svc"
      "mu_initialized s" "cv_initialized s" "session_id s \<notin> session_id ` set (sessions svc)"
      "session_id s \<notin> set dead"
    using inv s(1) by (auto simp: session_inv_facts)
  then have "session_id s \<notin> set held"
    using s(2) by (auto simp: destroy_ready_def count_list_0_iff)
  have ids: "session_id ` set ?det = session_id ` set det - {session_id s}" by auto
  have held: "set held \<subseteq> session_id ` set (sessions svc @ ?det)"
    using inv \<open>session_id s \<notin> set held\<close> unfolding set_append image_Un ids
    by (auto simp: session_inv_facts image_Un)
  have "distinct (map session_id (sessions svc @ ?det))"
    using inv unfolding map_append distinct_append set_map ids
    by (auto simp: session_inv_facts distinct_map_filter)
  moreover have "\<forall>d \<in> set (session_id s # dead). d < next_session_id svc \<and>
      d \<notin> session_id ` set (sessions svc @ ?det)"
    using inv sp(2,5) unfolding set_append image_Un ids by (simp add: session_inv_facts image_Un)
  moreover have "\<forall>t \<in> set (sessions svc @ ?det). refcount t = count_list held (session_id t)"
    using inv by (auto simp: session_inv_facts)
  ultimately show ?thesis
    using inv sp(6) held unfolding session_inv_facts by simp
qed

lemma removed_step_inv:
  assumes inv: "session_inv (svc, det, held, dead)" and tok: "nul_free (deref token)"
    and rm: "ducknng_service_remove_session svc sid token caller = ((Some s, auth), svc')"
  shows "session_inv (svc', s # det, held, dead)"
proof -
  have ok: "table_ok svc" using inv by (simp add: session_inv_facts)
  have "\<exists>t \<in> set (sessions svc). session_id t = sid"
    using rm acquire_absent(2) [of svc sid token caller] by fastforce
  then obtain i where i: "i < length (sessions svc)" "session_id (sessions svc ! i) = sid"
    by (metis in_set_conv_nth)
  have "mu_initialized (sessions svc ! i)" using ok i(1) by (simp add: table_ok_def)
  then have "s = ducknng_session_mark_closing (sessions svc ! i)"
    "svc' = ducknng_service_publish_session_count (svc\<lparr>sessions := remove_nth i (sessions svc)\<rparr>)"
    using rm remove_present [OF ok tok i(1), of caller] i(2)
    by (simp_all add: ducknng_session_mark_closing_def split: if_split_asm)
  with removed_inv [OF inv i(1)] show ?thesis by simp
qed

lemma stopped_inv:
  assumes inv: "session_inv (svc, det, held, dead)" and "svc_mu_initialized svc"
    and all: "ducknng_service_detach_all_sessions svc = (ss, svc')"
  shows "session_inv (svc', ss @ det, held, dead)"
proof -
  have "ss = map ducknng_session_mark_closing (sessions svc)" "sessions svc' = []"
      "next_session_id svc' = next_session_id svc" "session_count_visible svc' = 0"
    using assms(2) all by (auto simp: ducknng_service_detach_all_sessions_def Let_def)
  moreover have "distinct (map session_id (sessions svc))" using inv by (simp add: session_inv_facts)
  ultimately show ?thesis
    using detach_inv [OF inv, of svc' "[]" "sessions svc"] by simp
qed

interpretation lifetimes: machine session_init session_step session_inv
proof unfold_locales
  fix s assume "session_init s"
  then show "session_inv s"
    by (auto simp: session_init_def session_inv_def table_ok_def)
next
  fix s t assume "session_inv s" "session_step s t"
  from this(2,1) show "session_inv t"
  proof (induction rule: session_step.induct)
    case (pruned i svc now_ms s svc' det held dead)
    then have "s = ducknng_session_mark_closing (sessions svc ! i)"
      "svc' = ducknng_service_publish_session_count (svc\<lparr>sessions := remove_nth i (sessions svc)\<rparr>)"
      by (simp_all add: detach_in_range)
    with removed_inv [OF pruned(4,1)] show ?case by simp
  qed (erule open_inv acquired_inv released_inv worked_inv removed_step_inv stopped_inv destroyed_inv; assumption)+
qed



section \<open>Concrete instances\<close>

definition sample_env :: env where
  "sample_env = \<lparr> alloc = (\<lambda>_. True), random_word = of_nat, now = (\<lambda>_. 5000), mutex_init = True, cond_init = True \<rparr>"

definition sample_service :: svc_sessions where
  "sample_service = \<lparr> shutting_down = False, max_open_sessions = 2, max_active_pipes = 0,
     max_inflight_requests = 0, max_sessions_per_peer_identity = 1, max_inflight_per_peer_identity = 0,
     max_reply_bytes_per_peer_identity = 0, max_session_open_rate_per_peer_identity = 0,
     inflight_request_count = 0, peer_identity_states = [], peer_identity_state_cap = 0,
     svc_mu_initialized = True, sessions = [], session_cap = 0, session_count_visible = 0,
     next_session_id = 1, session_idle_ms = 300000 \<rparr>"

definition sample_token :: string where
  "sample_token = ducknng_session_generate_hex_token (random_word sample_env)"

definition sample_open :: svc_sessions where
  "sample_open = fst (snd (ducknng_service_add_session_streaming sample_env sample_service
     (Some 7) 0 (Some 1) (Some 2) (Some ''tls:cn:a'') 2 0))"

definition sample_session :: ducknng_session where
  "sample_session = zero_session\<lparr>session_id := 1, owner_token := Some sample_token,
     owner_identity := Some ''tls:cn:a'', session_svc := True, session_con := Some 7, session_pool_index := 0,
     session_stmt := Some 1, session_pending := Some 2, stmt_open := True, pending_open := True,
     pending_ready := False, last_touch_ms := 5000, mu_initialized := True,
     cv_initialized := True,
     result_handle := Some (ducknng_session_generate_hex_token (\<lambda>i. random_word sample_env (i + 4))),
     row_payload_format := 2, fetch_batch_chunks := 12\<rparr>"

lemma sample_token_nonempty: "ducknng_session_generate_hex_token f \<noteq> []"
  by (metis length_hex_token list.size(3) zero_neq_numeral)

lemma sample_open_eq:
  "sample_open = sample_service\<lparr>session_cap := 4, next_session_id := 2, sessions := [sample_session],
     session_count_visible := 1\<rparr>"
  unfolding sample_open_def ducknng_service_add_session_streaming_def ducknng_service_add_session_full_def
    session_admission_def ducknng_service_check_and_record_session_open_locked_def
    ducknng_session_create_streaming_def sample_session_def sample_token_def
  by (simp add: sample_service_def sample_env_def Let_def sample_token_nonempty
      insert_session_def ducknng_service_publish_session_count_def)

lemma sample_opens: "opens sample_service sample_open"
  unfolding opens_def sample_open_def by (metis prod.collapse)

lemma sample_reachable: "reachable session_init session_step (sample_open, [], [], [])"
proof (rule reach_step)
  show "reachable session_init session_step (sample_service, [], [], [])"
    by (rule reach_init) (simp add: session_init_def sample_service_def)
  show "session_step (sample_service, [], [], []) (sample_open, [], [], [])"
    by (rule session_step.open_session [OF sample_opens]) (simp add: sample_service_def)
qed

lemma sample_table_ok: "table_ok sample_open"
  using lifetimes.reachable_inv [OF sample_reachable] by (simp add: session_inv_facts)

lemma sample_may_use:
  "may_use sample_session token caller \<longleftrightarrow> token = Some sample_token \<and> caller = Some ''tls:cn:a''"
  by (auto simp: may_use_def sample_session_def sample_token_def sample_token_nonempty)

definition sample_acquired :: svc_sessions where
  "sample_acquired = snd (ducknng_service_acquire_session sample_open 1 (Some sample_token) (Some ''tls:cn:a''))"

lemma sample_nul_free: "nul_free (deref (Some sample_token))"
  by (simp add: sample_token_def hex_token_nul_free)

lemma sample_acquire:
  "\<exists>s. ducknng_service_acquire_session sample_open 1 (Some sample_token) (Some ''tls:cn:a'') =
     ((Some s, AUTH_OK), sample_acquired)"
proof -
  have "0 < length (sessions sample_open)" "sessions sample_open ! 0 = sample_session"
    by (simp_all add: sample_open_eq)
  with acquire_present [OF sample_table_ok sample_nul_free, of 0 "Some ''tls:cn:a''"]
  show ?thesis unfolding sample_acquired_def
    by (simp add: sample_may_use Let_def) (simp add: sample_session_def)
qed


theorem session_access_witness:
  "fst (fst (ducknng_service_acquire_session sample_open 1 (Some ''guess'') (Some ''tls:cn:a''))) = None"
proof -
  let ?a = "ducknng_service_acquire_session sample_open 1 (Some ''guess'') (Some ''tls:cn:a'')"
  let ?r = "ducknng_service_remove_session sample_open 1 (Some ''guess'') (Some ''tls:cn:a'')"
  have "nul_free (deref (Some ''guess''))" by (simp add: nul_free_def)
  from session_access [OF sample_table_ok this, of 1 "Some ''tls:cn:a''" "fst (fst ?a)" "snd (fst ?a)" "snd ?a"
      "fst (fst ?r)" "snd (fst ?r)" "snd ?r"]
  have "fst (fst ?a) \<noteq> None \<longleftrightarrow>
      (\<exists>s \<in> set (sessions sample_open). session_id s = 1 \<and> may_use s (Some ''guess'') (Some ''tls:cn:a''))"
    by simp
  moreover have "''guess'' \<noteq> sample_token"
    unfolding sample_token_def by (rule notI, drule arg_cong [of _ _ length]) simp
  ultimately show ?thesis by (simp add: sample_open_eq sample_may_use)
qed

theorem session_ownership_witness:
  "snd (snd (ducknng_service_add_session (sample_env\<lparr>alloc := \<lambda>n. n < 8\<rparr>) sample_service (Some 4) None 1)) =
     [Destroy_Result (Some 4)]"
proof -
  let ?e = "sample_env\<lparr>alloc := \<lambda>n. n < 8\<rparr>"
  let ?a = "ducknng_service_add_session_streaming ?e sample_service None 0 None None None 1 0"
  let ?b = "ducknng_service_add_upload_session ?e sample_service None 0 None None None 0 None"
  let ?c = "ducknng_service_add_session ?e sample_service (Some 4) None 1"
  have "fst ?c = Inl (-1, ''ducknng: out of memory copying session owner token'')"
    unfolding ducknng_service_add_session_def session_admission_def ducknng_session_create_def
      ducknng_service_check_and_record_session_open_locked_def
    by (simp add: sample_service_def sample_env_def Let_def sample_token_nonempty)
  moreover obtain r1 s1 f1 where a: "?a = (r1, s1, f1)" by (cases ?a)
  moreover obtain r2 s2 f2 where b: "?b = (r2, s2, f2)" by (cases ?b)
  moreover obtain r3 s3 f3 where c: "?c = (r3, s3, f3)" by (cases ?c)
  ultimately show ?thesis using session_ownership [OF a b c] by simp
qed


end
