(* ===== verification/Util.thy ===== *)
theory Util
  imports Checked Interfaces
begin

text \<open>
  String utilities (\<open>ducknng_util.c\<close>): ASCII comparison, HTTP token and header-value checks, growing
  buffers, and the readers for JSON strings, flat JSON objects and arrays, header lists, query strings and cookies.

  A C string is read through its list of remaining characters; the terminating NUL is the empty list.
  \<open>mem n\<close> says whether an allocation of \<open>n\<close> bytes succeeds. A reader returns \<open>Inl\<close> of the error message for
  the code \<open>-1\<close> (the empty message where the code leaves the message unset) and otherwise the value found,
  \<open>None\<close> for the code 0.
\<close>

section \<open>Characters and comparison\<close>

abbreviation (input) QUOTE :: char where "QUOTE \<equiv> CHR 0x22"
abbreviation (input) BACKSLASH :: char where "BACKSLASH \<equiv> CHR 0x5C"

fun ieq_loop :: "string \<Rightarrow> string \<Rightarrow> bool" where
  "ieq_loop (a # as) (b # bs) = (ascii_lower a = ascii_lower b \<and> ieq_loop as bs)"
| "ieq_loop as bs = (as = [] \<and> bs = [])"

definition ducknng_ascii_ieq :: "cstring \<Rightarrow> cstring \<Rightarrow> bool" where
  "ducknng_ascii_ieq a b = (case (a, b) of (Some a, Some b) \<Rightarrow> ieq_loop a b | _ \<Rightarrow> False)"

fun istarts_loop :: "string \<Rightarrow> string \<Rightarrow> bool" where
  "istarts_loop s [] = True"
| "istarts_loop [] (c # cs) = False"
| "istarts_loop (s # ss) (c # cs) = (ascii_lower s = ascii_lower c \<and> istarts_loop ss cs)"

definition ducknng_ascii_istarts_with :: "cstring \<Rightarrow> cstring \<Rightarrow> bool" where
  "ducknng_ascii_istarts_with s prefix =
     (case (s, prefix) of (Some s, Some p) \<Rightarrow> istarts_loop s p | _ \<Rightarrow> False)"

definition ducknng_ascii_iends_with :: "cstring \<Rightarrow> cstring \<Rightarrow> bool" where
  "ducknng_ascii_iends_with s suffix =
     (case (s, suffix) of
        (Some s, Some x) \<Rightarrow>
          if length x > length s then False
          else ducknng_ascii_ieq (Some (drop (length s - length x) s)) (Some x)
      | _ \<Rightarrow> False)"

definition alnum :: "char \<Rightarrow> bool" where
  "alnum c = (65 \<le> code c \<and> code c \<le> 90 \<or> 97 \<le> code c \<and> code c \<le> 122 \<or> 48 \<le> code c \<and> code c \<le> 57)"

definition token_char :: "char \<Rightarrow> bool" where
  "token_char c = (alnum c \<or> c \<in> {CHR ''!'', CHR ''#'', CHR ''$'', CHR ''%'', CHR ''&'', CHR 0x27, CHR ''*'',
     CHR ''+'', CHR ''-'', CHR ''.'', CHR ''^'', CHR ''_'', CHR 0x60, CHR ''|'', CHR ''~''})"

definition ducknng_http_token_is_valid :: "cstring \<Rightarrow> bool" where
  "ducknng_http_token_is_valid s = (nonempty s \<and> list_all token_char (deref s))"

definition ducknng_http_header_value_is_valid :: "cstring \<Rightarrow> bool" where
  "ducknng_http_header_value_is_valid s =
     (s \<noteq> None \<and> list_all (\<lambda>c. \<not> (code c < 0x20 \<or> code c = 0x7f)) (deref s))"

definition json_ws :: "char \<Rightarrow> bool" where
  "json_ws c = (c = CHR '' '' \<or> c = CHR 0x09 \<or> c = CHR 0x0D \<or> c = CHR 0x0A)"

definition ducknng_json_skip_ws :: "string \<Rightarrow> string" where
  "ducknng_json_skip_ws p = dropWhile json_ws p"

definition ducknng_hex_value :: "char \<Rightarrow> nat option" where
  "ducknng_hex_value c =
     (if 48 \<le> code c \<and> code c \<le> 57 then Some (code c - 48)
      else let c = ascii_lower c in
        if 97 \<le> code c \<and> code c \<le> 102 then Some (10 + (code c - 97)) else None)"

section \<open>Buffers\<close>

text \<open>The \<open>i\<close>-th string copy (\<open>ducknng_strdup\<close>) of an operation.\<close>

definition dup :: "(nat \<Rightarrow> bool) \<Rightarrow> nat \<Rightarrow> cstring \<Rightarrow> cstring" where
  "dup ok i s = (case s of None \<Rightarrow> None | Some t \<Rightarrow> if ok i then Some t else None)"

lemma dup_lost: "x \<noteq> None \<and> dup ok i x = None \<longleftrightarrow> dup ok i x \<noteq> x"
  by (auto simp: dup_def split: option.split)

function grow_loop :: "size_t \<Rightarrow> size_t \<Rightarrow> size_t" where
  "grow_loop need cap =
     (if 0 < cap \<and> cap < need then
        (if cap > SIZE_MAX div 2 then need else grow_loop need (cap * 2))
      else cap)"
  by pat_completeness auto
termination
proof (relation "measure (\<lambda>(need, cap). unat need - unat cap)")
  fix need cap :: size_t
  assume cap: "0 < cap \<and> cap < need" and half: "\<not> cap > SIZE_MAX div 2"
  have "unat cap \<le> 2 ^ 63 - 1"
    using half by (simp add: word_le_nat_alt not_less unat_div)
  then have "unat (cap * 2) = unat cap * 2"
    by (simp add: unat_word_ariths)
  with cap show "((need, cap * 2), (need, cap)) \<in> measure (\<lambda>(need, cap). unat need - unat cap)"
    by (simp add: word_less_nat_alt) linarith
qed simp

declare grow_loop.simps [simp del]

definition ducknng_grow_capacity :: "size_t \<Rightarrow> size_t \<Rightarrow> size_t \<Rightarrow> size_t" where
  "ducknng_grow_capacity need current_cap min_cap =
     grow_loop need (if current_cap \<noteq> 0 then current_cap else if min_cap \<noteq> 0 then min_cap else 1)"

definition ducknng_join_dotted_path :: "(nat \<Rightarrow> bool) \<Rightarrow> cstring \<Rightarrow> cstring \<Rightarrow> cstring" where
  "ducknng_join_dotted_path mem prefix name =
     (let plen = of_nat (length (deref prefix)); nlen = of_nat (length (deref name))
      in if plen = (0 :: size_t) then (if mem (length (deref name) + 1) then Some (deref name) else None)
         else do {
           need \<leftarrow> ducknng_size_add plen nlen;
           need \<leftarrow> ducknng_size_add need 2;
           require (mem (unat need));
           Some (deref prefix @ ''.'' @ deref name) })"

text \<open>A growing text buffer: its text and capacity. The capacity is 0 while the pointer is null.\<close>

record strbuf =
  sb_text :: string
  sb_cap :: size_t

definition sb_empty :: strbuf where
  "sb_empty = \<lparr> sb_text = [], sb_cap = 0 \<rparr>"

definition ducknng_buf_append :: "(nat \<Rightarrow> bool) \<Rightarrow> strbuf \<Rightarrow> string \<Rightarrow> strbuf option" where
  "ducknng_buf_append mem b src = do {
     want \<leftarrow> ducknng_size_add (of_nat (length (sb_text b))) (of_nat (length src));
     want \<leftarrow> ducknng_size_add want 1;
     let cap = ducknng_grow_capacity want (sb_cap b) 32;
     (if sb_cap b < want then
        do { require (mem (unat cap)); Some \<lparr> sb_text = sb_text b @ src, sb_cap = cap \<rparr> }
      else Some (b\<lparr>sb_text := sb_text b @ src\<rparr>)) }"

section \<open>JSON strings\<close>

fun unicode_loop :: "nat \<Rightarrow> nat \<Rightarrow> string \<Rightarrow> string + nat \<times> string" where
  "unicode_loop 0 v p = Inr (v, p)"
| "unicode_loop (Suc n) v [] = Inl ''ducknng: invalid JSON unicode escape''"
| "unicode_loop (Suc n) v (h # p) =
     (case ducknng_hex_value h of
        None \<Rightarrow> Inl ''ducknng: invalid JSON unicode escape''
      | Some d \<Rightarrow> unicode_loop n (v * 16 + d) p)"

fun json_escape :: "string \<Rightarrow> string + char \<times> string" where
  "json_escape [] = Inl ''ducknng: unterminated JSON escape''"
| "json_escape (e # p) =
     (if e = QUOTE then Inr (QUOTE, p)
      else if e = BACKSLASH then Inr (BACKSLASH, p)
      else if e = CHR ''/'' then Inr (CHR ''/'', p)
      else if e = CHR ''b'' then Inr (CHR 0x08, p)
      else if e = CHR ''f'' then Inr (CHR 0x0C, p)
      else if e = CHR ''n'' then Inr (CHR 0x0A, p)
      else if e = CHR ''r'' then Inr (CHR 0x0D, p)
      else if e = CHR ''t'' then Inr (CHR 0x09, p)
      else if e = CHR ''u'' then
        (case unicode_loop 4 0 p of
           Inl err \<Rightarrow> Inl err
         | Inr (v, p) \<Rightarrow>
             if v = 0 then Inl ''ducknng: JSON strings may not contain NUL''
             else if v > 0x7f then Inl ''ducknng: only ASCII JSON unicode escapes are supported''
             else Inr (char_of v, p))
      else Inl ''ducknng: unsupported JSON escape'')"

lemma unicode_loop_length: "unicode_loop n v p = Inr (w, q) \<Longrightarrow> length q \<le> length p"
  by (induction n v p rule: unicode_loop.induct) (auto split: option.splits)

lemma json_escape_length: "json_escape p = Inr (c, q) \<Longrightarrow> length q < length p"
  by (cases p) (auto dest: unicode_loop_length split: if_splits sum.splits prod.splits)

text \<open>The characters of a string up to its closing quote.\<close>

function json_string_loop :: "(nat \<Rightarrow> bool) \<Rightarrow> strbuf \<Rightarrow> string \<Rightarrow> string + string \<times> string" where
  "json_string_loop mem b [] = Inl ''ducknng: unterminated JSON string''"
| "json_string_loop mem b (c # p) =
     (if c = QUOTE then
        (if sb_cap b \<noteq> 0 then Inr (sb_text b, p) else if mem 1 then Inr ([], p) else Inl [])
      else if code c < 0x20 then Inl ''ducknng: invalid control character in JSON string''
      else case (if c = BACKSLASH then json_escape p else Inr (c, p)) of
        Inl err \<Rightarrow> Inl err
      | Inr (c, p) \<Rightarrow>
          (case ducknng_buf_append mem b [c] of
             None \<Rightarrow> Inl ''ducknng: out of memory parsing JSON string''
           | Some b \<Rightarrow> json_string_loop mem b p))"
  by pat_completeness auto
termination
  by (relation "measure (\<lambda>(mem, b, p). length p)")
    (auto split: if_splits dest: json_escape_length)

declare json_string_loop.simps(2) [simp del]

definition ducknng_json_parse_string_dup :: "(nat \<Rightarrow> bool) \<Rightarrow> string \<Rightarrow> string + string \<times> string" where
  "ducknng_json_parse_string_dup mem p =
     (case p of
        [] \<Rightarrow> Inl ''ducknng: expected JSON string''
      | c # p \<Rightarrow> if c \<noteq> QUOTE then Inl ''ducknng: expected JSON string''
                 else json_string_loop mem sb_empty p)"


section \<open>Flat objects, arrays and header lists\<close>

text \<open>A member \<open>"key" : "value"\<close>, blanks allowed around the colon.\<close>

definition json_member :: "(nat \<Rightarrow> bool) \<Rightarrow> string \<Rightarrow> string \<Rightarrow> string + string \<times> string \<times> string" where
  "json_member mem colon_err p =
     (case ducknng_json_parse_string_dup mem p of
        Inl err \<Rightarrow> Inl err
      | Inr (key, p) \<Rightarrow>
          (case ducknng_json_skip_ws p of
             [] \<Rightarrow> Inl colon_err
           | c # p \<Rightarrow>
               if c \<noteq> CHR '':'' then Inl colon_err
               else case ducknng_json_parse_string_dup mem (ducknng_json_skip_ws p) of
                 Inl err \<Rightarrow> Inl err
               | Inr (val, p) \<Rightarrow> Inr (key, val, p)))"

lemma skip_ws_length: "length (ducknng_json_skip_ws p) \<le> length p"
  by (simp add: ducknng_json_skip_ws_def length_dropWhile_le)

lemma json_string_loop_step:
  assumes "json_string_loop mem b (c # p) = Inr (s, q)"
  shows "c = QUOTE \<and> q = p \<or> (\<exists>d p' b'. (if c = BACKSLASH then json_escape p else Inr (c, p)) = Inr (d, p') \<and>
    length p' \<le> length p \<and> ducknng_buf_append mem b [d] = Some b' \<and> json_string_loop mem b' p' = Inr (s, q))"
  using assms
  by (auto simp: json_string_loop.simps(2) split: if_splits sum.splits option.splits
      dest: json_escape_length)

lemma json_string_loop_length: "json_string_loop mem b p = Inr (s, q) \<Longrightarrow> length q < length p"
proof (induction "length p" arbitrary: b p rule: less_induct)
  case less
  then obtain c p' where p: "p = c # p'" by (cases p) auto
  from json_string_loop_step [OF less.prems [unfolded p]] show ?case
  proof (elim disjE exE conjE)
    fix d r b' assume "length r \<le> length p'" "json_string_loop mem b' r = Inr (s, q)"
    with less.hyps [of r b'] p show ?thesis by simp
  qed (simp add: p)
qed

lemma parse_string_length: "ducknng_json_parse_string_dup mem p = Inr (s, q) \<Longrightarrow> length q < length p"
  by (auto simp: ducknng_json_parse_string_dup_def split: list.splits if_splits
      dest: json_string_loop_length)

lemma json_member_length: "json_member mem e p = Inr (k, v, q) \<Longrightarrow> length q < length p"
proof -
  assume "json_member mem e p = Inr (k, v, q)"
  then obtain p1 c p2 where "ducknng_json_parse_string_dup mem p = Inr (k, p1)"
      "ducknng_json_skip_ws p1 = c # p2"
      "ducknng_json_parse_string_dup mem (ducknng_json_skip_ws p2) = Inr (v, q)"
    by (auto simp: json_member_def split: sum.splits prod.splits list.splits if_splits)
  then have "length p1 < length p" "Suc (length p2) \<le> length p1"
      "length q < length (ducknng_json_skip_ws p2)"
    using skip_ws_length [of p1] by (auto dest: parse_string_length)
  with skip_ws_length [of p2] show "length q < length p" by linarith
qed

lemma json_next_shorter:
  "json_member mem e p = Inr (k, v, q) \<Longrightarrow> ducknng_json_skip_ws q = c # r \<Longrightarrow>
   length (ducknng_json_skip_ws r) < length p"
  using json_member_length [of mem e p k v q] skip_ws_length [of q] skip_ws_length [of r] by simp

text \<open>A name in single quotes, as the error messages have it.\<close>

definition quoted :: "string \<Rightarrow> string" where
  "quoted s = CHR 0x27 # s @ [CHR 0x27]"

definition key_matches :: "bool \<Rightarrow> string \<Rightarrow> string \<Rightarrow> bool" where
  "key_matches icase key wanted = (if icase then ducknng_ascii_ieq (Some key) (Some wanted) else key = wanted)"

function json_object_loop ::
  "(nat \<Rightarrow> bool) \<Rightarrow> string \<Rightarrow> bool \<Rightarrow> bool \<Rightarrow> string option \<Rightarrow> string \<Rightarrow> string + string option \<times> string" where
  "json_object_loop mem wanted icase reject found p =
     (case json_member mem ''ducknng: expected ':' in JSON object'' p of
        Inl err \<Rightarrow> Inl err
      | Inr (key, val, p) \<Rightarrow>
          if key_matches icase key wanted \<and> found \<noteq> None \<and> reject
          then Inl (''ducknng: duplicate JSON field '' @ quoted wanted)
          else
            let found = (if key_matches icase key wanted then Some val else found)
            in case ducknng_json_skip_ws p of
                 [] \<Rightarrow> Inl ''ducknng: expected ',' or '}' in JSON object''
               | c # p \<Rightarrow>
                   if c = CHR '','' then json_object_loop mem wanted icase reject found (ducknng_json_skip_ws p)
                   else if c = CHR ''}'' then Inr (found, p)
                   else Inl ''ducknng: expected ',' or '}' in JSON object'')"
  by pat_completeness auto
termination
  by (relation "measure (\<lambda>(mem, wanted, icase, reject, found, p). length p)")
    (auto dest: json_next_shorter)

declare json_object_loop.simps [simp del]

definition ducknng_json_object_get_string ::
  "(nat \<Rightarrow> bool) \<Rightarrow> cstring \<Rightarrow> cstring \<Rightarrow> bool \<Rightarrow> bool \<Rightarrow> string + string option" where
  "ducknng_json_object_get_string mem json wanted icase reject =
     (if json = None \<or> \<not> nonempty wanted then Inr None
      else case ducknng_json_skip_ws (deref json) of
        [] \<Rightarrow> Inl ''ducknng: expected JSON object''
      | c # p \<Rightarrow>
          if c \<noteq> CHR ''{'' then Inl ''ducknng: expected JSON object''
          else
            let p = ducknng_json_skip_ws p
            in case (if p \<noteq> [] \<and> hd p = CHR ''}'' then Inr (None, tl p)
                     else json_object_loop mem (deref wanted) icase reject None p) of
                 Inl err \<Rightarrow> Inl err
               | Inr (found, p) \<Rightarrow>
                   if ducknng_json_skip_ws p \<noteq> []
                   then Inl ''ducknng: trailing characters after JSON object''
                   else Inr found)"

function json_array_loop ::
  "(nat \<Rightarrow> bool) \<Rightarrow> cstring \<Rightarrow> bool \<Rightarrow> nat \<Rightarrow> string \<Rightarrow> string + bool \<times> nat \<times> string" where
  "json_array_loop mem wanted found count p =
     (case ducknng_json_parse_string_dup mem p of
        Inl err \<Rightarrow> Inl err
      | Inr (entry, p) \<Rightarrow>
          let found = (found \<or> wanted = Some entry)
          in case ducknng_json_skip_ws p of
               [] \<Rightarrow> Inl ''ducknng: expected ',' or ']' in JSON array''
             | c # p \<Rightarrow>
                 if c = CHR '','' then json_array_loop mem wanted found (count + 1) (ducknng_json_skip_ws p)
                 else if c = CHR '']'' then Inr (found, count + 1, c # p)
                 else Inl ''ducknng: expected ',' or ']' in JSON array'')"
  by pat_completeness auto
termination
proof (relation "measure (\<lambda>(mem, wanted, found, count, p). length p)")
  have "length (ducknng_json_skip_ws r) < length p"
    if "ducknng_json_parse_string_dup mem p = Inr (s, q)" "ducknng_json_skip_ws q = c # r" for mem p s q c r
    using parse_string_length [OF that(1)] skip_ws_length [of q] skip_ws_length [of r] that(2) by simp
  then show "\<And>mem wanted found count p b x y xa x21 x22.
       ducknng_json_parse_string_dup mem p = Inr b \<Longrightarrow> (x, y) = b \<Longrightarrow>
       xa = (found \<or> wanted = Some x) \<Longrightarrow> ducknng_json_skip_ws y = x21 # x22 \<Longrightarrow> x21 = CHR '','' \<Longrightarrow>
       ((mem, wanted, xa, count + 1, ducknng_json_skip_ws x22), mem, wanted, found, count, p)
       \<in> measure (\<lambda>(mem, wanted, found, count, p). length p)"
    by auto
qed simp

declare json_array_loop.simps [simp del]

text \<open>The result is whether the wanted string is an entry, and the number of entries.\<close>

definition ducknng_json_string_array_contains ::
  "(nat \<Rightarrow> bool) \<Rightarrow> cstring \<Rightarrow> cstring \<Rightarrow> string + bool \<times> nat" where
  "ducknng_json_string_array_contains mem json wanted =
     (if json = None then Inr (False, 0)
      else case ducknng_json_skip_ws (deref json) of
        [] \<Rightarrow> Inl ''ducknng: expected JSON array of strings''
      | c # p \<Rightarrow>
          if c \<noteq> CHR ''['' then Inl ''ducknng: expected JSON array of strings''
          else
            let p = ducknng_json_skip_ws p
            in case (if p \<noteq> [] \<and> hd p = CHR '']'' then Inr (False, 0, p)
                     else json_array_loop mem wanted False 0 p) of
                 Inl err \<Rightarrow> Inl err
               | Inr (found, count, p) \<Rightarrow>
                   if ducknng_json_skip_ws (tl p) \<noteq> []
                   then Inl ''ducknng: trailing characters after JSON array''
                   else Inr (found, count))"


text \<open>
  The header list \<open>[{"name": ..., "value": ...}, ...]\<close>. The reader owns heap blocks: a block is its ordinal
  among the allocations of the call, together with its text. \<open>n\<close> is the next ordinal and \<open>fr\<close> the blocks freed so far, in order.
  On a failure the blocks that the variables \<open>key\<close>, \<open>value\<close>, \<open>name\<close> and \<open>header_value\<close> still point to are freed.
\<close>

type_synonym block = "nat \<times> string"

definition free_vars :: "block option list \<Rightarrow> nat list" where
  "free_vars vs = concat (map (\<lambda>v. case v of None \<Rightarrow> [] | Some b \<Rightarrow> [fst b]) vs)"

lemma header_field_shorter:
  assumes "ducknng_json_parse_string_dup mem (ducknng_json_skip_ws p) = Inr (k, p1)"
    and "ducknng_json_skip_ws p1 = c # p2"
    and "ducknng_json_parse_string_dup mem (ducknng_json_skip_ws p2) = Inr (v, p3)"
    and "ducknng_json_skip_ws p3 = d # p4"
  shows "length p4 < length p"
  using parse_string_length [OF assms(1)] parse_string_length [OF assms(3)] assms(2,4)
    skip_ws_length [of p] skip_ws_length [of p1] skip_ws_length [of p2] skip_ws_length [of p3] by simp

function header_fields ::
  "(nat \<Rightarrow> bool) \<Rightarrow> nat \<Rightarrow> nat list \<Rightarrow> block option \<Rightarrow> block option \<Rightarrow> string \<Rightarrow>
   (string + block option \<times> block option \<times> string) \<times> nat \<times> nat list" where
  "header_fields mem n fr name hval p =
     (case ducknng_json_parse_string_dup mem (ducknng_json_skip_ws p) of
        Inl err \<Rightarrow> (Inl err, n, fr @ free_vars [name, hval])
      | Inr (ktext, p1) \<Rightarrow>
          let key = (n, ktext) in
          (case ducknng_json_skip_ws p1 of
             [] \<Rightarrow> (Inl ''ducknng: expected ':' in headers_json'', n + 1,
                   fr @ [fst key] @ free_vars [Some key, name, hval])
           | c # p2 \<Rightarrow>
               if c \<noteq> CHR '':'' then
                 (Inl ''ducknng: expected ':' in headers_json'', n + 1,
                  fr @ [fst key] @ free_vars [Some key, name, hval])
               else
                 (case ducknng_json_parse_string_dup mem (ducknng_json_skip_ws p2) of
                    Inl err \<Rightarrow> (Inl err, n + 1, fr @ [fst key] @ free_vars [Some key, name, hval])
                  | Inr (vtext, p3) \<Rightarrow>
                      let val = (n + 1, vtext);
                          both = fr @ [fst key, fst val] @ free_vars [Some key, Some val, name, hval]
                      in if ktext = ''name'' \<and> name \<noteq> None
                         then (Inl ''ducknng: duplicate header name field in headers_json'', n + 2, both)
                         else if ktext \<noteq> ''name'' \<and> ktext = ''value'' \<and> hval \<noteq> None
                         then (Inl ''ducknng: duplicate header value field in headers_json'', n + 2, both)
                         else if ktext \<noteq> ''name'' \<and> ktext \<noteq> ''value''
                         then (Inl ''ducknng: headers_json objects may contain only name and value fields'',
                               n + 2, both)
                         else
                           let name = (if ktext = ''name'' then Some val else name);
                               hval = (if ktext = ''name'' then hval else Some val);
                               fr = fr @ [fst key]
                           in (case ducknng_json_skip_ws p3 of
                                 [] \<Rightarrow> (Inl ''ducknng: expected ',' or '}' in headers_json'', n + 2,
                                       fr @ free_vars [name, hval])
                               | d # p4 \<Rightarrow>
                                   if d = CHR '','' then header_fields mem (n + 2) fr name hval p4
                                   else if d = CHR ''}'' then (Inr (name, hval, p4), n + 2, fr)
                                   else (Inl ''ducknng: expected ',' or '}' in headers_json'', n + 2,
                                         fr @ free_vars [name, hval])))))"
  by pat_completeness auto
termination
  by (relation "measure (\<lambda>(mem, n, fr, name, hval, p). length p)")
    (auto dest: header_field_shorter)

declare header_fields.simps [simp del]

lemma header_fields_length:
  "header_fields mem n fr name hval p = (Inr (a, b, q), m, fr') \<Longrightarrow> length q < length p"
proof (induction "length p" arbitrary: n fr name hval p rule: less_induct)
  case less
  obtain k p1 c p2 v p3 d p4 where
      s: "ducknng_json_parse_string_dup mem (ducknng_json_skip_ws p) = Inr (k, p1)"
        "ducknng_json_skip_ws p1 = c # p2" "ducknng_json_parse_string_dup mem (ducknng_json_skip_ws p2) = Inr (v, p3)"
        "ducknng_json_skip_ws p3 = d # p4" "c = CHR '':''"
    using less.prems by (auto simp: header_fields.simps [of mem n fr name hval p] Let_def
        split: sum.splits prod.splits list.splits if_splits)
  have len: "length p4 < length p" by (rule header_field_shorter [OF s(1-4)])
  from less.prems s have "q = p4 \<or> (\<exists>fr name hval. header_fields mem (n + 2) fr name hval p4 = (Inr (a, b, q), m, fr'))"
    by (simp add: header_fields.simps [of mem n fr name hval p] Let_def split: if_splits) blast+
  then show ?case
  proof
    assume "\<exists>fr name hval. header_fields mem (n + 2) fr name hval p4 = (Inr (a, b, q), m, fr')"
    with less.hyps [OF len] len show ?thesis by (meson less_trans)
  qed (simp add: len)
qed


lemma header_list_shorter:
  assumes "ducknng_json_skip_ws p = c # p1"
    and "(Inr (name, hval, p2), m, fr') = header_fields mem n fr None None p1"
    and "ducknng_json_skip_ws p2 = d # p3"
  shows "length p3 < length p"
  using header_fields_length [OF assms(2) [symmetric]] assms(1,3) skip_ws_length [of p] skip_ws_length [of p2]
  by simp

function header_list_loop ::
  "(nat \<Rightarrow> bool) \<Rightarrow> string \<Rightarrow> bool \<Rightarrow> block option \<Rightarrow> nat \<Rightarrow> nat list \<Rightarrow> string \<Rightarrow>
   (string + block option \<times> string) \<times> nat \<times> nat list" where
  "header_list_loop mem wanted reject found n fr p =
     (case ducknng_json_skip_ws p of
        [] \<Rightarrow> (Inl ''ducknng: expected header object in headers_json'', n, fr @ free_vars [found])
      | c # p1 \<Rightarrow>
          if c \<noteq> CHR ''{''
          then (Inl ''ducknng: expected header object in headers_json'', n, fr @ free_vars [found])
          else
            (case header_fields mem n fr None None p1 of
               (Inl err, n, fr) \<Rightarrow> (Inl err, n, fr @ free_vars [found])
             | (Inr (name, hval, p2), n, fr) \<Rightarrow>
                 if \<not> nonempty (map_option snd name) \<or> hval = None
                 then (Inl ''ducknng: each headers_json object must contain non-empty name and a string value'',
                       n, fr @ free_vars [name, hval, found])
                 else if \<not> ducknng_http_header_value_is_valid (map_option snd hval)
                 then (Inl ''ducknng: HTTP header value must not contain control characters'',
                       n, fr @ free_vars [name, hval, found])
                 else
                   let hit = ducknng_ascii_ieq (map_option snd name) (Some wanted) in
                   if hit \<and> found \<noteq> None \<and> reject
                   then (Inl (''ducknng: duplicate HTTP header '' @ quoted wanted),
                         n, fr @ free_vars [name, hval, found])
                   else if hit \<and> \<not> mem (length (snd (the hval)) + 1)
                   then (Inl ''ducknng: out of memory copying header value'',
                         n, fr @ free_vars [found] @ free_vars [name, hval])
                   else
                     let fr = (if hit then fr @ free_vars [found] else fr);
                         found = (if hit then Some (n, snd (the hval)) else found);
                         n = (if hit then n + 1 else n);
                         fr = fr @ free_vars [name, hval]
                     in (case ducknng_json_skip_ws p2 of
                           [] \<Rightarrow> (Inl ''ducknng: expected ',' or ']' in headers_json'', n, fr @ free_vars [found])
                         | d # p3 \<Rightarrow>
                             if d = CHR '','' then header_list_loop mem wanted reject found n fr p3
                             else if d = CHR '']'' then (Inr (found, p3), n, fr)
                             else (Inl ''ducknng: expected ',' or ']' in headers_json'', n, fr @ free_vars [found]))))"
  by pat_completeness auto
termination
  by (relation "measure (\<lambda>(mem, wanted, reject, found, n, fr, p). length p)")
    (auto dest: header_list_shorter)

declare header_list_loop.simps [simp del]

text \<open>The result, the number of blocks allocated and the blocks freed during the call.\<close>

definition ducknng_http_headers_json_get_header ::
  "(nat \<Rightarrow> bool) \<Rightarrow> cstring \<Rightarrow> cstring \<Rightarrow> bool \<Rightarrow> (string + block option) \<times> nat \<times> nat list" where
  "ducknng_http_headers_json_get_header mem headers_json wanted reject =
     (if headers_json = None \<or> \<not> nonempty wanted then (Inr None, 0, [])
      else case ducknng_json_skip_ws (deref headers_json) of
        [] \<Rightarrow> (Inl ''ducknng: headers_json must be a JSON array of {name,value} objects'', 0, [])
      | c # p \<Rightarrow>
          if c \<noteq> CHR ''[''
          then (Inl ''ducknng: headers_json must be a JSON array of {name,value} objects'', 0, [])
          else
            let p = ducknng_json_skip_ws p
            in if p \<noteq> [] \<and> hd p = CHR '']'' then
                 (if ducknng_json_skip_ws (tl p) \<noteq> []
                  then (Inl ''ducknng: trailing characters after headers_json'', 0, [])
                  else (Inr None, 0, []))
               else case header_list_loop mem (deref wanted) reject None 0 [] p of
                 (Inl err, n, fr) \<Rightarrow> (Inl err, n, fr)
               | (Inr (found, p), n, fr) \<Rightarrow>
                   if ducknng_json_skip_ws p \<noteq> []
                   then (Inl ''ducknng: trailing characters after headers_json'', n, fr @ free_vars [found])
                   else (Inr found, n, fr))"

section \<open>Query strings and cookies\<close>

fun percent_loop :: "bool \<Rightarrow> string \<Rightarrow> string \<Rightarrow> string \<Rightarrow> string + string" where
  "percent_loop plus_space label out [] = Inr out"
| "percent_loop plus_space label out (c # p) =
     (if c = CHR ''%'' then
        (case p of
           hi # lo # p \<Rightarrow>
             (case (ducknng_hex_value hi, ducknng_hex_value lo) of
                (Some hi, Some lo) \<Rightarrow>
                  if hi * 16 + lo = 0
                  then Inl (''ducknng: '' @ label @ '' contains NUL after percent decoding'')
                  else percent_loop plus_space label (out @ [char_of (hi * 16 + lo)]) p
              | _ \<Rightarrow> Inl (''ducknng: invalid percent escape in '' @ label))
         | _ \<Rightarrow> Inl (''ducknng: invalid percent escape in '' @ label))
      else percent_loop plus_space label (out @ [if plus_space \<and> c = CHR ''+'' then CHR '' '' else c]) p)"

definition ducknng_percent_decode_dup ::
  "(nat \<Rightarrow> bool) \<Rightarrow> string \<Rightarrow> bool \<Rightarrow> string \<Rightarrow> string + string" where
  "ducknng_percent_decode_dup mem src plus_space label =
     (if \<not> mem (length src + 1) then Inl ''ducknng: out of memory decoding URL component''
      else percent_loop plus_space label [] src)"

text \<open>\<open>split_at c p\<close> is the part before the first \<open>c\<close> and what follows that \<open>c\<close>.\<close>

definition split_at :: "char \<Rightarrow> string \<Rightarrow> string \<times> string option" where
  "split_at c p = (takeWhile (\<lambda>x. x \<noteq> c) p,
     case dropWhile (\<lambda>x. x \<noteq> c) p of [] \<Rightarrow> None | _ # q \<Rightarrow> Some q)"

lemma split_at_length: "split_at c (x # p) = (a, b) \<Longrightarrow> length (deref b) < length (x # p)"
  using length_dropWhile_le [of "\<lambda>y. y \<noteq> c" "x # p"]
  by (auto simp: split_at_def split: list.splits)

function query_loop ::
  "(nat \<Rightarrow> bool) \<Rightarrow> string \<Rightarrow> bool \<Rightarrow> string option \<Rightarrow> string \<Rightarrow> string + string option" where
  "query_loop mem wanted reject found [] = Inr found"
| "query_loop mem wanted reject found (x # p) =
     (let (segment, next) = split_at (CHR ''&'') (x # p);
          (name_raw, val_raw) = split_at (CHR ''='') segment
      in case ducknng_percent_decode_dup mem name_raw True ''query parameter name'' of
           Inl err \<Rightarrow> Inl err
         | Inr name \<Rightarrow>
             if name = wanted then
               (if found \<noteq> None \<and> reject
                then Inl (''ducknng: duplicate query parameter '' @ quoted wanted)
                else case ducknng_percent_decode_dup mem (deref val_raw) True ''query parameter value'' of
                  Inl err \<Rightarrow> Inl err
                | Inr val \<Rightarrow> query_loop mem wanted reject (Some val) (deref next))
             else query_loop mem wanted reject found (deref next))"
  by pat_completeness auto
termination
  by (relation "measure (\<lambda>(mem, wanted, reject, found, p). length p)")
    (auto dest: split_at_length [OF sym])

declare query_loop.simps(2) [simp del]

definition ducknng_query_string_get_param ::
  "(nat \<Rightarrow> bool) \<Rightarrow> cstring \<Rightarrow> cstring \<Rightarrow> bool \<Rightarrow> string + string option" where
  "ducknng_query_string_get_param mem query wanted reject =
     (if query = None \<or> \<not> nonempty wanted then Inr None
      else query_loop mem (deref wanted) reject None (deref query))"

definition blank_char :: "char \<Rightarrow> bool" where
  "blank_char c = (c = CHR '' '' \<or> c = CHR 0x09)"

definition trim_right :: "string \<Rightarrow> string" where
  "trim_right s = rev (dropWhile blank_char (rev s))"

definition unquote :: "string \<Rightarrow> string" where
  "unquote s = (if length s \<ge> 2 \<and> hd s = QUOTE \<and> last s = QUOTE then butlast (tl s) else s)"

function cookie_loop ::
  "(nat \<Rightarrow> bool) \<Rightarrow> string \<Rightarrow> bool \<Rightarrow> string option \<Rightarrow> string \<Rightarrow> string + string option" where
  "cookie_loop mem wanted reject found [] = Inr found"
| "cookie_loop mem wanted reject found (x # p) =
     (let (segment, next) = split_at (CHR '';'') (x # p);
          (name_raw, val_raw) = split_at (CHR ''='') (dropWhile blank_char segment)
      in case val_raw of
           None \<Rightarrow> cookie_loop mem wanted reject found (deref next)
         | Some val_raw \<Rightarrow>
             let name = trim_right name_raw;
                 val = unquote (trim_right (dropWhile blank_char val_raw))
             in if \<not> mem (length name + 1) \<or> \<not> mem (length val + 1)
                then Inl ''ducknng: out of memory parsing Cookie header''
                else if name = wanted then
                  (if found \<noteq> None \<and> reject then Inl (''ducknng: duplicate cookie '' @ quoted wanted)
                   else cookie_loop mem wanted reject (Some val) (deref next))
                else cookie_loop mem wanted reject found (deref next))"
  by pat_completeness auto
termination
  by (relation "measure (\<lambda>(mem, wanted, reject, found, p). length p)")
    (auto dest: split_at_length [OF sym])

declare cookie_loop.simps(2) [simp del]

definition ducknng_cookie_header_get_value ::
  "(nat \<Rightarrow> bool) \<Rightarrow> cstring \<Rightarrow> cstring \<Rightarrow> bool \<Rightarrow> string + string option" where
  "ducknng_cookie_header_get_value mem header wanted reject =
     (if header = None \<or> \<not> nonempty wanted then Inr None
      else cookie_loop mem (deref wanted) reject None (deref header))"


section \<open>Properties of the buffers\<close>

lemma grow_loop_ge:
  "0 < cap \<Longrightarrow> need \<le> grow_loop need cap \<and> cap \<le> grow_loop need cap"
proof (induction need cap rule: grow_loop.induct)
  case (1 need cap)
  show ?case
  proof (cases "cap < need \<and> \<not> cap > SIZE_MAX div 2")
    case True
    then have half: "unat cap \<le> 2 ^ 63 - 1"
      by (simp add: word_le_nat_alt not_less unat_div)
    then have dbl: "unat (cap * 2) = unat cap * 2" by (simp add: unat_word_ariths)
    then have "0 < cap * 2" "cap \<le> cap * 2"
      using "1.prems" by (simp_all add: word_less_nat_alt word_le_nat_alt)
    with "1.IH" "1.prems" True have "need \<le> grow_loop need (cap * 2) \<and> cap * 2 \<le> grow_loop need (cap * 2)"
      by simp
    moreover from this \<open>cap \<le> cap * 2\<close> have "cap \<le> grow_loop need (cap * 2)" by (meson order_trans)
    ultimately show ?thesis
      using True "1.prems" by (simp add: grow_loop.simps [of need cap])
  next
    case False
    then show ?thesis using "1.prems" by (auto simp: grow_loop.simps [of need cap])
  qed
qed

lemma grow_capacity_ge: "need \<le> ducknng_grow_capacity need cap m"
  unfolding ducknng_grow_capacity_def
  by (rule conjunct1 [OF grow_loop_ge]) (simp add: word_gt_0)

lemma buf_append_ok:
  assumes "\<And>n. mem n" "length (sb_text b) + length src + 1 < 2 ^ 64"
  obtains b' where "ducknng_buf_append mem b src = Some b'" "sb_text b' = sb_text b @ src" "sb_cap b' \<noteq> 0"
proof -
  let ?l = "of_nat (length (sb_text b)) :: size_t" and ?s = "of_nat (length src) :: size_t"
  have l: "unat ?l = length (sb_text b)" "unat ?s = length src"
    using assms(2) by (simp_all add: unat_of_nat_u64)
  have 1: "ducknng_size_add ?l ?s = Some (?l + ?s)" "unat (?l + ?s) = length (sb_text b) + length src"
    using assms(2) l by (simp_all add: ducknng_size_add_def word_less_nat_alt unat_sub word_le_nat_alt unat_word_ariths)
  have 2: "ducknng_size_add (?l + ?s) 1 = Some (?l + ?s + 1)" "unat (?l + ?s + 1) = length (sb_text b) + length src + 1"
    using assms(2) 1 by (simp_all add: ducknng_size_add_def word_less_nat_alt unat_sub word_le_nat_alt unat_word_ariths)
  then have "?l + ?s + 1 \<noteq> 0" by (metis add_is_0 one_neq_zero unsigned_0)
  moreover have "?l + ?s + 1 \<le> ducknng_grow_capacity (?l + ?s + 1) (sb_cap b) 32" by (rule grow_capacity_ge)
  ultimately have pos: "ducknng_grow_capacity (?l + ?s + 1) (sb_cap b) 32 \<noteq> 0" "\<not> sb_cap b < ?l + ?s + 1 \<Longrightarrow> sb_cap b \<noteq> 0"
    by (auto simp: word_gt_0)
  show thesis
  proof (cases "sb_cap b < ?l + ?s + 1")
    case True
    show thesis
      by (rule that [of "\<lparr>sb_text = sb_text b @ src, sb_cap = ducknng_grow_capacity (?l + ?s + 1) (sb_cap b) 32\<rparr>"])
        (use True assms(1) 1(1) 2(1) pos(1) in \<open>simp_all add: ducknng_buf_append_def\<close>)
  next
    case False
    show thesis
      by (rule that [of "b\<lparr>sb_text := sb_text b @ src\<rparr>"])
        (use False 1(1) 2(1) pos(2) in \<open>simp_all add: ducknng_buf_append_def\<close>)
  qed
qed

section \<open>Reading what an escaper wrote\<close>

text \<open>
  \<open>reads_char s c rest\<close>: one step of the string reader takes \<open>c\<close> from the front of \<open>s\<close>. An escaper is a function
  from characters to text that the reader undoes; its clients get back quoted strings and whole objects.
\<close>

definition reads_char :: "string \<Rightarrow> char \<Rightarrow> string \<Rightarrow> bool" where
  "reads_char s c rest \<longleftrightarrow> (case s of [] \<Rightarrow> False | x # p \<Rightarrow> x \<noteq> QUOTE \<and> 0x20 \<le> code x \<and>
     (if x = BACKSLASH then json_escape p else Inr (x, p)) = Inr (c, rest))"

lemma reads_char_step:
  assumes "reads_char s c rest"
  shows "json_string_loop mem b s = (case ducknng_buf_append mem b [c] of
      None \<Rightarrow> Inl ''ducknng: out of memory parsing JSON string'' | Some b \<Rightarrow> json_string_loop mem b rest)"
proof -
  obtain x p where s: "s = x # p" "x \<noteq> QUOTE" "\<not> code x < 0x20"
      "(if x = BACKSLASH then json_escape p else Inr (x, p)) = Inr (c, rest)"
    using assms by (auto simp: reads_char_def split: list.splits)
  show ?thesis
    unfolding s(1) json_string_loop.simps(2) s(4) using s(2,3) by simp
qed

definition json_quote :: "(char \<Rightarrow> string) \<Rightarrow> string \<Rightarrow> string" where
  "json_quote esc s = QUOTE # concat (map esc s) @ [QUOTE]"

lemma hex_value_xdigit: "n < 16 \<Longrightarrow> ducknng_hex_value (xdigit n) = Some n"
proof -
  have "\<forall>n \<in> {0..<16}. ducknng_hex_value (xdigit n) = Some n" by code_simp
  then show "n < 16 \<Longrightarrow> ducknng_hex_value (xdigit n) = Some n" by simp
qed

lemma unicode_loop_04x:
  assumes "n < 256"
  shows "unicode_loop 4 0 (fmt_04x n @ rest) = Inr (n, rest)"
proof -
  have four: "4 = Suc (Suc (Suc (Suc 0)))" by simp
  have "unicode_loop (Suc (Suc (Suc (Suc 0)))) 0 (xdigit a # xdigit b # xdigit c # xdigit d # rest) =
      Inr (((a * 16 + b) * 16 + c) * 16 + d, rest)" if "a < 16" "b < 16" "c < 16" "d < 16" for a b c d
    using that by (simp add: hex_value_xdigit)
  note this [of "n div 4096 mod 16" "n div 256 mod 16" "n div 16 mod 16" "n mod 16"]
  moreover have "n div 4096 = 0" "n div 256 = 0" "n div 16 mod 16 = n div 16"
    using assms by (simp_all add: less_mult_imp_div_less)
  moreover have "fmt_04x n @ rest =
      xdigit (n div 4096 mod 16) # xdigit (n div 256 mod 16) # xdigit (n div 16 mod 16) # xdigit (n mod 16) # rest"
    by (simp add: fmt_04x_def)
  ultimately show ?thesis unfolding four by simp
qed

locale json_escaper =
  fixes esc :: "char \<Rightarrow> string"
  assumes esc_read: "code c \<noteq> 0 \<Longrightarrow> reads_char (esc c @ rest) c rest"
begin

lemma loop_reads:
  assumes "\<And>n. mem n" "nul_free s" "length (sb_text b) + length s + 2 < 2 ^ 64" "sb_text b = [] \<or> sb_cap b \<noteq> 0"
  shows "json_string_loop mem b (concat (map esc s) @ QUOTE # rest) = Inr (sb_text b @ s, rest)"
  using assms(2-4)
proof (induction s arbitrary: b)
  case Nil
  then show ?case using assms(1) by (auto simp: json_string_loop.simps(2))
next
  case (Cons c s)
  have "length (sb_text b) + length [c] + 1 < 2 ^ 64" using Cons.prems(2) by simp
  then obtain b' where b': "ducknng_buf_append mem b [c] = Some b'" "sb_text b' = sb_text b @ [c]" "sb_cap b' \<noteq> 0"
    using buf_append_ok [of mem b "[c]"] assms(1) by blast
  have "json_string_loop mem b (concat (map esc (c # s)) @ QUOTE # rest) =
      json_string_loop mem b' (concat (map esc s) @ QUOTE # rest)"
    using reads_char_step [OF esc_read [of c "concat (map esc s) @ QUOTE # rest"], of mem b] b'(1) Cons.prems(1)
    by simp
  also have "\<dots> = Inr (sb_text b' @ s, rest)"
    using Cons.prems b' by (intro Cons.IH) simp_all
  finally show ?case using b'(2) by simp
qed

lemma parse_quote:
  assumes "\<And>n. mem n" "nul_free s" "length s + 2 < 2 ^ 64"
  shows "ducknng_json_parse_string_dup mem (json_quote esc s @ rest) = Inr (s, rest)"
  using loop_reads [of mem s sb_empty rest] assms
  by (simp add: ducknng_json_parse_string_dup_def json_quote_def sb_empty_def)

lemma quote_inj:
  assumes "nul_free s" "nul_free t" "length s + 2 < 2 ^ 64" "length t + 2 < 2 ^ 64" "json_quote esc s @ r = json_quote esc t @ r'"
  shows "s = t \<and> r = r'"
proof -
  have "Inr (s, r) = ducknng_json_parse_string_dup (\<lambda>_. True) (json_quote esc t @ r')"
    using parse_quote [of "\<lambda>_. True" s r] assms(1,3) unfolding assms(5) by simp
  also have "\<dots> = Inr (t, r')" using parse_quote [of "\<lambda>_. True" t r'] assms(2,4) by simp
  finally show ?thesis by simp
qed

lemma member_quote:
  assumes "\<And>n. mem n" "nul_free k" "nul_free v" "length k + 2 < 2 ^ 64" "length v + 2 < 2 ^ 64"
  shows "json_member mem e (json_quote esc k @ CHR '':'' # json_quote esc v @ rest) = Inr (k, v, rest)"
proof -
  have "ducknng_json_skip_ws (json_quote esc v @ rest) = json_quote esc v @ rest"
    "ducknng_json_skip_ws (CHR '':'' # p) = CHR '':'' # p" for p
    by (simp_all add: ducknng_json_skip_ws_def json_ws_def json_quote_def)
  with assms show ?thesis by (simp add: json_member_def parse_quote)
qed

end

text \<open>Compact objects and what a lookup in them should find: the last match, or a refusal of a second one.\<close>

definition render_member :: "(char \<Rightarrow> string) \<Rightarrow> string \<times> string \<Rightarrow> string" where
  "render_member esc kv = json_quote esc (fst kv) @ CHR '':'' # json_quote esc (snd kv)"

fun render_members :: "(char \<Rightarrow> string) \<Rightarrow> (string \<times> string) list \<Rightarrow> string" where
  "render_members esc [] = []"
| "render_members esc [kv] = render_member esc kv"
| "render_members esc (kv # kvs) = render_member esc kv @ CHR '','' # render_members esc kvs"

lemma render_members_quote: "kvs \<noteq> [] \<Longrightarrow> \<exists>p. render_members esc kvs = QUOTE # p"
proof -
  assume "kvs \<noteq> []"
  then obtain kv kvs' where "kvs = kv # kvs'" by (cases kvs) auto
  then show ?thesis by (cases kvs') (auto simp: render_member_def json_quote_def)
qed

definition render_object :: "(char \<Rightarrow> string) \<Rightarrow> (string \<times> string) list \<Rightarrow> string" where
  "render_object esc kvs = CHR ''{'' # render_members esc kvs @ ''}''"

fun last_match :: "(string \<Rightarrow> bool) \<Rightarrow> string option \<Rightarrow> (string \<times> string) list \<Rightarrow> string option" where
  "last_match P found [] = found"
| "last_match P found ((k, v) # kvs) = last_match P (if P k then Some v else found) kvs"

definition matches :: "(string \<Rightarrow> bool) \<Rightarrow> (string \<times> string) list \<Rightarrow> nat" where
  "matches P kvs = length (filter (P \<circ> fst) kvs)"

lemma matches_simps [simp]: "matches P [] = 0"
  "matches P ((k, v) # kvs) = (if P k then 1 else 0) + matches P kvs"
  by (simp_all add: matches_def)

definition members_ok :: "(string \<times> string) list \<Rightarrow> bool" where
  "members_ok kvs \<longleftrightarrow> (\<forall>(k, v) \<in> set kvs. nul_free k \<and> nul_free v \<and> length k + 2 < 2 ^ 64 \<and> length v + 2 < 2 ^ 64)"

context json_escaper
begin

lemma object_loop_reads:
  assumes "\<And>n. mem n" "members_ok kvs" "kvs \<noteq> []"
  shows "json_object_loop mem w icase reject found (render_members esc kvs @ CHR ''}'' # rest) =
    (if reject \<and> matches (\<lambda>k. key_matches icase k w) kvs + (if found = None then 0 else 1) > 1 \<and>
        matches (\<lambda>k. key_matches icase k w) kvs > 0
     then Inl (''ducknng: duplicate JSON field '' @ quoted w)
     else Inr (last_match (\<lambda>k. key_matches icase k w) found kvs, rest))"
  using assms(2,3)
proof (induction kvs arbitrary: found)
  case (Cons kv kvs)
  obtain k v where kv: "kv = (k, v)" by (cases kv)
  have ok: "nul_free k" "nul_free v" "length k + 2 < 2 ^ 64" "length v + 2 < 2 ^ 64" "members_ok kvs"
    using Cons.prems(1) by (auto simp: members_ok_def kv)
  define err where "err = ''ducknng: duplicate JSON field '' @ quoted w"
  define tail where "tail = (if kvs = [] then [] else CHR '','' # render_members esc kvs)"
  have eq: "render_members esc (kv # kvs) @ CHR ''}'' # rest =
      json_quote esc k @ CHR '':'' # json_quote esc v @ (tail @ CHR ''}'' # rest)"
    unfolding tail_def by (cases kvs) (simp_all add: kv render_member_def)
  have ws: "ducknng_json_skip_ws (tail @ CHR ''}'' # rest) = tail @ CHR ''}'' # rest"
    by (simp add: tail_def ducknng_json_skip_ws_def json_ws_def)
  note m = member_quote [of mem k v "''ducknng: expected ':' in JSON object''" "tail @ CHR ''}'' # rest", OF assms(1) ok(1-4)]
  let ?hit = "key_matches icase k w"
  have step: "json_object_loop mem w icase reject found (render_members esc (kv # kvs) @ CHR ''}'' # rest) =
      (if ?hit \<and> found \<noteq> None \<and> reject then Inl err
       else case tail @ CHR ''}'' # rest of
         c # p \<Rightarrow> if c = CHR '','' then json_object_loop mem w icase reject (if ?hit then Some v else found) (ducknng_json_skip_ws p)
           else Inr (if ?hit then Some v else found, p))"
    unfolding eq json_object_loop.simps [of mem w icase reject found] m sum.case prod.case ws Let_def err_def
    by (cases "?hit \<and> found \<noteq> None \<and> reject"; cases "kvs = []") (simp_all only: if_True if_False, simp_all add: tail_def)
  show ?case
  proof (cases "kvs = []")
    case True
    then show ?thesis
      unfolding step err_def [symmetric] by (simp add: tail_def kv)
  next
    case False
    then obtain q where q: "render_members esc kvs = QUOTE # q" using render_members_quote by blast
    have ws: "ducknng_json_skip_ws (render_members esc kvs @ CHR ''}'' # rest) = render_members esc kvs @ CHR ''}'' # rest"
      unfolding q by (simp add: ducknng_json_skip_ws_def json_ws_def)
    note IH = Cons.IH [OF ok(5) False, folded err_def]
    have "json_object_loop mem w icase reject found (render_members esc (kv # kvs) @ CHR ''}'' # rest) =
      (if ?hit \<and> found \<noteq> None \<and> reject then Inl err
       else json_object_loop mem w icase reject (if ?hit then Some v else found) (render_members esc kvs @ CHR ''}'' # rest))"
      unfolding step using False
      by (cases "?hit \<and> found \<noteq> None \<and> reject") (simp_all only: if_True if_False, simp_all add: tail_def ws)
    then show ?thesis
      unfolding IH err_def [symmetric] kv by (cases found) auto
  qed
qed simp

lemma object_reads:
  assumes "\<And>n. mem n" "members_ok kvs" "w \<noteq> []"
  shows "ducknng_json_object_get_string mem (Some (render_object esc kvs)) (Some w) icase reject =
    (if reject \<and> matches (\<lambda>k. key_matches icase k w) kvs > 1
     then Inl (''ducknng: duplicate JSON field '' @ quoted w)
     else Inr (last_match (\<lambda>k. key_matches icase k w) None kvs))"
proof (cases "kvs = []")
  case True
  then show ?thesis
    using assms(3)
    by (simp add: ducknng_json_object_get_string_def render_object_def ducknng_json_skip_ws_def json_ws_def Let_def)
next
  case False
  then obtain p where p: "render_members esc kvs = QUOTE # p" using render_members_quote by blast
  have ws: "ducknng_json_skip_ws (CHR ''{'' # q) = CHR ''{'' # q" "ducknng_json_skip_ws (QUOTE # q) = QUOTE # q"
    "ducknng_json_skip_ws [] = []" for q
    by (simp_all add: ducknng_json_skip_ws_def json_ws_def)
  show ?thesis
    using object_loop_reads [of mem kvs w icase reject None "[]"] assms False
    by (auto simp: ducknng_json_object_get_string_def render_object_def ws p Let_def)
qed

end


section \<open>Query strings\<close>

text \<open>A percent encoding of the characters that are not letters or digits.\<close>

definition hex_of :: "nat \<Rightarrow> char" where
  "hex_of n = ''0123456789ABCDEF'' ! n"

definition pct :: "char \<Rightarrow> string" where
  "pct c = (if alnum c then [c] else [CHR ''%'', hex_of (code c div 16), hex_of (code c mod 16)])"

definition urlencode :: "string \<Rightarrow> string" where
  "urlencode s = concat (map pct s)"

lemma hex_value_of: "n < 16 \<Longrightarrow> ducknng_hex_value (hex_of n) = Some n"
  and hex_of_plain: "n < 16 \<Longrightarrow> hex_of n \<notin> {CHR ''&'', CHR ''=''}"
proof -
  have "\<forall>n \<in> {0..<16}. ducknng_hex_value (hex_of n) = Some n \<and> hex_of n \<notin> {CHR ''&'', CHR ''=''}"
    by code_simp
  then show "n < 16 \<Longrightarrow> ducknng_hex_value (hex_of n) = Some n" "n < 16 \<Longrightarrow> hex_of n \<notin> {CHR ''&'', CHR ''=''}"
    by simp_all
qed

lemma alnum_plain: "alnum c \<Longrightarrow> c \<notin> {CHR ''%'', CHR ''+'', CHR ''&'', CHR ''=''}"
  by (auto simp: alnum_def)

lemma nibble_bounds: "code c div 16 < 16" "code c mod 16 < 16"
  using code_less [of c] by (simp_all add: less_mult_imp_div_less)

lemma percent_loop_encoded:
  "nul_free s \<Longrightarrow> percent_loop True label out (urlencode s) = Inr (out @ s)"
proof (induction s arbitrary: out)
  case Nil
  then show ?case by (simp add: urlencode_def)
next
  case (Cons c s)
  have IH: "percent_loop True label (out @ [c]) (urlencode s) = Inr ((out @ [c]) @ s)"
    using Cons.prems by (intro Cons.IH) simp
  have eq: "urlencode (c # s) = pct c @ urlencode s" by (simp add: urlencode_def)
  show ?case
  proof (cases "alnum c")
    case True
    with alnum_plain [OF True] IH show ?thesis by (simp add: eq pct_def)
  next
    case False
    have "code c div 16 < 16" by (rule nibble_bounds)
    moreover have "code c div 16 * 16 + code c mod 16 = code c" by (rule div_mult_mod_eq)
    ultimately show ?thesis
      using False IH Cons.prems by (simp add: eq pct_def hex_value_of)
  qed
qed

lemma urlencode_plain: "set (urlencode s) \<inter> {CHR ''&'', CHR ''=''} = {}"
proof -
  have "set (pct c) \<inter> {CHR ''&'', CHR ''=''} = {}" for c
  proof (cases "alnum c")
    case True
    with alnum_plain [OF True] show ?thesis by (simp add: pct_def)
  next
    case False
    from hex_of_plain [OF nibble_bounds(1) [of c]] hex_of_plain [OF nibble_bounds(2) [of c]] False
    show ?thesis by (simp add: pct_def)
  qed
  then show ?thesis by (auto simp: urlencode_def)
qed

lemma split_at_found: "c \<notin> set a \<Longrightarrow> split_at c (a @ c # b) = (a, Some b)"
  by (simp add: split_at_def takeWhile_append dropWhile_append)

lemma split_at_none: "c \<notin> set a \<Longrightarrow> split_at c a = (a, None)"
proof -
  assume "c \<notin> set a"
  then have "takeWhile (\<lambda>x. x \<noteq> c) a = a" "dropWhile (\<lambda>x. x \<noteq> c) a = []"
    by (auto simp: takeWhile_eq_all_conv dropWhile_eq_Nil_conv)
  then show ?thesis unfolding split_at_def by (simp only: list.case)
qed

definition render_param :: "string \<times> string \<Rightarrow> string" where
  "render_param kv = urlencode (fst kv) @ CHR ''='' # urlencode (snd kv)"

fun render_query :: "(string \<times> string) list \<Rightarrow> string" where
  "render_query [] = []"
| "render_query [kv] = render_param kv"
| "render_query (kv # kvs) = render_param kv @ CHR ''&'' # render_query kvs"

lemma query_loop_reads:
  assumes "\<And>n. mem n" "\<forall>(k, v) \<in> set kvs. nul_free k \<and> nul_free v"
  shows "query_loop mem w reject found (render_query kvs) =
    (if reject \<and> matches (\<lambda>k. k = w) kvs + (if found = None then 0 else 1) > 1 \<and> matches (\<lambda>k. k = w) kvs > 0
     then Inl (''ducknng: duplicate query parameter '' @ quoted w)
     else Inr (last_match (\<lambda>k. k = w) found kvs))"
  using assms(2)
proof (induction kvs arbitrary: found)
  case (Cons kv kvs)
  obtain k v where kv: "kv = (k, v)" by (cases kv)
  define err where "err = ''ducknng: duplicate query parameter '' @ quoted w"
  have nf: "nul_free k" "nul_free v" using Cons.prems by (auto simp: kv)
  have pl: "CHR ''&'' \<notin> set (render_param kv)" "CHR ''='' \<notin> set (urlencode k)"
    using urlencode_plain [of k] urlencode_plain [of v] by (auto simp: render_param_def kv)
  define rest where "rest = (if kvs = [] then None else Some (render_query kvs))"
  have "split_at (CHR ''&'') (render_query (kv # kvs)) = (render_param kv, rest)"
    unfolding rest_def using pl(1) by (cases kvs) (simp_all add: split_at_found split_at_none)
  moreover have "split_at (CHR ''='') (render_param kv) = (urlencode k, Some (urlencode v))"
    using pl(2) by (simp add: render_param_def kv split_at_found)
  moreover have "ducknng_percent_decode_dup mem (urlencode s) True label = Inr s" if "nul_free s" for s label
    using assms(1) percent_loop_encoded [OF that, of label "[]"] by (simp add: ducknng_percent_decode_dup_def)
  moreover obtain x p where "render_query (kv # kvs) = x # p"
    by (cases "render_query (kv # kvs)"; cases kvs) (auto simp: render_param_def)
  ultimately have step: "query_loop mem w reject found (render_query (kv # kvs)) =
      (if k = w \<and> found \<noteq> None \<and> reject then Inl err
       else query_loop mem w reject (if k = w then Some v else found) (deref rest))"
    using nf unfolding err_def by (simp add: query_loop.simps(2))
  have rest: "deref rest = render_query kvs" by (simp add: rest_def)
  have IH: "query_loop mem w reject found (render_query kvs) =
      (if reject \<and> matches (\<lambda>k. k = w) kvs + (if found = None then 0 else 1) > 1 \<and> matches (\<lambda>k. k = w) kvs > 0
       then Inl err else Inr (last_match (\<lambda>k. k = w) found kvs))" for found
    unfolding err_def using Cons.prems by (intro Cons.IH) simp
  from step show ?case unfolding rest IH err_def [symmetric] kv by (cases found) auto
qed simp

text \<open>
  Query parameters are read back. For a query string made of percent-encoded names and values, looking up a
  name gives the value of its last occurrence, or nothing if it does not occur; with duplicates
  rejected a second occurrence is an error.
\<close>

theorem query_param_reads:
  assumes "\<forall>n. mem n" "\<forall>(k, v) \<in> set kvs. nul_free k \<and> nul_free v" "w \<noteq> []"
  shows "ducknng_query_string_get_param mem (Some (render_query kvs)) (Some w) reject =
    (if reject \<and> matches (\<lambda>k. k = w) kvs > 1
     then Inl (''ducknng: duplicate query parameter '' @ quoted w)
     else Inr (last_match (\<lambda>k. k = w) None kvs))"
  using query_loop_reads [of mem kvs w reject None] assms
  by (auto simp: ducknng_query_string_get_param_def)

theorem query_param_reads_witness:
  "ducknng_query_string_get_param (\<lambda>_. True) (Some ''a%26b=1&x=2&a%26b=3'') (Some ''a&b'') False = Inr (Some ''3'')"
proof -
  have "''a%26b=1&x=2&a%26b=3'' = render_query [(''a&b'', ''1''), (''x'', ''2''), (''a&b'', ''3'')]" by code_simp
  moreover have "ducknng_query_string_get_param (\<lambda>_. True)
      (Some (render_query [(''a&b'', ''1''), (''x'', ''2''), (''a&b'', ''3'')])) (Some ''a&b'') False =
    Inr (last_match (\<lambda>k. k = ''a&b'') None [(''a&b'', ''1''), (''x'', ''2''), (''a&b'', ''3'')])"
    by (subst query_param_reads) simp_all
  ultimately show ?thesis by simp
qed


section \<open>Header lists\<close>

text \<open>Every block allocated so far is either freed, once, or held by one of the live variables.\<close>

definition blocks_ok :: "nat list \<Rightarrow> block option list \<Rightarrow> nat \<Rightarrow> bool" where
  "blocks_ok fr live n \<longleftrightarrow> distinct (fr @ free_vars live) \<and> set (fr @ free_vars live) = {0..<n}"

lemma free_vars_simps [simp]: "free_vars [] = []" "free_vars (None # vs) = free_vars vs"
  "free_vars (Some b # vs) = fst b # free_vars vs"
  by (simp_all add: free_vars_def)

lemma blocks_ok_alloc: "blocks_ok fr live n \<Longrightarrow> blocks_ok fr (Some (n, t) # live) (Suc n)"
  by (auto simp: blocks_ok_def)

lemma header_fields_blocks:
  assumes "header_fields mem n fr name hval p = (Inr (a, b, q), m, fr')" "blocks_ok fr [name, hval, f] n"
  shows "blocks_ok fr' [a, b, f] m"
  using assms
proof (induction "length p" arbitrary: n fr name hval p rule: less_induct)
  case less
  obtain k p1 c p2 v p3 d p4 where
      s: "ducknng_json_parse_string_dup mem (ducknng_json_skip_ws p) = Inr (k, p1)"
        "ducknng_json_skip_ws p1 = c # p2" "ducknng_json_parse_string_dup mem (ducknng_json_skip_ws p2) = Inr (v, p3)"
        "ducknng_json_skip_ws p3 = d # p4" "c = CHR '':''"
    using less.prems(1) by (auto simp: header_fields.simps [of mem n fr name hval p] Let_def
        split: sum.splits prod.splits list.splits if_splits)
  let ?v = "Some (n + 1, v)"
  let ?name = "if k = ''name'' then ?v else name" and ?hval = "if k = ''name'' then hval else ?v"
  note eq = less.prems(1) [unfolded header_fields.simps [of mem n fr name hval p] s(1) sum.case prod.case
      s(2) list.case s(3) s(4) s(5) Let_def fst_conv]
  have free: "k = ''name'' \<and> name = None \<or> k = ''value'' \<and> hval = None"
    using eq by (simp del: not_None_eq split: if_split_asm)
  have cont: "a = ?name \<and> b = ?hval \<and> m = n + 2 \<and> fr' = fr @ [n] \<or>
      header_fields mem (n + 2) (fr @ [n]) ?name ?hval p4 = (Inr (a, b, q), m, fr')"
    using eq by (simp del: not_None_eq split: if_split_asm)
  have "blocks_ok fr [?v, Some (n, k), name, hval, f] (n + 2)"
    using blocks_ok_alloc [OF blocks_ok_alloc [OF less.prems(2), of k], of v] by simp
  have ok: "blocks_ok (fr @ [n]) [?name, ?hval, f] (n + 2)"
    using free
  proof
    assume "k = ''name'' \<and> name = None"
    with \<open>blocks_ok fr [?v, Some (n, k), name, hval, f] (n + 2)\<close> show ?thesis by (auto simp: blocks_ok_def)
  next
    assume "k = ''value'' \<and> hval = None"
    with \<open>blocks_ok fr [?v, Some (n, k), name, hval, f] (n + 2)\<close> show ?thesis
      by (cases name) (auto simp: blocks_ok_def)
  qed
  have "length p4 < length p" by (rule header_field_shorter [OF s(1-4)])
  with cont less.hyps ok show ?case by blast
qed


lemma blocks_ok_hit:
  "blocks_ok fr [name, hval, found] n \<Longrightarrow>
   blocks_ok (fr @ free_vars [found] @ free_vars [name, hval]) [Some (n, t)] (Suc n)"
proof -
  assume ok: "blocks_ok fr [name, hval, found] n"
  have "free_vars [name, hval, found] = free_vars [name, hval] @ free_vars [found]" by (simp add: free_vars_def)
  moreover define A B where "A = free_vars [name, hval]" and "B = free_vars [found]"
  ultimately have "distinct (fr @ A @ B)" "set fr \<union> set A \<union> set B = {0..<n}"
    using ok by (auto simp: blocks_ok_def)
  moreover from this(2) have "n \<notin> set fr" "n \<notin> set A" "n \<notin> set B" by auto
  moreover have "set (fr @ B @ A @ [n]) = {0..<Suc n}"
    using \<open>set fr \<union> set A \<union> set B = {0..<n}\<close> unfolding atLeast0_lessThan_Suc by auto
  ultimately show ?thesis unfolding A_def [symmetric] B_def [symmetric] by (auto simp: blocks_ok_def)
qed

lemma blocks_ok_miss:
  "blocks_ok fr [name, hval, found] n \<Longrightarrow> blocks_ok (fr @ free_vars [name, hval]) [found] n"
  by (simp add: blocks_ok_def free_vars_def)

lemma header_list_blocks:
  assumes "header_list_loop mem w reject found n fr p = (Inr (f, q), m, fr')" "blocks_ok fr [found] n"
  shows "blocks_ok fr' [f] m"
  using assms
proof (induction "length p" arbitrary: n fr found p rule: less_induct)
  case less
  obtain c p1 name hval p2 n1 fr1 d p3 where
      s: "ducknng_json_skip_ws p = c # p1" "header_fields mem n fr None None p1 = (Inr (name, hval, p2), n1, fr1)"
        "ducknng_json_skip_ws p2 = d # p3" "c = CHR ''{''"
    using less.prems(1) by (auto simp: header_list_loop.simps [of mem w reject found n fr p] Let_def
        split: sum.splits prod.splits list.splits if_splits)
  let ?hit = "ducknng_ascii_ieq (map_option snd name) (Some w)"
  let ?fr = "(if ?hit then fr1 @ free_vars [found] else fr1) @ free_vars [name, hval]"
  let ?found = "if ?hit then Some (n1, snd (the hval)) else found" and ?n = "if ?hit then n1 + 1 else n1"
  note eq = less.prems(1) [unfolded header_list_loop.simps [of mem w reject found n fr p] s(1) list.case
      s(2) sum.case prod.case s(3) s(4) Let_def]
  have cont: "f = ?found \<and> m = ?n \<and> fr' = ?fr \<or>
      header_list_loop mem w reject ?found ?n ?fr p3 = (Inr (f, q), m, fr')"
    using eq by (simp del: not_None_eq split: if_split_asm)
  have "blocks_ok fr [None, None, found] n" using less.prems(2) by (simp add: blocks_ok_def)
  then have "blocks_ok fr1 [name, hval, found] n1" by (rule header_fields_blocks [OF s(2)])
  then have ok: "blocks_ok ?fr [?found] ?n" by (simp add: blocks_ok_hit blocks_ok_miss)
  have "length p3 < length p" by (rule header_list_shorter [OF s(1) s(2) [symmetric] s(3)])
  with cont less.hyps ok show ?case by blast
qed

text \<open>
  C11. A successful header lookup neither leaks nor frees twice: every heap block it allocated is freed
  exactly once, except the block of the value it returns, which is not freed.
\<close>

theorem header_lookup_blocks:
  assumes "ducknng_http_headers_json_get_header mem headers_json wanted reject = (Inr found, n, fr)"
  shows "distinct fr \<and>
    set fr = {0..<n} - (case found of None \<Rightarrow> {} | Some b \<Rightarrow> {fst b}) \<and>
    (case found of None \<Rightarrow> True | Some b \<Rightarrow> fst b < n)"
proof -
  have "n = 0 \<and> fr = [] \<and> found = None \<or>
      (\<exists>p q. header_list_loop mem (deref wanted) reject None 0 [] p = (Inr (found, q), n, fr))"
    using assms unfolding ducknng_http_headers_json_get_header_def
    by (auto simp: Let_def split: if_splits list.splits sum.splits prod.splits)
  moreover have "blocks_ok [] [None] 0" by (simp add: blocks_ok_def)
  ultimately have "blocks_ok fr [found] n"
    using header_list_blocks by blast
  then show ?thesis by (cases found) (auto simp: blocks_ok_def)
qed

theorem header_lookup_blocks_witness:
  "ducknng_http_headers_json_get_header (\<lambda>_. True)
     (Some ''[{\"name\":\"h\",\"value\":\"v\"},{\"name\":\"g\",\"value\":\"w\"}]'') (Some ''H'') True =
       (Inr (Some (4, ''v'')), 9, [0, 2, 1, 3, 5, 7, 6, 8]) \<and>
   set [0, 2, 1, 3, 5, 7, 6, 8] = {0..<9} - {4 :: nat}"
proof -
  have e: "ducknng_http_headers_json_get_header (\<lambda>_. True)
     (Some ''[{\"name\":\"h\",\"value\":\"v\"},{\"name\":\"g\",\"value\":\"w\"}]'') (Some ''H'') True =
       (Inr (Some (4, ''v'')), 9, [0, 2, 1, 3, 5, 7, 6, 8])"
    by code_simp
  from header_lookup_blocks [OF e] e show ?thesis by simp
qed

text \<open>Compact header lists, and what the reader makes of them.\<close>

definition render_header :: "(char \<Rightarrow> string) \<Rightarrow> string \<times> string \<Rightarrow> string" where
  "render_header esc kv = CHR ''{'' # render_members esc [(''name'', fst kv), (''value'', snd kv)] @ ''}''"

fun render_headers :: "(char \<Rightarrow> string) \<Rightarrow> (string \<times> string) list \<Rightarrow> string" where
  "render_headers esc [] = []"
| "render_headers esc [kv] = render_header esc kv"
| "render_headers esc (kv # kvs) = render_header esc kv @ CHR '','' # render_headers esc kvs"

definition headers_ok :: "(string \<times> string) list \<Rightarrow> bool" where
  "headers_ok kvs \<longleftrightarrow> members_ok kvs \<and> (\<forall>(k, v) \<in> set kvs. k \<noteq> [] \<and> ducknng_http_header_value_is_valid (Some v))"

context json_escaper
begin

lemma parse_quote_ws:
  assumes "\<And>n. mem n" "nul_free s" "length s + 2 < 2 ^ 64"
  shows "ducknng_json_parse_string_dup mem (ducknng_json_skip_ws (json_quote esc s @ rest)) = Inr (s, rest)"
proof -
  have "ducknng_json_skip_ws (json_quote esc s @ rest) = json_quote esc s @ rest"
    by (simp add: ducknng_json_skip_ws_def json_ws_def json_quote_def)
  with parse_quote [of mem s rest] assms show ?thesis by simp
qed

lemma header_fields_step:
  assumes "\<And>n. mem n" "nul_free k" "nul_free v" "length k + 2 < 2 ^ 64" "length v + 2 < 2 ^ 64"
    and d: "\<not> json_ws d"
  shows "header_fields mem n fr name hval (json_quote esc k @ CHR '':'' # json_quote esc v @ d # rest) =
    (let both = fr @ [n, n + 1] @ free_vars [Some (n, k), Some (n + 1, v), name, hval];
         name' = (if k = ''name'' then Some (n + 1, v) else name);
         hval' = (if k = ''name'' then hval else Some (n + 1, v))
     in if k = ''name'' \<and> name \<noteq> None
        then (Inl ''ducknng: duplicate header name field in headers_json'', n + 2, both)
        else if k \<noteq> ''name'' \<and> k = ''value'' \<and> hval \<noteq> None
        then (Inl ''ducknng: duplicate header value field in headers_json'', n + 2, both)
        else if k \<noteq> ''name'' \<and> k \<noteq> ''value''
        then (Inl ''ducknng: headers_json objects may contain only name and value fields'', n + 2, both)
        else if d = CHR '','' then header_fields mem (n + 2) (fr @ [n]) name' hval' rest
        else if d = CHR ''}'' then (Inr (name', hval', rest), n + 2, fr @ [n])
        else (Inl ''ducknng: expected ',' or '}' in headers_json'', n + 2, (fr @ [n]) @ free_vars [name', hval']))"
proof -
  have ws: "ducknng_json_skip_ws (CHR '':'' # p) = CHR '':'' # p" "ducknng_json_skip_ws (d # p) = d # p" for p
    using d by (simp_all add: ducknng_json_skip_ws_def json_ws_def)
  note p1 = parse_quote_ws [of mem k "CHR '':'' # json_quote esc v @ d # rest", OF assms(1,2,4)]
  note p2 = parse_quote_ws [of mem v "d # rest", OF assms(1,3,5)]
  show ?thesis
    unfolding header_fields.simps [of mem n fr name hval] p1 sum.case prod.case ws list.case p2 Let_def fst_conv
    by (simp only: simp_thms if_False if_True)
qed

lemma header_fields_reads:
  assumes "\<And>n. mem n" "nul_free k" "nul_free v" "length k + 2 < 2 ^ 64" "length v + 2 < 2 ^ 64"
  shows "header_fields mem n fr None None (render_members esc [(''name'', k), (''value'', v)] @ CHR ''}'' # rest) =
    (Inr (Some (n + 1, k), Some (n + 3, v), rest), n + 4, fr @ [n, n + 2])"
proof -
  have ws: "\<not> json_ws (CHR '','')" "\<not> json_ws (CHR ''}'')" by (simp_all add: json_ws_def)
  have nv: "nul_free ''name''" "nul_free ''value''" "length ''name'' + 2 < (2 :: nat) ^ 64" "length ''value'' + 2 < (2 :: nat) ^ 64"
    by simp_all
  let ?tail = "json_quote esc ''value'' @ CHR '':'' # json_quote esc v @ CHR ''}'' # rest"
  have eq: "render_members esc [(''name'', k), (''value'', v)] @ CHR ''}'' # rest =
      json_quote esc ''name'' @ CHR '':'' # json_quote esc k @ CHR '','' # ?tail"
    by (simp add: render_member_def)
  have 1: "header_fields mem n fr None None (json_quote esc ''name'' @ CHR '':'' # json_quote esc k @ CHR '','' # ?tail) =
      header_fields mem (n + 2) (fr @ [n]) (Some (n + 1, k)) None ?tail"
    by (subst header_fields_step [OF assms(1) nv(1) assms(2) nv(3) assms(4) ws(1)]) (simp add: Let_def)
  have 2: "header_fields mem (n + 2) (fr @ [n]) (Some (n + 1, k)) None ?tail =
      (Inr (Some (n + 1, k), Some (n + 3, v), rest), n + 4, fr @ [n, n + 2])"
    by (subst header_fields_step [OF assms(1) nv(2) assms(3) nv(4) assms(5) ws(2)]) (simp add: Let_def)
  show ?thesis unfolding eq 1 2 ..
qed

lemma header_list_step:
  assumes mem: "\<And>n. mem n" and ok: "headers_ok ((k, v) # kvs)" and d: "d = CHR '','' \<or> d = CHR '']''"
  shows "\<exists>n' fr'. header_list_loop mem w reject found n fr (render_header esc (k, v) @ d # rest) =
    (let hit = ducknng_ascii_ieq (Some k) (Some w); found' = (if hit then Some (n + 4, v) else found)
     in if hit \<and> found \<noteq> None \<and> reject
        then (Inl (''ducknng: duplicate HTTP header '' @ quoted w), n', fr')
        else if d = CHR '','' then header_list_loop mem w reject found' n' fr' rest
        else (Inr (found', rest), n', fr'))"
proof -
  have kv: "nul_free k" "nul_free v" "length k + 2 < 2 ^ 64" "length v + 2 < 2 ^ 64" "k \<noteq> []"
      "ducknng_http_header_value_is_valid (Some v)"
    using ok by (auto simp: headers_ok_def members_ok_def)
  have ws: "ducknng_json_skip_ws (CHR ''{'' # p) = CHR ''{'' # p" "ducknng_json_skip_ws (d # p) = d # p" for p
    using d by (auto simp: ducknng_json_skip_ws_def json_ws_def)
  let ?p = "render_members esc [(''name'', k), (''value'', v)] @ CHR ''}'' # d # rest"
  have eq: "render_header esc (k, v) @ d # rest = CHR ''{'' # ?p"
    by (simp only: render_header_def fst_conv snd_conv append.simps append_assoc)
  note f = header_fields_reads [of mem k v n fr "d # rest", OF mem kv(1-4)]
  let ?hit = "ducknng_ascii_ieq (Some k) (Some w)"
  have red: "header_list_loop mem w reject found n fr (CHR ''{'' # ?p) =
      (if ?hit \<and> found \<noteq> None \<and> reject
       then (Inl (''ducknng: duplicate HTTP header '' @ quoted w), n + 4,
             (fr @ [n, n + 2]) @ free_vars [Some (n + 1, k), Some (n + 3, v), found])
       else if d = CHR '','' then header_list_loop mem w reject (if ?hit then Some (n + 4, v) else found)
             (if ?hit then n + 4 + 1 else n + 4)
             ((if ?hit then (fr @ [n, n + 2]) @ free_vars [found] else fr @ [n, n + 2]) @
              free_vars [Some (n + 1, k), Some (n + 3, v)]) rest
       else (Inr (if ?hit then Some (n + 4, v) else found, rest), if ?hit then n + 4 + 1 else n + 4,
             (if ?hit then (fr @ [n, n + 2]) @ free_vars [found] else fr @ [n, n + 2]) @
              free_vars [Some (n + 1, k), Some (n + 3, v)]))"
    unfolding header_list_loop.simps [of mem w reject found n fr] ws list.case f sum.case prod.case Let_def
    using mem kv(5,6) d by (auto simp del: not_None_eq free_vars_simps)
  show ?thesis
    unfolding eq red Let_def by (cases "?hit \<and> found \<noteq> None \<and> reject") (simp_all only: if_True if_False, auto)
qed

lemma header_list_reads:
  assumes "\<And>n. mem n" "headers_ok kvs" "kvs \<noteq> []"
  shows "\<exists>r n' fr'. header_list_loop mem w reject found n fr (render_headers esc kvs @ CHR '']'' # rest) = (r, n', fr') \<and>
    (if reject \<and> matches (\<lambda>k. ducknng_ascii_ieq (Some k) (Some w)) kvs + (if found = None then 0 else 1) > 1 \<and>
        matches (\<lambda>k. ducknng_ascii_ieq (Some k) (Some w)) kvs > 0
     then r = Inl (''ducknng: duplicate HTTP header '' @ quoted w)
     else \<exists>f. r = Inr (f, rest) \<and>
       map_option snd f = last_match (\<lambda>k. ducknng_ascii_ieq (Some k) (Some w)) (map_option snd found) kvs)"
  using assms(2,3)
proof (induction kvs arbitrary: found n fr)
  case (Cons kv kvs)
  obtain k v where kv: "kv = (k, v)" by (cases kv)
  define err where "err = ''ducknng: duplicate HTTP header '' @ quoted w"
  let ?hit = "ducknng_ascii_ieq (Some k) (Some w)"
  have c: "(CHR '']'' = CHR '','') = False" "(CHR '','' = CHR '','') = True" by simp_all
  show ?case
  proof (cases "kvs = []")
    case True
    obtain n' fr' where s: "header_list_loop mem w reject found n fr (render_header esc (k, v) @ CHR '']'' # rest) =
        (if ?hit \<and> found \<noteq> None \<and> reject then (Inl err, n', fr')
         else (Inr (if ?hit then Some (n + 4, v) else found, rest), n', fr'))"
      using header_list_step [of mem k v kvs "CHR '']''" w reject found n fr rest] assms(1) Cons.prems(1)
      unfolding err_def kv Let_def c if_False if_True by blast
    show ?thesis
      unfolding err_def [symmetric] using True s by (cases found) (auto simp: kv)
  next
    case False
    then have eq: "render_headers esc ((k, v) # kvs) @ CHR '']'' # rest =
        render_header esc (k, v) @ CHR '','' # (render_headers esc kvs @ CHR '']'' # rest)"
      by (cases kvs) simp_all
    obtain n' fr' where s: "header_list_loop mem w reject found n fr (render_headers esc ((k, v) # kvs) @ CHR '']'' # rest) =
        (if ?hit \<and> found \<noteq> None \<and> reject then (Inl err, n', fr')
         else header_list_loop mem w reject (if ?hit then Some (n + 4, v) else found) n' fr'
           (render_headers esc kvs @ CHR '']'' # rest))"
      using header_list_step [of mem k v kvs "CHR '',''" w reject found n fr "render_headers esc kvs @ CHR '']'' # rest"]
        assms(1) Cons.prems(1) unfolding err_def kv Let_def eq c if_True by blast
    have "headers_ok kvs" using Cons.prems(1) by (auto simp: headers_ok_def members_ok_def)
    note IH = Cons.IH [OF this False, folded err_def, of "if ?hit then Some (n + 4, v) else found" n' fr']
    show ?thesis
      unfolding kv s err_def [symmetric] using IH by (cases found; cases ?hit) auto
  qed
qed simp

lemma headers_read:
  assumes "\<And>n. mem n" "headers_ok kvs" "w \<noteq> []"
  shows "\<exists>r n fr. ducknng_http_headers_json_get_header mem
      (Some (CHR ''['' # render_headers esc kvs @ '']'')) (Some w) reject = (r, n, fr) \<and>
    (if reject \<and> matches (\<lambda>k. ducknng_ascii_ieq (Some k) (Some w)) kvs > 1
     then r = Inl (''ducknng: duplicate HTTP header '' @ quoted w)
     else \<exists>f. r = Inr f \<and> map_option snd f = last_match (\<lambda>k. ducknng_ascii_ieq (Some k) (Some w)) None kvs)"
proof (cases "kvs = []")
  case True
  then show ?thesis
    using assms(3)
    by (simp add: ducknng_http_headers_json_get_header_def ducknng_json_skip_ws_def json_ws_def Let_def)
next
  case False
  then obtain p where p: "render_headers esc kvs = CHR ''{'' # p"
    by (cases kvs; cases "tl kvs") (auto simp: render_header_def)
  have ws: "ducknng_json_skip_ws (CHR ''['' # q) = CHR ''['' # q" "ducknng_json_skip_ws (CHR ''{'' # q) = CHR ''{'' # q"
    "ducknng_json_skip_ws [] = []" for q
    by (simp_all add: ducknng_json_skip_ws_def json_ws_def)
  obtain r n fr where l: "header_list_loop mem w reject None 0 [] (CHR ''{'' # p @ '']'') = (r, n, fr)"
    and r: "if reject \<and> matches (\<lambda>k. ducknng_ascii_ieq (Some k) (Some w)) kvs > 1
     then r = Inl (''ducknng: duplicate HTTP header '' @ quoted w)
     else \<exists>f. r = Inr (f, []) \<and> map_option snd f = last_match (\<lambda>k. ducknng_ascii_ieq (Some k) (Some w)) None kvs"
    using header_list_reads [of mem kvs w reject None 0 "[]" "[]"] assms(1,2) False unfolding p
    by (auto split: if_splits)
  have "ducknng_http_headers_json_get_header mem (Some (CHR ''['' # render_headers esc kvs @ '']'')) (Some w) reject =
      (case (r, n, fr) of (Inl err, n, fr) \<Rightarrow> (Inl err, n, fr)
       | (Inr (found, p), n, fr) \<Rightarrow>
           if ducknng_json_skip_ws p \<noteq> []
           then (Inl ''ducknng: trailing characters after headers_json'', n, fr @ free_vars [found])
           else (Inr found, n, fr))"
    using assms(3) l by (simp add: ducknng_http_headers_json_get_header_def p ws Let_def)
  with r show ?thesis
    by (cases "reject \<and> matches (\<lambda>k. ducknng_ascii_ieq (Some k) (Some w)) kvs > 1") (auto simp: ws)
qed

end

section \<open>Compact lists\<close>

text \<open>Texts joined by commas, and characters a JSON string holds as they are.\<close>

fun commas :: "string list \<Rightarrow> string" where
  "commas [] = []"
| "commas [x] = x"
| "commas (x # xs) = x @ CHR '','' # commas xs"

definition plain_char :: "char \<Rightarrow> bool" where
  "plain_char c \<longleftrightarrow> c \<noteq> QUOTE \<and> c \<noteq> BACKSLASH \<and> 0x20 \<le> code c"

lemma commas_Cons: "commas (x # xs) = x @ concat (map (\<lambda>y. CHR '','' # y) xs)"
  by (induction xs arbitrary: x) simp_all

lemma commas_append:
  "xs \<noteq> [] \<Longrightarrow> commas (xs @ ys) = commas xs @ concat (map (\<lambda>y. CHR '','' # y) ys)"
  by (cases xs) (simp_all add: commas_Cons)


text \<open>A compact array of strings, and what the membership test finds in it.\<close>

definition render_array :: "(char \<Rightarrow> string) \<Rightarrow> string list \<Rightarrow> string" where
  "render_array esc xs = CHR ''['' # commas (map (json_quote esc) xs) @ '']''"

context json_escaper
begin

lemma array_loop_reads:
  assumes "\<And>n. mem n" "list_all (\<lambda>x. nul_free x \<and> length x + 2 < 2 ^ 64) xs" "xs \<noteq> []"
  shows "json_array_loop mem wanted found count (commas (map (json_quote esc) xs) @ CHR '']'' # rest) =
    Inr (found \<or> wanted \<in> Some ` set xs, count + length xs, CHR '']'' # rest)"
  using assms(2,3)
proof (induction xs arbitrary: found count)
  case (Cons x xs)
  have x: "ducknng_json_parse_string_dup mem (json_quote esc x @ r) = Inr (x, r)" for r
    using parse_quote [of mem x r] assms(1) Cons.prems(1) by simp
  have ws: "ducknng_json_skip_ws (CHR '']'' # r) = CHR '']'' # r" "ducknng_json_skip_ws (CHR '','' # r) = CHR '','' # r"
    "ducknng_json_skip_ws (QUOTE # r) = QUOTE # r" for r
    by (simp_all add: ducknng_json_skip_ws_def json_ws_def)
  show ?case
  proof (cases xs)
    case Nil
    then show ?thesis by (subst json_array_loop.simps) (auto simp: x ws)
  next
    case (Cons y ys)
    obtain q where q: "commas (map (json_quote esc) xs) = QUOTE # q"
      by (simp add: Cons commas_Cons json_quote_def)
    from Cons.IH [of "found \<or> wanted = Some x" "count + 1"] Cons.prems(1) show ?thesis
      unfolding json_array_loop.simps [of mem wanted found count]
      using q by (auto simp: Cons x ws)
  qed
qed simp

lemma array_contains:
  assumes "\<And>n. mem n" "list_all (\<lambda>x. nul_free x \<and> length x + 2 < 2 ^ 64) xs"
  shows "ducknng_json_string_array_contains mem (Some (render_array esc xs)) wanted = Inr (wanted \<in> Some ` set xs, length xs)"
proof (cases xs)
  case Nil
  then show ?thesis
    by (simp add: ducknng_json_string_array_contains_def render_array_def ducknng_json_skip_ws_def json_ws_def Let_def)
next
  case (Cons y ys)
  then obtain q where q: "commas (map (json_quote esc) xs) = QUOTE # q"
    by (simp add: commas_Cons json_quote_def)
  have ws: "ducknng_json_skip_ws (CHR ''['' # r) = CHR ''['' # r" "ducknng_json_skip_ws (QUOTE # r) = QUOTE # r"
    "ducknng_json_skip_ws [] = []" for r
    by (simp_all add: ducknng_json_skip_ws_def json_ws_def)
  have "xs \<noteq> []" by (simp add: Cons)
  with array_loop_reads [of mem xs wanted False 0 "[]"] assms show ?thesis
    by (simp add: ducknng_json_string_array_contains_def render_array_def ws q Let_def)
qed

end

end
