(* ===== verification/Registry.thy ===== *)
theory Registry
  imports Wire Util
begin

text \<open>
  The method registry (\<open>ducknng_registry.c\<close>): descriptors, registration one by one and in bulk, removal by
  name and by family, the authentication flag, lookup by the name bytes of a frame, the reply object a
  handler fills in, and the manifest.

  The arrays \<open>methods\<close> and \<open>owned\<close> are one list of slots, a descriptor and whether the registry owns the copy; the
  handler and its data are opaque numbers. Allocations of an operation are the parameter \<open>ok\<close>, by
  ordinal. The manifest builds text with a growing buffer whose capacities are natural numbers; \<open>mem\<close> says which
  sizes can be allocated.
\<close>

datatype transport_pattern = TRANSPORT_REQREP | TRANSPORT_PUBSUB
datatype payload_format = PAYLOAD_NONE | PAYLOAD_JSON | PAYLOAD_ARROW_IPC_STREAM
  | PAYLOAD_DUCKNNG_QUACK_BATCH | PAYLOAD_UPLOAD_APPEND
datatype response_mode = RESPONSE_NONE | RESPONSE_METADATA_ONLY | RESPONSE_ROWS
  | RESPONSE_METADATA_OR_ROWS | RESPONSE_SESSION_OPEN | RESPONSE_EVENT
datatype session_behavior = SESSION_STATELESS | SESSION_OPENS | SESSION_REQUIRES
  | SESSION_CLOSES | SESSION_CANCELS

record method_descriptor =
  md_name :: cstring
  family :: cstring
  summary :: cstring
  md_transport :: transport_pattern
  request_payload_format :: payload_format
  response_payload_format :: payload_format
  md_response_mode :: response_mode
  md_session_behavior :: session_behavior
  accepted_request_flags :: u32
  emitted_reply_flags :: u32
  max_request_bytes :: size_t
  max_reply_bytes :: size_t
  requires_auth :: bool
  requires_session :: bool
  opens_session :: bool
  closes_session :: bool
  mutates_state :: bool
  idempotent :: bool
  deprecated :: bool
  disabled :: bool
  version_introduced :: int
  request_schema_json :: cstring
  response_schema_json :: cstring
  handler :: "nat option"
  handler_data :: "nat option"

record method_registry =
  slots :: "(method_descriptor \<times> bool) list"
  method_cap :: nat

definition methods :: "method_registry \<Rightarrow> method_descriptor list" where
  "methods reg = map fst (slots reg)"

section \<open>Registration\<close>

definition ducknng_method_registry_init :: method_registry where
  "ducknng_method_registry_init = \<lparr> slots = [], method_cap = 0 \<rparr>"

definition ducknng_method_registry_destroy :: "method_registry \<Rightarrow> method_registry" where
  "ducknng_method_registry_destroy reg = ducknng_method_registry_init"

definition ducknng_registry_reserve ::
  "(nat \<Rightarrow> bool) \<Rightarrow> method_registry \<Rightarrow> nat \<Rightarrow> cstring \<times> method_registry" where
  "ducknng_registry_reserve ok reg want =
     (let next_cap = (if method_cap reg \<noteq> 0 then method_cap reg * 2 else 8)
      in if method_cap reg \<ge> want then (None, reg)
         else if \<not> ok 0 \<or> \<not> ok 1 then (Some ''ducknng: out of memory growing method registry'', reg)
         else (None, reg\<lparr>method_cap := double_until next_cap want\<rparr>))"

definition named :: "string \<Rightarrow> method_descriptor \<Rightarrow> bool" where
  "named name m = (md_name m = Some name)"

definition ducknng_method_name_exists :: "method_registry \<Rightarrow> cstring \<Rightarrow> bool" where
  "ducknng_method_name_exists reg name =
     (case name of None \<Rightarrow> False | Some n \<Rightarrow> list_ex (named n) (methods reg))"

definition ducknng_method_descriptor_valid :: "method_descriptor option \<Rightarrow> bool" where
  "ducknng_method_descriptor_valid m =
     (case m of None \<Rightarrow> False | Some m \<Rightarrow> nonempty (md_name m) \<and> handler m \<noteq> None)"

definition ducknng_method_name_exists_in_batch :: "method_descriptor option list \<Rightarrow> cstring \<Rightarrow> bool" where
  "ducknng_method_name_exists_in_batch batch name =
     (case name of None \<Rightarrow> False
      | Some n \<Rightarrow> list_ex (\<lambda>m. case m of None \<Rightarrow> False | Some m \<Rightarrow> named n m) batch)"

definition ducknng_registry_remove_at :: "method_registry \<Rightarrow> nat \<Rightarrow> method_registry" where
  "ducknng_registry_remove_at reg idx =
     (if idx \<ge> length (slots reg) then reg else reg\<lparr>slots := remove_nth idx (slots reg)\<rparr>)"

text \<open>\<open>None\<close> is the success code 1, \<open>Some\<close> the failure 0 with its message.\<close>

definition ducknng_method_registry_register ::
  "(nat \<Rightarrow> bool) \<Rightarrow> method_registry \<Rightarrow> method_descriptor option \<Rightarrow> cstring \<times> method_registry" where
  "ducknng_method_registry_register ok reg m =
     (if \<not> ducknng_method_descriptor_valid m then (Some ''ducknng: invalid method descriptor'', reg)
      else if ducknng_method_name_exists reg (md_name (the m))
      then (Some ''ducknng: method already registered'', reg)
      else case ducknng_registry_reserve ok reg (length (slots reg) + 1) of
        (Some err, reg) \<Rightarrow> (Some err, reg)
      | (None, reg) \<Rightarrow> (None, reg\<lparr>slots := slots reg @ [(the m, False)]\<rparr>))"

fun check_batch ::
  "method_registry \<Rightarrow> method_descriptor option list \<Rightarrow> method_descriptor option list \<Rightarrow> cstring" where
  "check_batch reg seen [] = None"
| "check_batch reg seen (m # ms) =
     (if \<not> ducknng_method_descriptor_valid m
      then Some ''ducknng: invalid method descriptor in bulk registration''
      else if ducknng_method_name_exists reg (md_name (the m)) \<or>
              ducknng_method_name_exists_in_batch seen (md_name (the m))
      then Some ''ducknng: duplicate method name in bulk registration''
      else check_batch reg (seen @ [m]) ms)"

definition ducknng_method_registry_register_many ::
  "(nat \<Rightarrow> bool) \<Rightarrow> method_registry \<Rightarrow> method_descriptor option list option \<Rightarrow> cstring \<times> method_registry" where
  "ducknng_method_registry_register_many ok reg ms =
     (case ms of
        None \<Rightarrow> (Some ''ducknng: invalid bulk method registration request'', reg)
      | Some ms \<Rightarrow>
          (case check_batch reg [] ms of
             Some err \<Rightarrow> (Some err, reg)
           | None \<Rightarrow>
               (case ducknng_registry_reserve ok reg (length (slots reg) + length ms) of
                  (Some err, reg) \<Rightarrow> (Some err, reg)
                | (None, reg) \<Rightarrow>
                    (None, reg\<lparr>slots := slots reg @ map (\<lambda>m. (the m, False)) ms\<rparr>))))"

definition ducknng_method_registry_unregister :: "method_registry \<Rightarrow> cstring \<Rightarrow> bool \<times> method_registry" where
  "ducknng_method_registry_unregister reg name =
     (if \<not> nonempty name then (False, reg)
      else case find_idx (named (deref name)) (methods reg) of
        None \<Rightarrow> (False, reg)
      | Some i \<Rightarrow> (True, ducknng_registry_remove_at reg i))"

function unregister_family_loop :: "string \<Rightarrow> nat \<Rightarrow> nat \<Rightarrow> method_registry \<Rightarrow> nat \<times> method_registry" where
  "unregister_family_loop fam i removed reg =
     (if i < length (slots reg) then
        (if family (methods reg ! i) = Some fam
         then unregister_family_loop fam i (removed + 1) (ducknng_registry_remove_at reg i)
         else unregister_family_loop fam (i + 1) removed reg)
      else (removed, reg))"
  by pat_completeness auto
termination
proof (relation "measure (\<lambda>(fam, i, removed, reg). 2 * length (slots reg) - i)")
  fix fam :: string and i removed :: nat and reg :: method_registry
  assume i: "i < length (slots reg)"
  from length_remove_nth [OF i] i
  show "((fam, i, removed + 1, ducknng_registry_remove_at reg i), fam, i, removed, reg)
      \<in> measure (\<lambda>(fam, i, removed, reg). 2 * length (slots reg) - i)"
    by (simp add: ducknng_registry_remove_at_def)
qed auto

declare unregister_family_loop.simps [simp del]

definition ducknng_method_registry_unregister_family :: "method_registry \<Rightarrow> cstring \<Rightarrow> nat \<times> method_registry" where
  "ducknng_method_registry_unregister_family reg fam =
     (if \<not> nonempty fam then (0, reg) else unregister_family_loop (deref fam) 0 0 reg)"

section \<open>Authentication and lookup\<close>

definition ducknng_method_registry_set_requires_auth ::
  "(nat \<Rightarrow> bool) \<Rightarrow> method_registry \<Rightarrow> cstring \<Rightarrow> bool \<Rightarrow> cstring \<times> method_registry" where
  "ducknng_method_registry_set_requires_auth ok reg name auth =
     (if \<not> nonempty name then (Some ''ducknng: method name is required'', reg)
      else case find_idx (named (deref name)) (methods reg) of
        None \<Rightarrow> (Some ''ducknng: method not found'', reg)
      | Some i \<Rightarrow>
          let m = methods reg ! i
          in if requires_auth m = auth then (None, reg)
             else if \<not> ok 0 then (Some ''ducknng: out of memory updating method auth policy'', reg)
             else (None, reg\<lparr>slots := (slots reg)[i := (m\<lparr>requires_auth := auth\<rparr>, True)]\<rparr>))"

definition ducknng_method_registry_restore_auth_inplace ::
  "method_registry \<Rightarrow> cstring \<Rightarrow> bool \<Rightarrow> bool \<times> method_registry" where
  "ducknng_method_registry_restore_auth_inplace reg name auth =
     (if \<not> nonempty name then (False, reg)
      else case find_idx (named (deref name)) (methods reg) of
        None \<Rightarrow> (False, reg)
      | Some i \<Rightarrow>
          let (m, own) = slots reg ! i
          in if requires_auth m = auth then (True, reg)
             else if own then (True, reg\<lparr>slots := (slots reg)[i := (m\<lparr>requires_auth := auth\<rparr>, own)]\<rparr>)
             else (False, reg))"

definition ducknng_method_registry_find :: "method_registry \<Rightarrow> bytes option \<Rightarrow> u32 \<Rightarrow> method_descriptor option" where
  "ducknng_method_registry_find reg name name_len =
     (case name of
        None \<Rightarrow> None
      | Some bs \<Rightarrow>
          find (\<lambda>m. case md_name m of
                  None \<Rightarrow> False
                | Some n \<Rightarrow> of_nat (length n) = name_len \<and> take (length n) bs = bytes_of n) (methods reg))"

section \<open>Replies\<close>

record method_reply =
  r_type :: u8
  r_flags :: u32
  r_payload :: "bytes option"
  prebuilt_msg :: "bytes option"
  r_payload_len :: size_t
  prefix_size :: size_t
  r_error :: cstring
  r_status :: int

definition ducknng_method_reply_init :: method_reply where
  "ducknng_method_reply_init = \<lparr> r_type = DUCKNNG_RPC_RESULT, r_flags = 0, r_payload = None,
     prebuilt_msg = None, r_payload_len = 0, prefix_size = 0, r_error = None, r_status = DUCKNNG_STATUS_OK \<rparr>"

definition ducknng_method_reply_release_body :: "method_reply \<Rightarrow> method_reply" where
  "ducknng_method_reply_release_body r =
     r\<lparr>r_payload := None, prebuilt_msg := None, r_payload_len := 0, prefix_size := 0\<rparr>"

definition ducknng_method_reply_reset :: "method_reply \<Rightarrow> method_reply" where
  "ducknng_method_reply_reset r = ducknng_method_reply_init"

definition ducknng_method_reply_set_payload ::
  "method_reply \<Rightarrow> u8 \<Rightarrow> u32 \<Rightarrow> bytes option \<Rightarrow> size_t \<Rightarrow> method_reply" where
  "ducknng_method_reply_set_payload r ty flags payload len =
     (ducknng_method_reply_release_body r)\<lparr>r_type := ty, r_flags := flags, r_payload := payload,
        r_payload_len := len, r_status := DUCKNNG_STATUS_OK\<rparr>"

definition ducknng_method_reply_set_prebuilt_message ::
  "method_reply \<Rightarrow> u8 \<Rightarrow> u32 \<Rightarrow> bytes option \<Rightarrow> size_t \<Rightarrow> size_t \<Rightarrow> bool \<times> method_reply" where
  "ducknng_method_reply_set_prebuilt_message r ty flags msg prefix len =
     (if msg = None then (False, r)
      else (True, (ducknng_method_reply_release_body r)\<lparr>r_type := ty, r_flags := flags, prebuilt_msg := msg,
              r_payload_len := len, prefix_size := prefix, r_status := DUCKNNG_STATUS_OK\<rparr>))"

definition ducknng_method_reply_set_error ::
  "(nat \<Rightarrow> bool) \<Rightarrow> method_reply \<Rightarrow> int \<Rightarrow> cstring \<Rightarrow> bool \<times> method_reply" where
  "ducknng_method_reply_set_error ok r status message =
     (let text = (if ok 0 then Some (case message of None \<Rightarrow> ''ducknng: unspecified error'' | Some m \<Rightarrow> m) else None)
      in (text \<noteq> None, (ducknng_method_reply_release_body r)\<lparr>r_type := DUCKNNG_RPC_ERROR, r_flags := 0,
            r_status := status, r_error := text\<rparr>))"

section \<open>Names of the enumerations and the projection\<close>

fun ducknng_transport_pattern_name :: "transport_pattern \<Rightarrow> string" where
  "ducknng_transport_pattern_name TRANSPORT_REQREP = ''reqrep''"
| "ducknng_transport_pattern_name TRANSPORT_PUBSUB = ''pubsub''"

fun ducknng_payload_format_name :: "payload_format \<Rightarrow> string" where
  "ducknng_payload_format_name PAYLOAD_NONE = ''none''"
| "ducknng_payload_format_name PAYLOAD_JSON = ''json''"
| "ducknng_payload_format_name PAYLOAD_ARROW_IPC_STREAM = ''arrow_ipc_stream''"
| "ducknng_payload_format_name PAYLOAD_DUCKNNG_QUACK_BATCH = ''ducknng_quack_batch''"
| "ducknng_payload_format_name PAYLOAD_UPLOAD_APPEND = ''ducknng_upload_append''"

fun ducknng_response_mode_name :: "response_mode \<Rightarrow> string" where
  "ducknng_response_mode_name RESPONSE_NONE = ''none''"
| "ducknng_response_mode_name RESPONSE_METADATA_ONLY = ''metadata_only''"
| "ducknng_response_mode_name RESPONSE_ROWS = ''rows''"
| "ducknng_response_mode_name RESPONSE_METADATA_OR_ROWS = ''metadata_or_rows''"
| "ducknng_response_mode_name RESPONSE_SESSION_OPEN = ''session_open''"
| "ducknng_response_mode_name RESPONSE_EVENT = ''event''"

fun ducknng_session_behavior_name :: "session_behavior \<Rightarrow> string" where
  "ducknng_session_behavior_name SESSION_STATELESS = ''stateless''"
| "ducknng_session_behavior_name SESSION_OPENS = ''opens_session''"
| "ducknng_session_behavior_name SESSION_REQUIRES = ''requires_session''"
| "ducknng_session_behavior_name SESSION_CLOSES = ''closes_session''"
| "ducknng_session_behavior_name SESSION_CANCELS = ''cancels_session''"

record method_projection =
  v_name :: string
  v_family :: string
  v_summary :: string
  v_transport_pattern :: string
  v_request_payload_format :: string
  v_response_payload_format :: string
  v_response_mode :: string
  v_session_behavior :: string
  v_request_schema_json :: cstring
  v_response_schema_json :: cstring
  v_requires_auth :: bool
  v_requires_session :: bool
  v_opens_session :: bool
  v_closes_session :: bool
  v_mutates_state :: bool
  v_idempotent :: bool
  v_deprecated :: bool
  v_disabled :: bool
  v_accepted_request_flags :: u32
  v_emitted_reply_flags :: u32
  v_max_request_bytes :: size_t
  v_max_reply_bytes :: size_t
  v_version_introduced :: int

definition ducknng_method_descriptor_project :: "method_descriptor \<Rightarrow> method_projection" where
  "ducknng_method_descriptor_project m =
     \<lparr> v_name = deref (md_name m), v_family = deref (family m), v_summary = deref (summary m),
       v_transport_pattern = ducknng_transport_pattern_name (md_transport m),
       v_request_payload_format = ducknng_payload_format_name (request_payload_format m),
       v_response_payload_format = ducknng_payload_format_name (response_payload_format m),
       v_response_mode = ducknng_response_mode_name (md_response_mode m),
       v_session_behavior = ducknng_session_behavior_name (md_session_behavior m),
       v_request_schema_json = request_schema_json m, v_response_schema_json = response_schema_json m,
       v_requires_auth = requires_auth m, v_requires_session = requires_session m,
       v_opens_session = opens_session m, v_closes_session = closes_session m,
       v_mutates_state = mutates_state m, v_idempotent = idempotent m,
       v_deprecated = deprecated m, v_disabled = disabled m,
       v_accepted_request_flags = accepted_request_flags m, v_emitted_reply_flags = emitted_reply_flags m,
       v_max_request_bytes = max_request_bytes m, v_max_reply_bytes = max_reply_bytes m,
       v_version_introduced = version_introduced m \<rparr>"

section \<open>The manifest\<close>

text \<open>The text buffer: its characters and its capacity.\<close>

type_synonym textbuf = "string \<times> nat"

definition append_text :: "(nat \<Rightarrow> bool) \<Rightarrow> textbuf \<Rightarrow> string \<Rightarrow> textbuf option" where
  "append_text mem b txt =
     (let (buf, cap) = b;
          want = length buf + length txt + 1;
          grown = double_until (if cap \<noteq> 0 then cap * 2 else 1024) want
      in if txt = [] then Some b
         else if cap \<ge> want then Some (buf @ txt, cap)
         else if \<not> mem grown then None
         else Some (buf @ txt, grown))"

definition escape_char :: "char \<Rightarrow> string" where
  "escape_char c =
     (if c = BACKSLASH \<or> c = QUOTE then [BACKSLASH, c]
      else if code c < 0x20 then BACKSLASH # CHR ''u'' # fmt_04x (code c)
      else [c])"

fun append_escaped :: "(nat \<Rightarrow> bool) \<Rightarrow> textbuf \<Rightarrow> string \<Rightarrow> textbuf option" where
  "append_escaped mem b [] = append_text mem b [QUOTE]"
| "append_escaped mem b (c # p) = append_text mem b (escape_char c) \<bind> (\<lambda>b. append_escaped mem b p)"

definition append_json_string :: "(nat \<Rightarrow> bool) \<Rightarrow> textbuf \<Rightarrow> string \<Rightarrow> textbuf option" where
  "append_json_string mem b txt = append_text mem b [QUOTE] \<bind> (\<lambda>b. append_escaped mem b txt)"

text \<open>A run of \<open>append_text\<close> and \<open>append_json_string\<close> calls that stops at the first failure.\<close>

datatype piece = Txt string | Str string

fun append_piece :: "(nat \<Rightarrow> bool) \<Rightarrow> piece \<Rightarrow> textbuf \<Rightarrow> textbuf option" where
  "append_piece mem (Txt s) b = append_text mem b s"
| "append_piece mem (Str s) b = append_json_string mem b s"

fun append_pieces :: "(nat \<Rightarrow> bool) \<Rightarrow> piece list \<Rightarrow> textbuf \<Rightarrow> textbuf option" where
  "append_pieces mem [] b = Some b"
| "append_pieces mem (x # xs) b = append_piece mem x b \<bind> append_pieces mem xs"

abbreviation (input) json_bool :: "bool \<Rightarrow> string" where
  "json_bool b \<equiv> (if b then ''true'' else ''false'')"

fun capability_names :: "method_registry \<Rightarrow> bool \<Rightarrow> string list \<Rightarrow> piece list" where
  "capability_names reg emitted [] = []"
| "capability_names reg emitted (n # ns) =
     (if ducknng_method_registry_find reg (Some (bytes_of n)) (of_nat (length n)) = None
      then capability_names reg emitted ns
      else (if emitted then [Txt '',''] else []) @ Str n # capability_names reg True ns)"

definition append_parameter_binding_capability :: "method_registry \<Rightarrow> piece list" where
  \<open>append_parameter_binding_capability reg =
     [Txt ''"parameter_binding":{"encoding":"arrow_struct","positional":true,"methods":['']
     @ capability_names reg False [''exec'', ''query_open'', ''query_prepare'']
     @ [Txt ''],"max_parameters":65535}'']\<close>

record manifest_security =
  tls_enabled :: bool
  tls_auth_mode :: int
  peer_identity_required :: bool
  peer_allowlist_active :: bool
  peer_allowlist_count :: u64
  ip_allowlist_active :: bool
  ip_allowlist_count :: u64
  sql_authorizer_active :: bool
  sessions_bind_peer_identity_when_present :: bool
  session_idle_timeout_ms :: u64
  max_open_sessions :: u64
  max_sessions_per_peer_identity :: u64
  peer_identity_format :: cstring
  execution_model :: cstring

definition DUCKNNG_VERSION :: string where "DUCKNNG_VERSION = ''0.1.2.9000''"
definition DUCKNNG_EXECUTION_MODEL_SHARED_SERIALIZED_CONNECTION :: string where
  "DUCKNNG_EXECUTION_MODEL_SHARED_SERIALIZED_CONNECTION = ''shared_serialized_connection''"
definition DUCKNNG_PEER_IDENTITY_FORMAT_TLS :: string where
  "DUCKNNG_PEER_IDENTITY_FORMAT_TLS = ''tls:san:<value>|tls:cn:<common-name>''"

definition security_pieces :: "manifest_security \<Rightarrow> piece list" where
  \<open>security_pieces s =
     [Txt '',"security":{"tls_enabled":'', Txt (json_bool (tls_enabled s)),
      Txt ('',"tls_auth_mode":'' @ fmt_d (tls_auth_mode s)),
      Txt '',"peer_identity_required":'', Txt (json_bool (peer_identity_required s)),
      Txt '',"peer_allowlist_active":'', Txt (json_bool (peer_allowlist_active s)),
      Txt ('',"peer_allowlist_count":'' @ fmt_u (unat (peer_allowlist_count s))),
      Txt '',"ip_allowlist_active":'', Txt (json_bool (ip_allowlist_active s)),
      Txt ('',"ip_allowlist_count":'' @ fmt_u (unat (ip_allowlist_count s))),
      Txt '',"sql_authorizer_active":'', Txt (json_bool (sql_authorizer_active s)),
      Txt '',"peer_identity_format":'',
      Str (case peer_identity_format s of None \<Rightarrow> DUCKNNG_PEER_IDENTITY_FORMAT_TLS | Some f \<Rightarrow> f),
      Txt '',"sessions_bind_peer_identity_when_present":'',
      Txt (json_bool (sessions_bind_peer_identity_when_present s)),
      Txt ''}'',
      Txt '',"execution":{"model":'',
      Str (case execution_model s of
             None \<Rightarrow> DUCKNNG_EXECUTION_MODEL_SHARED_SERIALIZED_CONNECTION | Some m \<Rightarrow> m),
      Txt ''}'',
      Txt ('',"session_policy":{"idle_timeout_ms":'' @ fmt_u (unat (session_idle_timeout_ms s))
        @ '',"idle_timeout_owner":"server","max_open_sessions":'' @ fmt_u (unat (max_open_sessions s))
        @ '',"max_open_sessions_owner":"server","max_sessions_per_peer_identity":''
        @ fmt_u (unat (max_sessions_per_peer_identity s))
        @ '',"max_sessions_per_peer_identity_owner":"server"}'')]\<close>

definition method_pieces :: "method_descriptor \<Rightarrow> piece list" where
  \<open>method_pieces m =
     (let view = ducknng_method_descriptor_project m in
      [Txt ''{'', Txt ''"name":'', Str (v_name view),
       Txt '',"family":'', Str (v_family view),
       Txt '',"summary":'', Str (v_summary view),
       Txt '',"transport_pattern":'', Str (v_transport_pattern view),
       Txt '',"request_payload_format":'', Str (v_request_payload_format view),
       Txt '',"response_payload_format":'', Str (v_response_payload_format view),
       Txt '',"response_mode":'', Str (v_response_mode view),
       Txt '',"session_behavior":'', Str (v_session_behavior view),
       Txt '',"requires_auth":'', Txt (json_bool (v_requires_auth view)),
       Txt '',"requires_session":'', Txt (json_bool (v_requires_session view)),
       Txt '',"opens_session":'', Txt (json_bool (v_opens_session view)),
       Txt '',"closes_session":'', Txt (json_bool (v_closes_session view)),
       Txt '',"mutates_state":'', Txt (json_bool (v_mutates_state view)),
       Txt '',"idempotent":'', Txt (json_bool (v_idempotent view)),
       Txt '',"deprecated":'', Txt (json_bool (v_deprecated view)),
       Txt '',"disabled":'', Txt (json_bool (v_disabled view)),
       Txt ('',"accepted_request_flags":'' @ fmt_u (unat (v_accepted_request_flags view))),
       Txt ('',"emitted_reply_flags":'' @ fmt_u (unat (v_emitted_reply_flags view))),
       Txt ('',"max_request_bytes":'' @ fmt_u (unat (v_max_request_bytes view))),
       Txt ('',"max_reply_bytes":'' @ fmt_u (unat (v_max_reply_bytes view))),
       Txt ('',"version_introduced":'' @ fmt_d (v_version_introduced view)),
       Txt '',"request_schema":'',
       Txt (case v_request_schema_json view of None \<Rightarrow> ''null'' | Some s \<Rightarrow> s),
       Txt '',"response_schema":'',
       Txt (case v_response_schema_json view of None \<Rightarrow> ''null'' | Some s \<Rightarrow> s),
       Txt ''}''])\<close>

fun methods_pieces :: "nat \<Rightarrow> method_descriptor list \<Rightarrow> piece list" where
  "methods_pieces i [] = []"
| "methods_pieces i (m # ms) =
     (if i > 0 then [Txt '',''] else []) @ method_pieces m @ methods_pieces (i + 1) ms"

definition manifest_pieces ::
  "method_registry \<Rightarrow> cstring \<Rightarrow> cstring \<Rightarrow> int \<Rightarrow> manifest_security option \<Rightarrow> piece list" where
  \<open>manifest_pieces reg server_name server_version protocol_version security =
     [Txt ''{"server":{"name":'', Str (case server_name of None \<Rightarrow> ''ducknng'' | Some n \<Rightarrow> n),
      Txt '',"version":'', Str (case server_version of None \<Rightarrow> DUCKNNG_VERSION | Some v \<Rightarrow> v),
      Txt '',"protocol_version":'', Txt (fmt_d protocol_version)]
     @ (case security of None \<Rightarrow> [] | Some s \<Rightarrow> security_pieces s)
     @ [Txt (''},"capabilities":{"handshake":true,"supported_serialization_modes":["arrow_ipc_stream","ducknng_quack_batch"],"fetch_metadata":{"correlation_id":true,''
          @ ''"result_handle":true,"batch_index":true},"session_schema":{"ducknng_protocol_version":true,"row_schema_version":true,"fetch_batch_chunks":true},'')]
     @ append_parameter_binding_capability reg
     @ [Txt ''},"methods":['']
     @ methods_pieces 0 (methods reg)
     @ [Txt '']}'']\<close>

definition ducknng_method_registry_manifest_json ::
  "(nat \<Rightarrow> bool) \<Rightarrow> method_registry option \<Rightarrow> cstring \<Rightarrow> cstring \<Rightarrow> int \<Rightarrow> manifest_security option \<Rightarrow> string + string"
where
  "ducknng_method_registry_manifest_json mem registry server_name server_version protocol_version security =
     (case registry of
        None \<Rightarrow> Inl ''ducknng: missing method registry''
      | Some reg \<Rightarrow>
          (case append_pieces mem (manifest_pieces reg server_name server_version protocol_version security) ([], 0) of
             None \<Rightarrow> Inl ''ducknng: out of memory generating manifest json''
           | Some (buf, cap) \<Rightarrow> Inr buf))"

section \<open>The registry as a finite map\<close>

abbreviation method_key :: "method_descriptor \<Rightarrow> string" where
  "method_key m \<equiv> deref (md_name m)"

definition registry_inv :: "method_registry \<Rightarrow> bool" where
  "registry_inv reg \<longleftrightarrow>
     (\<forall>m \<in> set (methods reg). ducknng_method_descriptor_valid (Some m)) \<and>
     distinct (map method_key (methods reg)) \<and> length (slots reg) \<le> method_cap reg"

lemma valid_named:
  "ducknng_method_descriptor_valid (Some m) \<Longrightarrow> named n m \<longleftrightarrow> method_key m = n \<and> n \<noteq> []"
  by (cases "md_name m") (auto simp: ducknng_method_descriptor_valid_def named_def)

lemma valid_key: "ducknng_method_descriptor_valid (Some m) \<Longrightarrow> method_key m \<noteq> [] \<and> md_name m = Some (method_key m)"
  by (cases "md_name m") (auto simp: ducknng_method_descriptor_valid_def)

lemma length_methods [simp]: "length (methods reg) = length (slots reg)"
  by (simp add: methods_def)

lemma reserve_cases:
  obtains "ducknng_registry_reserve ok reg want = (None, reg)" "want \<le> method_cap reg"
  | cap where "ducknng_registry_reserve ok reg want = (None, reg\<lparr>method_cap := cap\<rparr>)" "want \<le> cap" "method_cap reg \<le> cap"
  | "ducknng_registry_reserve ok reg want = (Some ''ducknng: out of memory growing method registry'', reg)"
      "\<not> ok 0 \<or> \<not> ok 1"
proof -
  let ?c = "double_until (if method_cap reg \<noteq> 0 then method_cap reg * 2 else 8) want"
  have "want \<le> ?c \<and> method_cap reg \<le> ?c"
    using double_until_ge [of "if method_cap reg \<noteq> 0 then method_cap reg * 2 else 8" want] by (auto split: if_splits)
  then show thesis
    using that by (cases "method_cap reg \<ge> want"; cases "ok 0 \<and> ok 1")
      (auto simp: ducknng_registry_reserve_def Let_def)
qed

lemma name_exists_iff:
  assumes "registry_inv reg" "ducknng_method_descriptor_valid (Some m)"
  shows "ducknng_method_name_exists reg (md_name m) \<longleftrightarrow> method_key m \<in> method_key ` set (methods reg)"
proof -
  have "named (method_key m) x \<longleftrightarrow> method_key x = method_key m" if "x \<in> set (methods reg)" for x
    using assms that valid_key [OF assms(2)] by (simp add: registry_inv_def valid_named)
  then have "list_ex (named (method_key m)) (methods reg) \<longleftrightarrow> (\<exists>x \<in> set (methods reg). method_key x = method_key m)"
    by (auto simp: list_ex_iff)
  then show ?thesis
    using valid_key [OF assms(2)] by (auto simp: ducknng_method_name_exists_def image_iff split: option.split)
qed

lemma register_ok:
  assumes "registry_inv reg" "ducknng_method_registry_register ok reg m = (None, reg')"
  obtains d cap where "m = Some d" "ducknng_method_descriptor_valid m"
    "method_key d \<notin> method_key ` set (methods reg)"
    "reg' = \<lparr>slots = slots reg @ [(d, False)], method_cap = cap\<rparr>" "Suc (length (slots reg)) \<le> cap"
proof -
  obtain d where d: "m = Some d" "ducknng_method_descriptor_valid m"
    using assms(2) by (cases "ducknng_method_descriptor_valid m"; cases m)
      (simp_all add: ducknng_method_registry_register_def ducknng_method_descriptor_valid_def)
  have new: "method_key d \<notin> method_key ` set (methods reg)"
    using assms(2) d name_exists_iff [OF assms(1), of d]
    by (auto simp: ducknng_method_registry_register_def split: if_splits)
  show thesis
  proof (cases rule: reserve_cases [of ok reg "length (slots reg) + 1"])
    case 1
    with that [of d "method_cap reg"] assms(2) d new show thesis
      by (auto simp: ducknng_method_registry_register_def split: if_splits)
  next
    case (2 cap)
    with that [of d cap] assms(2) d new show thesis
      by (auto simp: ducknng_method_registry_register_def split: if_splits)
  next
    case 3
    with assms(2) d show thesis
      by (auto simp: ducknng_method_registry_register_def split: if_splits)
  qed
qed

lemma register_fails:
  "ducknng_method_registry_register ok reg m = (Some e, reg') \<Longrightarrow> reg' = reg"
  by (rule reserve_cases [of ok reg "length (slots reg) + 1"])
    (auto simp: ducknng_method_registry_register_def split: if_splits)

lemma register_total:
  assumes "registry_inv reg" "ducknng_method_descriptor_valid (Some m)" "method_key m \<notin> method_key ` set (methods reg)"
    "ok 0" "ok 1"
  shows "fst (ducknng_method_registry_register ok reg (Some m)) = None"
  using assms name_exists_iff [OF assms(1,2)]
  by (cases rule: reserve_cases [of ok reg "length (slots reg) + 1"])
    (auto simp: ducknng_method_registry_register_def)

lemma find_idx_named:
  assumes "registry_inv reg" "n \<noteq> []"
  shows "find_idx (named n) (methods reg) = find_idx (\<lambda>m. method_key m = n) (methods reg)"
  by (rule find_idx_cong) (use assms in \<open>auto simp: registry_inv_def valid_named\<close>)

lemma unregister_methods:
  assumes "registry_inv reg"
  shows "methods (snd (ducknng_method_registry_unregister reg (Some k))) = filter (\<lambda>m. method_key m \<noteq> k) (methods reg)"
    and "fst (ducknng_method_registry_unregister reg (Some k)) \<longleftrightarrow> k \<in> method_key ` set (methods reg)"
proof -
  have ne: "method_key m \<noteq> []" if "m \<in> set (methods reg)" for m
    using assms that valid_key by (auto simp: registry_inv_def)
  let ?u = "ducknng_method_registry_unregister reg (Some k)"
  have "methods (snd ?u) = filter (\<lambda>m. method_key m \<noteq> k) (methods reg) \<and>
      (fst ?u \<longleftrightarrow> k \<in> method_key ` set (methods reg))"
  proof (cases "k = []")
    case True
    then have "filter (\<lambda>m. method_key m \<noteq> k) (methods reg) = methods reg" using ne by (auto simp: filter_id_conv)
    with True ne show ?thesis by (force simp: ducknng_method_registry_unregister_def)
  next
    case False
    note eq = find_idx_named [OF assms False]
    show ?thesis
    proof (cases "find_idx (named k) (methods reg)")
      case None
      then have "\<forall>m \<in> set (methods reg). method_key m \<noteq> k" unfolding eq by simp
      then have "filter (\<lambda>m. method_key m \<noteq> k) (methods reg) = methods reg" "k \<notin> method_key ` set (methods reg)"
        by (auto simp: filter_id_conv)
      with None False show ?thesis
        by (simp add: ducknng_method_registry_unregister_def del: find_idx_None)
    next
      case (Some i)
      note i = find_idx_SomeD [OF Some [unfolded eq]]
      have "remove_nth i (methods reg) = filter (\<lambda>m. method_key m \<noteq> k) (methods reg)"
        using filter_key_remove_nth [of method_key "methods reg" i] i assms by (simp add: registry_inv_def)
      with Some False i show ?thesis
        by (auto simp: ducknng_method_registry_unregister_def ducknng_registry_remove_at_def methods_def map_remove_nth)
    qed
  qed
  then show "methods (snd ?u) = filter (\<lambda>m. method_key m \<noteq> k) (methods reg)"
    and "fst ?u \<longleftrightarrow> k \<in> method_key ` set (methods reg)" by simp_all
qed

lemma of_char_u8_eq [simp]: "(of_char c :: u8) = of_char d \<longleftrightarrow> c = d"
proof
  assume "(of_char c :: u8) = of_char d"
  then have "unat (of_char c :: u8) = unat (of_char d :: u8)" by simp
  moreover have "unat (of_char x :: u8) = code x" for x
  proof -
    have "(of_char x :: u8) = of_nat (code x)" by (cases x) simp
    then show ?thesis using code_less [of x] by (simp only: unat_of_nat) simp
  qed
  ultimately show "c = d" by simp
qed simp

lemma bytes_of_eq [simp]: "bytes_of s = bytes_of t \<longleftrightarrow> s = t"
  by (simp add: bytes_of_def inj_map_eq_map inj_def)

lemma find_by_bytes:
  assumes "registry_inv reg" "length k < 2 ^ 32"
  shows "ducknng_method_registry_find reg (Some (bytes_of k)) (of_nat (length k)) = find (\<lambda>m. method_key m = k) (methods reg)"
proof -
  have "(case md_name m of None \<Rightarrow> False
        | Some n \<Rightarrow> (of_nat (length n) :: u32) = of_nat (length k) \<and> take (length n) (bytes_of k) = bytes_of n) \<longleftrightarrow>
      method_key m = k" if "m \<in> set (methods reg)" for m
  proof -
    have "md_name m = Some (method_key m)" using assms(1) that valid_key by (auto simp: registry_inv_def)
    then obtain n where n: "md_name m = Some n" by blast
    have "n = k" if t: "take (length n) (bytes_of k) = bytes_of n" and l: "(of_nat (length n) :: u32) = of_nat (length k)"
    proof -
      from arg_cong [OF t, of length] have "length n \<le> length k" by simp
      then have "length n < 2 ^ 32" using assms(2) by simp
      with arg_cong [OF l, of unat] assms(2) have "length n = length k" by (simp add: unat_of_nat)
      with t show "n = k" by simp
    qed
    with n show ?thesis by auto
  qed
  then show ?thesis
    unfolding ducknng_method_registry_find_def option.case by (intro find_cong refl) simp
qed

lemma registry_inv_register:
  assumes "registry_inv reg"
  shows "registry_inv (snd (ducknng_method_registry_register ok reg m))"
proof (cases "ducknng_method_registry_register ok reg m")
  case (Pair e reg')
  show ?thesis
  proof (cases e)
    case None
    obtain d cap where d: "ducknng_method_descriptor_valid (Some d)" "method_key d \<notin> method_key ` set (methods reg)"
      and reg': "reg' = \<lparr>slots = slots reg @ [(d, False)], method_cap = cap\<rparr>" "Suc (length (slots reg)) \<le> cap"
      by (rule register_ok [OF assms Pair [unfolded None]]) auto
    have "methods reg' = methods reg @ [d]" by (simp add: reg' methods_def)
    with assms d reg'(2) Pair show ?thesis by (simp add: registry_inv_def reg')
  next
    case (Some err)
    with register_fails [of ok reg m err reg'] Pair assms show ?thesis by simp
  qed
qed

lemma remove_at_cap [simp]: "method_cap (ducknng_registry_remove_at reg i) = method_cap reg"
  by (simp add: ducknng_registry_remove_at_def)

lemma methods_remove_at: "methods (ducknng_registry_remove_at reg i) = (if i < length (methods reg) then remove_nth i (methods reg) else methods reg)"
  by (simp add: ducknng_registry_remove_at_def methods_def map_remove_nth)

lemma registry_inv_remove_at:
  assumes "registry_inv reg"
  shows "registry_inv (ducknng_registry_remove_at reg i)"
proof (cases "i < length (slots reg)")
  case True
  have "set (methods (ducknng_registry_remove_at reg i)) \<subseteq> set (methods reg)"
    using set_remove_nth_subset [of i "methods reg"] by (auto simp: methods_remove_at)
  moreover have "distinct (map method_key (methods (ducknng_registry_remove_at reg i)))"
    using assms by (simp add: registry_inv_def methods_remove_at map_remove_nth distinct_remove_nth)
  moreover have "length (slots (ducknng_registry_remove_at reg i)) \<le> method_cap reg"
    using assms length_remove_nth [OF True] by (simp add: ducknng_registry_remove_at_def registry_inv_def)
  ultimately show ?thesis using assms by (auto simp: registry_inv_def)
next
  case False
  then show ?thesis using assms by (simp add: ducknng_registry_remove_at_def)
qed

lemma registry_inv_unregister:
  "registry_inv reg \<Longrightarrow> registry_inv (snd (ducknng_method_registry_unregister reg k))"
  by (simp add: ducknng_method_registry_unregister_def registry_inv_remove_at split: option.split)

abbreviation find_by_name :: "method_registry \<Rightarrow> string \<Rightarrow> method_descriptor option" where
  "find_by_name reg k \<equiv> ducknng_method_registry_find reg (Some (bytes_of k)) (of_nat (length k))"

interpretation table: keyed_table methods method_key find_by_name
  "\<lambda>m reg. snd (ducknng_method_registry_register (\<lambda>_. True) reg (Some m))"
  "\<lambda>k reg. snd (ducknng_method_registry_unregister reg (Some k))"
  registry_inv "\<lambda>m. ducknng_method_descriptor_valid (Some m)" "\<lambda>k. length k < 2 ^ 32"
proof unfold_locales
  fix reg :: method_registry and m :: method_descriptor
  assume inv: "registry_inv reg" and "ducknng_method_descriptor_valid (Some m)"
    "method_key m \<notin> method_key ` set (methods reg)"
  from register_total [OF this, of "\<lambda>_. True"]
  obtain reg' where r: "ducknng_method_registry_register (\<lambda>_. True) reg (Some m) = (None, reg')"
    by (metis prod.collapse)
  show "methods (snd (ducknng_method_registry_register (\<lambda>_. True) reg (Some m))) = methods reg @ [m]"
    unfolding r by (rule register_ok [OF inv r]) (simp add: methods_def)
qed (simp_all add: find_by_bytes unregister_methods registry_inv_register registry_inv_unregister,
     simp add: registry_inv_def)

lemma unregister_family_loop_methods:
  "i \<le> length (slots reg) \<Longrightarrow> registry_inv reg \<Longrightarrow>
     methods (snd (unregister_family_loop fam i removed reg)) =
       take i (methods reg) @ filter (\<lambda>m. family m \<noteq> Some fam) (drop i (methods reg)) \<and>
     fst (unregister_family_loop fam i removed reg) =
       removed + length (filter (\<lambda>m. family m = Some fam) (drop i (methods reg))) \<and>
     registry_inv (snd (unregister_family_loop fam i removed reg))"
proof (induction fam i removed reg rule: unregister_family_loop.induct)
  case (1 fam i removed reg)
  show ?case
  proof (cases "i < length (slots reg)")
    case True
    let ?ms = "methods reg" and ?r = "ducknng_registry_remove_at reg i"
    have d: "drop i ?ms = ?ms ! i # drop (Suc i) ?ms" using True by (simp add: Cons_nth_drop_Suc)
    have t: "take (Suc i) ?ms = take i ?ms @ [?ms ! i]" using True by (simp add: take_Suc_conv_app_nth)
    show ?thesis
    proof (cases "family (?ms ! i) = Some fam")
      case hit: True
      have "Suc (length (slots ?r)) = length (slots reg)"
        using length_remove_nth [OF True] True by (simp add: ducknng_registry_remove_at_def)
      then have le: "i \<le> length (slots ?r)" using True by simp
      have ms: "methods ?r = take i ?ms @ drop (Suc i) ?ms"
        using True by (simp add: methods_remove_at remove_nth_def)
      have parts: "take i (methods ?r) = take i ?ms" "drop i (methods ?r) = drop (Suc i) ?ms"
        using True unfolding ms by simp_all
      note IH = "1.IH"(1) [OF True hit le registry_inv_remove_at [OF "1.prems"(2)], unfolded parts]
      show ?thesis
        using IH hit True unfolding unregister_family_loop.simps [of fam i removed reg] d by simp
    next
      case miss: False
      have le: "i + 1 \<le> length (slots reg)" using True by simp
      note IH = "1.IH"(2) [OF True miss le "1.prems"(2)]
      show ?thesis
        using IH miss True t unfolding unregister_family_loop.simps [of fam i removed reg] d by simp
    qed
  next
    case False
    then show ?thesis using "1.prems" by (simp add: unregister_family_loop.simps)
  qed
qed

definition registry_map :: "method_registry \<Rightarrow> string \<Rightarrow> method_descriptor option" where
  "registry_map reg k = find (\<lambda>m. method_key m = k) (methods reg)"

lemma find_key_Some:
  "distinct (map f xs) \<Longrightarrow> find (\<lambda>m. f m = k) xs = Some x \<longleftrightarrow> x \<in> set xs \<and> f x = k"
  by (induction xs) (auto simp: image_iff)

lemma registry_map_Some:
  "registry_inv reg \<Longrightarrow> registry_map reg k = Some m \<longleftrightarrow> m \<in> set (methods reg) \<and> method_key m = k"
  unfolding registry_map_def by (rule find_key_Some) (simp add: registry_inv_def)

lemma option_eqI: "(\<And>m. x = Some m \<longleftrightarrow> y = Some m) \<Longrightarrow> x = y"
  by (cases x; cases y) auto

lemma registry_map_eqI:
  assumes "registry_inv reg" "\<And>m k. m \<in> set (methods reg) \<and> method_key m = k \<longleftrightarrow> f k = Some m"
  shows "registry_map reg = f"
  by (rule ext, rule option_eqI) (simp only: registry_map_Some [OF assms(1)] assms(2))

lemma registry_map_register:
  assumes "registry_inv reg"
  shows "registry_map (snd (ducknng_method_registry_register ok reg (Some m))) =
    (if fst (ducknng_method_registry_register ok reg (Some m)) = None
     then (registry_map reg)(method_key m \<mapsto> m) else registry_map reg)"
proof (cases "ducknng_method_registry_register ok reg (Some m)")
  case (Pair e reg')
  show ?thesis
  proof (cases e)
    case None
    obtain d cap where ms: "Some m = Some d" "method_key d \<notin> method_key ` set (methods reg)"
        "reg' = \<lparr>slots = slots reg @ [(d, False)], method_cap = cap\<rparr>"
      by (rule register_ok [OF assms Pair [unfolded None]]) (rule that)
    have ms': "methods reg' = methods reg @ [m]" using ms(1) by (simp add: ms(3) methods_def)
    have "registry_map reg' = (registry_map reg)(method_key m \<mapsto> m)"
    proof (rule registry_map_eqI)
      show "registry_inv reg'" using registry_inv_register [OF assms, of ok "Some m"] Pair by simp
      fix x k
      show "x \<in> set (methods reg') \<and> method_key x = k \<longleftrightarrow> ((registry_map reg)(method_key m \<mapsto> m)) k = Some x"
        using ms(1,2) unfolding ms' by (auto simp: registry_map_Some [OF assms] image_iff)
    qed
    with Pair None show ?thesis by simp
  next
    case (Some err)
    with register_fails [of ok reg "Some m" err reg'] Pair show ?thesis by simp
  qed
qed

lemma registry_map_unregister:
  assumes "registry_inv reg"
  shows "registry_map (snd (ducknng_method_registry_unregister reg (Some k))) = (registry_map reg)(k := None)"
  by (rule registry_map_eqI) (use assms in \<open>auto simp: registry_inv_unregister unregister_methods registry_map_Some\<close>)

lemma registry_map_unregister_family:
  assumes "registry_inv reg" "fam \<noteq> []"
  shows "registry_map (snd (ducknng_method_registry_unregister_family reg (Some fam))) =
    (\<lambda>k. case registry_map reg k of None \<Rightarrow> None | Some m \<Rightarrow> if family m = Some fam then None else Some m)"
    and "registry_inv (snd (ducknng_method_registry_unregister_family reg (Some fam)))"
proof -
  have l: "methods (snd (ducknng_method_registry_unregister_family reg (Some fam))) =
      filter (\<lambda>m. family m \<noteq> Some fam) (methods reg)"
    and i: "registry_inv (snd (ducknng_method_registry_unregister_family reg (Some fam)))"
    using unregister_family_loop_methods [of 0 reg fam 0] assms
    by (simp_all add: ducknng_method_registry_unregister_family_def)
  show "registry_inv (snd (ducknng_method_registry_unregister_family reg (Some fam)))" by (rule i)
  show "registry_map (snd (ducknng_method_registry_unregister_family reg (Some fam))) =
    (\<lambda>k. case registry_map reg k of None \<Rightarrow> None | Some m \<Rightarrow> if family m = Some fam then None else Some m)"
    (is "_ = ?restrict")
  proof (rule registry_map_eqI [OF i])
    fix m k
    have "?restrict k = Some m \<longleftrightarrow> registry_map reg k = Some m \<and> family m \<noteq> Some fam"
      by (cases "registry_map reg k") auto
    then show "m \<in> set (methods (snd (ducknng_method_registry_unregister_family reg (Some fam)))) \<and> method_key m = k \<longleftrightarrow>
        ?restrict k = Some m"
      by (auto simp: l registry_map_Some [OF assms(1)])
  qed
qed

lemma set_requires_auth_cases:
  assumes "registry_inv reg"
  obtains i where "i < length (slots reg)" "method_key (methods reg ! i) = k" "k \<noteq> []"
      "ducknng_method_registry_set_requires_auth ok reg (Some k) a =
        (if requires_auth (methods reg ! i) = a then (None, reg)
         else if \<not> ok 0 then (Some ''ducknng: out of memory updating method auth policy'', reg)
         else (None, reg\<lparr>slots := (slots reg)[i := ((methods reg ! i)\<lparr>requires_auth := a\<rparr>, True)]\<rparr>))"
  | e where "ducknng_method_registry_set_requires_auth ok reg (Some k) a = (Some e, reg)"
      "registry_map reg k = None"
proof (cases "k = [] \<or> find_idx (named k) (methods reg) = None")
  case True
  have "registry_map reg k = None"
  proof (cases "k = []")
    case True
    then show ?thesis using assms valid_key by (fastforce simp: registry_map_def find_None_iff registry_inv_def)
  next
    case False
    with True have "find_idx (\<lambda>m. method_key m = k) (methods reg) = None"
      unfolding find_idx_named [OF assms False] by simp
    then show ?thesis by (simp add: registry_map_def find_None_iff)
  qed
  moreover from True have "\<exists>e. ducknng_method_registry_set_requires_auth ok reg (Some k) a = (Some e, reg)"
    by (cases "k = []") (simp_all add: ducknng_method_registry_set_requires_auth_def del: find_idx_None)
  ultimately show thesis using that(2) by blast
next
  case False
  then obtain i where k: "k \<noteq> []" and i: "find_idx (named k) (methods reg) = Some i" by blast
  note i' = find_idx_SomeD [OF i [unfolded find_idx_named [OF assms k]]]
  show thesis
    by (rule that(1) [of i]) (use i i' k in \<open>simp_all add: ducknng_method_registry_set_requires_auth_def Let_def\<close>)
qed

lemma update_auth_map:
  assumes inv: "registry_inv reg" and i: "i < length (slots reg)"
    and reg': "reg' = reg\<lparr>slots := (slots reg)[i := ((methods reg ! i)\<lparr>requires_auth := a\<rparr>, own)]\<rparr>"
  shows "registry_inv reg'"
    and "registry_map reg' = (registry_map reg)(method_key (methods reg ! i) \<mapsto> (methods reg ! i)\<lparr>requires_auth := a\<rparr>)"
proof -
  let ?m = "methods reg ! i"
  have ms: "methods reg' = (methods reg)[i := ?m\<lparr>requires_auth := a\<rparr>]"
    by (simp add: reg' methods_def map_update)
  have keys: "map method_key (methods reg') = map method_key (methods reg)"
    using i by (simp add: ms map_update list_update_same_conv)
  have m: "ducknng_method_descriptor_valid (Some ?m)" using inv i by (simp add: registry_inv_def)
  show inv': "registry_inv reg'"
  proof -
    have "ducknng_method_descriptor_valid (Some x)" if "x \<in> set (methods reg')" for x
    proof -
      have "x = ?m\<lparr>requires_auth := a\<rparr> \<or> x \<in> set (methods reg)"
        using that set_update_subset_insert [of "methods reg" i "?m\<lparr>requires_auth := a\<rparr>"] unfolding ms by blast
      with m inv show ?thesis by (auto simp: registry_inv_def ducknng_method_descriptor_valid_def)
    qed
    moreover have "length (slots reg') \<le> method_cap reg'" using inv by (simp add: reg' registry_inv_def)
    ultimately show ?thesis using inv keys by (simp add: registry_inv_def)
  qed
  have d: "distinct (map method_key (methods reg))" using inv by (simp add: registry_inv_def)
  show "registry_map reg' = (registry_map reg)(method_key ?m \<mapsto> ?m\<lparr>requires_auth := a\<rparr>)"
  proof (rule registry_map_eqI [OF inv'])
    fix x k
    have mem: "x \<in> set (methods reg') \<longleftrightarrow> x = ?m\<lparr>requires_auth := a\<rparr> \<or> x \<in> set (methods reg) \<and> method_key x \<noteq> method_key ?m"
      (is "?l \<longleftrightarrow> ?r")
    proof -
      have j: "j = i" if "j < length (slots reg)" "method_key (methods reg ! j) = method_key ?m" for j
        using nth_eq_iff_index_eq [OF d, of j i] that i by simp
      have "?l \<longleftrightarrow> (\<exists>j < length (slots reg). x = (if j = i then ?m\<lparr>requires_auth := a\<rparr> else methods reg ! j))"
        by (auto simp: ms in_set_conv_nth nth_list_update)
      also have "\<dots> \<longleftrightarrow> ?r" unfolding in_set_conv_nth length_methods using i j by metis
      finally show ?thesis .
    qed
    show "x \<in> set (methods reg') \<and> method_key x = k \<longleftrightarrow>
        ((registry_map reg)(method_key ?m \<mapsto> ?m\<lparr>requires_auth := a\<rparr>)) k = Some x"
      using mem by (auto simp: registry_map_Some [OF inv])
  qed
qed

lemma registry_map_nth: "registry_inv reg \<Longrightarrow> i < length (slots reg) \<Longrightarrow>
    registry_map reg (method_key (methods reg ! i)) = Some (methods reg ! i)"
  by (simp add: registry_map_Some)

lemma set_requires_auth_map:
  assumes "registry_inv reg" "ducknng_method_registry_set_requires_auth ok reg (Some k) a = (e, reg')"
  shows "registry_inv reg'"
    and "e = None \<Longrightarrow> registry_map reg' = (registry_map reg)(k := map_option (requires_auth_update (\<lambda>_. a)) (registry_map reg k))"
    and "e \<noteq> None \<Longrightarrow> reg' = reg"
    and "ok 0 \<Longrightarrow> e = None \<longleftrightarrow> registry_map reg k \<noteq> None"
proof -
  have "registry_inv reg' \<and>
    (e = None \<longrightarrow> registry_map reg' = (registry_map reg)(k := map_option (requires_auth_update (\<lambda>_. a)) (registry_map reg k))) \<and>
    (e \<noteq> None \<longrightarrow> reg' = reg) \<and> (ok 0 \<longrightarrow> (e = None \<longleftrightarrow> registry_map reg k \<noteq> None))"
  proof (cases rule: set_requires_auth_cases [OF assms(1), of k ok a])
    case (1 i)
    let ?m = "methods reg ! i"
    have lk: "registry_map reg k = Some ?m" using registry_map_nth [OF assms(1) 1(1)] 1(2) by simp
    show ?thesis
    proof (cases "requires_auth ?m = a")
      case True
      then have "?m\<lparr>requires_auth := a\<rparr> = ?m" by simp
      with 1 True assms lk show ?thesis by (auto simp: fun_upd_idem)
    next
      case False
      with 1 assms(2) show ?thesis
        using update_auth_map [OF assms(1) 1(1) refl, of a True] lk assms(1) by (auto split: if_splits)
    qed
  next
    case (2 err)
    with assms show ?thesis by auto
  qed
  then show "registry_inv reg'"
    and "e = None \<Longrightarrow> registry_map reg' = (registry_map reg)(k := map_option (requires_auth_update (\<lambda>_. a)) (registry_map reg k))"
    and "e \<noteq> None \<Longrightarrow> reg' = reg"
    and "ok 0 \<Longrightarrow> e = None \<longleftrightarrow> registry_map reg k \<noteq> None" by simp_all
qed

text \<open>Registration of a batch one method at a time, given up at the first failure.\<close>

fun register_each :: "method_registry \<Rightarrow> method_descriptor option list \<Rightarrow> method_registry option" where
  "register_each reg [] = Some reg"
| "register_each reg (m # ms) =
     (case ducknng_method_registry_register (\<lambda>_. True) reg m of
        (None, reg') \<Rightarrow> register_each reg' ms
      | (Some e, reg') \<Rightarrow> None)"

abbreviation batch_slots :: "method_descriptor option list \<Rightarrow> (method_descriptor \<times> bool) list" where
  "batch_slots ms \<equiv> map (\<lambda>m. (the m, False)) ms"

lemma name_exists_extended:
  assumes "slots r = slots reg @ batch_slots seen" "\<And>m. m \<in> set seen \<Longrightarrow> ducknng_method_descriptor_valid m"
  shows "ducknng_method_name_exists r n \<longleftrightarrow>
    ducknng_method_name_exists reg n \<or> ducknng_method_name_exists_in_batch seen n"
proof -
  have "list_ex (\<lambda>m. case m of None \<Rightarrow> False | Some m \<Rightarrow> named k m) seen \<longleftrightarrow> list_ex (named k \<circ> the) seen" for k
  proof -
    have "(case m of None \<Rightarrow> False | Some m \<Rightarrow> named k m) \<longleftrightarrow> named k (the m)" if "m \<in> set seen" for m
      using assms(2) [OF that] by (cases m) (simp_all add: ducknng_method_descriptor_valid_def)
    then show ?thesis by (auto simp: list_ex_iff)
  qed
  then show ?thesis
    using assms(1) by (auto simp: ducknng_method_name_exists_def ducknng_method_name_exists_in_batch_def
      methods_def list_ex_iff split: option.split)
qed

lemma register_when_room:
  "\<exists>cap. ducknng_method_registry_register (\<lambda>_. True) reg m =
    (if \<not> ducknng_method_descriptor_valid m then (Some ''ducknng: invalid method descriptor'', reg)
     else if ducknng_method_name_exists reg (md_name (the m)) then (Some ''ducknng: method already registered'', reg)
     else (None, \<lparr>slots = slots reg @ [(the m, False)], method_cap = cap\<rparr>))"
  by (cases rule: reserve_cases [of "\<lambda>_. True" reg "length (slots reg) + 1"]; cases reg)
    (auto simp: ducknng_method_registry_register_def)

lemma check_batch_register_each:
  assumes "slots r = slots reg @ batch_slots seen" "\<And>m. m \<in> set seen \<Longrightarrow> ducknng_method_descriptor_valid m"
  shows "if check_batch reg seen ms = None
    then \<exists>r'. register_each r ms = Some r' \<and> slots r' = slots r @ batch_slots ms
    else register_each r ms = None"
  using assms
proof (induction ms arbitrary: r seen)
  case (Cons m ms)
  note ex = name_exists_extended [OF Cons.prems, of "md_name (the m)"]
  obtain cap where reg: "ducknng_method_registry_register (\<lambda>_. True) r m =
    (if \<not> ducknng_method_descriptor_valid m then (Some ''ducknng: invalid method descriptor'', r)
     else if ducknng_method_name_exists r (md_name (the m)) then (Some ''ducknng: method already registered'', r)
     else (None, \<lparr>slots = slots r @ [(the m, False)], method_cap = cap\<rparr>))" (is "_ = ?rhs")
    using register_when_room by blast
  show ?case
  proof (cases "ducknng_method_descriptor_valid m \<and> \<not> ducknng_method_name_exists r (md_name (the m))")
    case True
    let ?r = "\<lparr>slots = slots r @ [(the m, False)], method_cap = cap\<rparr>"
    have "slots ?r = slots reg @ batch_slots (seen @ [m])" using Cons.prems(1) by simp
    moreover have "ducknng_method_descriptor_valid x" if "x \<in> set (seen @ [m])" for x
      using that True Cons.prems(2) by auto
    ultimately have IH: "if check_batch reg (seen @ [m]) ms = None
        then \<exists>r'. register_each ?r ms = Some r' \<and> slots r' = slots ?r @ batch_slots ms
        else register_each ?r ms = None"
      by (rule Cons.IH)
    show ?thesis using IH True ex reg by (auto split: if_splits)
  next
    case False
    then show ?thesis using ex reg by auto
  qed
qed simp

lemma registry_inv_register_each:
  "registry_inv reg \<Longrightarrow> register_each reg ms = Some reg' \<Longrightarrow> registry_inv reg'"
proof (induction ms arbitrary: reg)
  case (Cons m ms)
  then show ?case
    using registry_inv_register [OF Cons.prems(1), of "\<lambda>_. True" m]
    by (cases "ducknng_method_registry_register (\<lambda>_. True) reg m"; cases "fst (ducknng_method_registry_register (\<lambda>_. True) reg m)") auto
qed simp

lemma registry_inv_cong:
  "registry_inv reg \<Longrightarrow> slots reg = slots reg' \<Longrightarrow> length (slots reg') \<le> method_cap reg' \<Longrightarrow> registry_inv reg'"
  by (simp add: registry_inv_def methods_def)

lemma registry_inv_register_many:
  assumes "registry_inv reg"
  shows "registry_inv (snd (ducknng_method_registry_register_many ok reg ms))"
proof (cases "\<exists>xs. ms = Some xs \<and> check_batch reg [] xs = None")
  case True
  then obtain xs where xs: "ms = Some xs" "check_batch reg [] xs = None" by blast
  have "\<exists>r. register_each reg xs = Some r \<and> slots r = slots reg @ batch_slots xs"
    using check_batch_register_each [of reg reg "[]" xs] xs(2) by simp
  then obtain r where r: "registry_inv r" "slots r = slots reg @ batch_slots xs"
    using registry_inv_register_each [OF assms] by blast
  show ?thesis
    using assms xs registry_inv_cong [OF r(1)] r(2)
    by (cases rule: reserve_cases [of ok reg "length (slots reg) + length xs"])
      (auto simp: ducknng_method_registry_register_many_def)
next
  case False
  then show ?thesis
    using assms by (auto simp: ducknng_method_registry_register_many_def split: option.split)
qed

lemma registry_inv_restore:
  assumes "registry_inv reg"
  shows "registry_inv (snd (ducknng_method_registry_restore_auth_inplace reg name a))"
proof (cases "nonempty name \<and> find_idx (named (deref name)) (methods reg) \<noteq> None")
  case True
  then obtain i where i: "find_idx (named (deref name)) (methods reg) = Some i" by blast
  note b = find_idx_SomeD(1) [OF i]
  obtain m own where slot: "slots reg ! i = (m, own)" by (cases "slots reg ! i")
  then have m: "methods reg ! i = m" using b by (simp add: methods_def)
  show ?thesis
    using True i slot assms update_auth_map(1) [OF assms _ refl, of i a own] b
    by (cases own) (simp_all add: ducknng_method_registry_restore_auth_inplace_def m)
next
  case False
  then show ?thesis
    using assms by (auto simp: ducknng_method_registry_restore_auth_inplace_def simp del: find_idx_None split: option.split)
qed

text \<open>Every registry a program can build.\<close>

inductive registry_step :: "method_registry \<Rightarrow> method_registry \<Rightarrow> bool" where
  step_register: "registry_step reg (snd (ducknng_method_registry_register ok reg m))"
| step_register_many: "registry_step reg (snd (ducknng_method_registry_register_many ok reg ms))"
| step_unregister: "registry_step reg (snd (ducknng_method_registry_unregister reg name))"
| step_unregister_family: "registry_step reg (snd (ducknng_method_registry_unregister_family reg fam))"
| step_set_auth: "registry_step reg (snd (ducknng_method_registry_set_requires_auth ok reg name a))"
| step_restore_auth: "registry_step reg (snd (ducknng_method_registry_restore_auth_inplace reg name a))"
| step_destroy: "registry_step reg (ducknng_method_registry_destroy reg)"

abbreviation registry_reachable :: "method_registry \<Rightarrow> bool" where
  "registry_reachable \<equiv> reachable (\<lambda>reg. reg = ducknng_method_registry_init) registry_step"

lemma registry_inv_init: "registry_inv ducknng_method_registry_init"
  by (simp add: registry_inv_def ducknng_method_registry_init_def methods_def)

interpretation registry: machine "\<lambda>reg. reg = ducknng_method_registry_init" registry_step registry_inv
proof unfold_locales
  fix s t :: method_registry
  assume inv: "registry_inv s" and "registry_step s t"
  from this(2) show "registry_inv t"
  proof cases
    case (step_unregister_family fam)
    then show ?thesis
      using inv registry_map_unregister_family(2) [OF inv, of "deref fam"]
      by (cases fam) (auto simp: ducknng_method_registry_unregister_family_def split: if_splits)
  next
    case (step_set_auth ok name a)
    then show ?thesis
      using inv set_requires_auth_map(1) [OF inv prod.collapse [symmetric], of ok "deref name" a]
      by (cases name) (simp_all add: ducknng_method_registry_set_requires_auth_def [of ok s None])
  qed (use inv in \<open>simp_all add: registry_inv_register registry_inv_register_many registry_inv_unregister registry_inv_restore
    ducknng_method_registry_destroy_def registry_inv_init\<close>)
qed (simp add: registry_inv_init)

text \<open>
  C8. A registry is a finite map from method names to descriptors, whatever sequence of operations
  built it. Lookup by the name bytes of a frame reads the map. Registration adds exactly the new descriptor, and with memory available
  succeeds exactly for a valid descriptor with a fresh name; a failed one changes nothing. Removal by name and by family delete
  exactly the named method and exactly the family's methods. Changing the authentication flag updates that descriptor alone,
  fails only for an unknown name when memory is available, and a failure changes nothing.
\<close>

theorem registry_refines_map:
  assumes "registry_reachable reg" "length k < 2 ^ 32" "fam \<noteq> []"
  shows "find_by_name reg k = registry_map reg k \<and>
    (case ducknng_method_registry_register ok reg (Some m) of
       (None, reg') \<Rightarrow> registry_map reg' = (registry_map reg)(method_key m \<mapsto> m) \<and> registry_map reg (method_key m) = None
     | (Some e, reg') \<Rightarrow> reg' = reg \<and>
         (ducknng_method_descriptor_valid (Some m) \<longrightarrow> ok 0 \<and> ok 1 \<longrightarrow> registry_map reg (method_key m) \<noteq> None)) \<and>
    registry_map (snd (ducknng_method_registry_unregister reg (Some k))) = (registry_map reg)(k := None) \<and>
    registry_map (snd (ducknng_method_registry_unregister_family reg (Some fam))) =
      (\<lambda>k. case registry_map reg k of None \<Rightarrow> None | Some m \<Rightarrow> if family m = Some fam then None else Some m) \<and>
    (case ducknng_method_registry_set_requires_auth ok reg (Some k) a of
       (None, reg') \<Rightarrow> registry_map reg' = (registry_map reg)(k := map_option (requires_auth_update (\<lambda>_. a)) (registry_map reg k))
     | (Some e, reg') \<Rightarrow> reg' = reg \<and> (ok 0 \<longrightarrow> registry_map reg k = None))"
proof -
  have inv: "registry_inv reg" using assms(1) by (rule registry.reachable_inv)
  have none: "registry_map reg (method_key m) = None \<longleftrightarrow> method_key m \<notin> method_key ` set (methods reg)"
    unfolding registry_map_def find_None_iff image_iff by metis
  have "case ducknng_method_registry_register ok reg (Some m) of
       (None, reg') \<Rightarrow> registry_map reg' = (registry_map reg)(method_key m \<mapsto> m) \<and> registry_map reg (method_key m) = None
     | (Some e, reg') \<Rightarrow> reg' = reg \<and>
         (ducknng_method_descriptor_valid (Some m) \<longrightarrow> ok 0 \<and> ok 1 \<longrightarrow> registry_map reg (method_key m) \<noteq> None)"
  proof (cases "ducknng_method_registry_register ok reg (Some m)")
    case (Pair e reg')
    show ?thesis
    proof (cases e)
      case None
      obtain d where "Some m = Some d" "method_key d \<notin> method_key ` set (methods reg)"
        by (rule register_ok [OF inv Pair [unfolded None]]) (rule that)
      with registry_map_register [OF inv, of ok m] Pair None none show ?thesis by simp
    next
      case (Some err)
      with register_fails [of ok reg "Some m" err reg'] register_total [OF inv, of m ok] Pair none
      show ?thesis by auto
    qed
  qed
  moreover have "case ducknng_method_registry_set_requires_auth ok reg (Some k) a of
       (None, reg') \<Rightarrow> registry_map reg' = (registry_map reg)(k := map_option (requires_auth_update (\<lambda>_. a)) (registry_map reg k))
     | (Some e, reg') \<Rightarrow> reg' = reg \<and> (ok 0 \<longrightarrow> registry_map reg k = None)"
    using set_requires_auth_map(2-4) [OF inv, of ok k a]
    by (cases "ducknng_method_registry_set_requires_auth ok reg (Some k) a")
      (auto simp del: not_None_eq split: option.split)
  ultimately show ?thesis
    using table.lookup_find [OF inv, of k] assms(2) registry_map_unregister [OF inv, of k]
      registry_map_unregister_family(1) [OF inv assms(3)]
    by (simp add: registry_map_def)
qed

text \<open>
  C9. Bulk registration is all or nothing and agrees with registering the methods one by one: it succeeds exactly when
  every single registration in turn would, and then leaves the same methods in the same slots; when it
  fails, for an invalid descriptor, a duplicate name in the batch or against the registry, or lack of memory, the registry is unchanged.
\<close>

theorem register_many_atomic:
  "case ducknng_method_registry_register_many ok reg ms of
     (None, reg') \<Rightarrow> (\<exists>r. register_each reg (the ms) = Some r \<and> slots r = slots reg')
   | (Some e, reg') \<Rightarrow> reg' = reg \<and>
       (ms = None \<or> register_each reg (the ms) = None \<or> \<not> ok 0 \<or> \<not> ok 1)"
proof (cases ms)
  case None
  then show ?thesis by (simp add: ducknng_method_registry_register_many_def)
next
  case (Some xs)
  have each: "if check_batch reg [] xs = None
      then \<exists>r. register_each reg xs = Some r \<and> slots r = slots reg @ batch_slots xs
      else register_each reg xs = None"
    by (rule check_batch_register_each) simp_all
  show ?thesis
  proof (cases "check_batch reg [] xs")
    case None
    then show ?thesis
      using each Some
      by (cases rule: reserve_cases [of ok reg "length (slots reg) + length xs"])
        (auto simp: ducknng_method_registry_register_many_def)
  next
    case (Some e)
    with each \<open>ms = Some xs\<close> show ?thesis by (simp add: ducknng_method_registry_register_many_def)
  qed
qed

lemma find_idx_unique:
  assumes "registry_inv reg" "i < length (slots reg)"
  shows "find_idx (named (method_key (methods reg ! i))) (methods reg) = Some i"
proof -
  let ?k = "method_key (methods reg ! i)"
  have v: "\<forall>x \<in> set (methods reg). ducknng_method_descriptor_valid (Some x)"
    and d: "distinct (map method_key (methods reg))"
    using assms(1) by (simp_all add: registry_inv_def)
  have "?k \<noteq> []" using v valid_key [of "methods reg ! i"] assms(2) by simp
  then have "find_idx (named ?k) (methods reg) = find_idx (\<lambda>m. method_key m = ?k) (methods reg)"
    by (rule find_idx_named [OF assms(1)])
  also have "\<dots> = Some i"
    using nth_eq_iff_index_eq [OF d] assms(2) by (auto simp: find_idx_Some)
  finally show ?thesis .
qed

text \<open>
  A change of a method's authentication flag can be undone without allocating: after a successful
  change, restoring the previous value succeeds and every descriptor is as it was before, in the same slot.
\<close>

theorem auth_rollback:
  assumes "registry_reachable reg" "registry_map reg k = Some m"
    and "ducknng_method_registry_set_requires_auth ok reg (Some k) a = (None, reg')"
  shows "\<exists>reg''. ducknng_method_registry_restore_auth_inplace reg' (Some k) (requires_auth m) = (True, reg'') \<and>
    methods reg'' = methods reg"
proof -
  have inv: "registry_inv reg" using assms(1) by (rule registry.reachable_inv)
  obtain i where i: "i < length (slots reg)" "method_key (methods reg ! i) = k" "k \<noteq> []"
    and set: "ducknng_method_registry_set_requires_auth ok reg (Some k) a =
        (if requires_auth (methods reg ! i) = a then (None, reg)
         else if \<not> ok 0 then (Some ''ducknng: out of memory updating method auth policy'', reg)
         else (None, reg\<lparr>slots := (slots reg)[i := ((methods reg ! i)\<lparr>requires_auth := a\<rparr>, True)]\<rparr>))"
    using assms(2,3) by (cases rule: set_requires_auth_cases [OF inv, of k ok a]) auto
  have m: "methods reg ! i = m" using registry_map_nth [OF inv i(1)] i(2) assms(2) by simp
  have slot: "fst (slots reg ! i) = m" using m i(1) by (simp add: methods_def)
  show ?thesis
  proof (cases "requires_auth m = a")
    case True
    have "find_idx (named k) (methods reg) = Some i" using find_idx_unique [OF inv i(1)] i(2) by simp
    with True set assms(3) m slot i show ?thesis
      by (cases "slots reg ! i") (simp add: ducknng_method_registry_restore_auth_inplace_def)
  next
    case False
    then have reg': "reg' = reg\<lparr>slots := (slots reg)[i := (m\<lparr>requires_auth := a\<rparr>, True)]\<rparr>"
      using set assms(3) m by (auto split: if_splits)
    have nth: "methods reg' ! i = m\<lparr>requires_auth := a\<rparr>" using i(1) by (simp add: reg' methods_def)
    have "registry_inv reg'" using update_auth_map(1) [OF inv i(1) refl] reg' m by simp
    then have "find_idx (named (method_key (methods reg' ! i))) (methods reg') = Some i"
      using i(1) by (intro find_idx_unique) (simp_all add: reg')
    then have f: "find_idx (named k) (methods reg') = Some i" using nth i(2) m by simp
    obtain b where b: "requires_auth m = b" "b \<noteq> a" using False by blast
    have restored: "m\<lparr>requires_auth := b\<rparr> = m" using b(1) by (cases m) simp
    have "(methods reg)[i := m] = methods reg" using m by auto
    then have "methods (reg'\<lparr>slots := (slots reg')[i := (m, True)]\<rparr>) = methods reg"
      by (simp add: reg' methods_def map_update)
    with f i(1,3) b(2) restored show ?thesis
      unfolding b(1) by (simp add: ducknng_method_registry_restore_auth_inplace_def reg')
  qed
qed

text \<open>A registry with two methods.\<close>

definition sample_method :: "string \<Rightarrow> string \<Rightarrow> method_descriptor" where
  "sample_method name fam = \<lparr> md_name = Some name, family = Some fam, summary = None, md_transport = TRANSPORT_REQREP,
     request_payload_format = PAYLOAD_JSON, response_payload_format = PAYLOAD_JSON, md_response_mode = RESPONSE_ROWS,
     md_session_behavior = SESSION_STATELESS, accepted_request_flags = 0, emitted_reply_flags = 0,
     max_request_bytes = 1024, max_reply_bytes = 1024, requires_auth = False, requires_session = False,
     opens_session = False, closes_session = False, mutates_state = False, idempotent = True, deprecated = False,
     disabled = False, version_introduced = 1, request_schema_json = None, response_schema_json = None,
     handler = Some 0, handler_data = None \<rparr>"

definition sample_registry :: method_registry where
  "sample_registry = snd (ducknng_method_registry_register_many (\<lambda>_. True) ducknng_method_registry_init
     (Some [Some (sample_method ''exec'' ''sql''), Some (sample_method ''ping'' ''core'')]))"

lemma sample_registry_eq:
  "sample_registry = \<lparr>slots = [(sample_method ''exec'' ''sql'', False), (sample_method ''ping'' ''core'', False)], method_cap = 8\<rparr>"
  by (simp add: sample_registry_def ducknng_method_registry_register_many_def ducknng_method_registry_init_def
      ducknng_method_descriptor_valid_def ducknng_method_name_exists_def ducknng_method_name_exists_in_batch_def
      ducknng_registry_reserve_def sample_method_def named_def methods_def double_until.simps)

lemma sample_registry_reachable: "registry_reachable sample_registry"
  unfolding sample_registry_def
  by (rule reach_step, rule reach_init, rule refl, rule step_register_many)

theorem registry_refines_map_witness:
  "find_by_name sample_registry ''ping'' = Some (sample_method ''ping'' ''core'') \<and>
   registry_map (snd (ducknng_method_registry_unregister sample_registry (Some ''ping''))) ''ping'' = None \<and>
   registry_map (snd (ducknng_method_registry_unregister_family sample_registry (Some ''sql''))) ''exec'' = None"
proof -
  have l: "length ''ping'' < 2 ^ 32" "''sql'' \<noteq> []" by simp_all
  have e: "registry_map sample_registry ''ping'' = Some (sample_method ''ping'' ''core'')"
    "registry_map sample_registry ''exec'' = Some (sample_method ''exec'' ''sql'')"
    "family (sample_method ''exec'' ''sql'') = Some ''sql''"
    by (simp_all add: registry_map_def sample_registry_eq methods_def sample_method_def)
  show ?thesis
    using registry_refines_map [OF sample_registry_reachable l] e by simp
qed

theorem auth_rollback_witness:
  "\<exists>reg' reg''. ducknng_method_registry_set_requires_auth (\<lambda>_. True) sample_registry (Some ''ping'') True = (None, reg') \<and>
     ducknng_method_registry_restore_auth_inplace reg' (Some ''ping'') False = (True, reg'') \<and>
     methods reg'' = methods sample_registry"
proof -
  let ?m = "sample_method ''ping'' ''core''"
  have e: "registry_map sample_registry ''ping'' = Some ?m"
    by (simp add: registry_map_def sample_registry_eq methods_def sample_method_def)
  obtain reg' where r: "ducknng_method_registry_set_requires_auth (\<lambda>_. True) sample_registry (Some ''ping'') True = (None, reg')"
    by (simp add: ducknng_method_registry_set_requires_auth_def sample_registry_eq methods_def sample_method_def named_def)
  have "requires_auth ?m = False" by (simp add: sample_method_def)
  with auth_rollback [OF sample_registry_reachable e r] r show ?thesis by auto
qed

theorem register_many_atomic_witness:
  "register_each sample_registry [Some (sample_method ''fetch'' ''sql''), Some (sample_method ''ping'' ''x'')] = None \<and>
   snd (ducknng_method_registry_register_many (\<lambda>_. True) sample_registry
     (Some [Some (sample_method ''fetch'' ''sql''), Some (sample_method ''ping'' ''x'')])) = sample_registry"
proof -
  let ?b = "Some [Some (sample_method ''fetch'' ''sql''), Some (sample_method ''ping'' ''x'')]"
  have "fst (ducknng_method_registry_register_many (\<lambda>_. True) sample_registry ?b) =
      Some ''ducknng: duplicate method name in bulk registration''"
    by (simp add: ducknng_method_registry_register_many_def sample_registry_eq
      ducknng_method_descriptor_valid_def ducknng_method_name_exists_def ducknng_method_name_exists_in_batch_def
      sample_method_def named_def methods_def)
  with register_many_atomic [of sample_registry ?b "\<lambda>_. True"] show ?thesis
    by (cases "ducknng_method_registry_register_many (\<lambda>_. True) sample_registry ?b") simp
qed

section \<open>What the manifest says\<close>

lemma append_text_ok:
  "\<forall>n. mem n \<Longrightarrow> \<exists>cap'. append_text mem (buf, cap) txt = Some (buf @ txt, cap')"
  by (auto simp: append_text_def Let_def)

lemma append_escaped_ok:
  assumes "\<forall>n. mem n"
  shows "\<exists>cap'. append_escaped mem (buf, cap) s = Some (buf @ concat (map escape_char s) @ [QUOTE], cap')"
proof (induction s arbitrary: buf cap)
  case Nil
  then show ?case using append_text_ok [OF assms, of buf cap "[QUOTE]"] by auto
next
  case (Cons c s)
  obtain cap' where "append_text mem (buf, cap) (escape_char c) = Some (buf @ escape_char c, cap')"
    using append_text_ok [OF assms] by blast
  then show ?case using Cons.IH [of "buf @ escape_char c" cap'] by simp
qed

lemma append_json_string_ok:
  assumes "\<forall>n. mem n"
  shows "\<exists>cap'. append_json_string mem (buf, cap) s = Some (buf @ json_quote escape_char s, cap')"
proof -
  obtain cap' where "append_text mem (buf, cap) [QUOTE] = Some (buf @ [QUOTE], cap')"
    using append_text_ok [OF assms] by blast
  then show ?thesis
    using append_escaped_ok [OF assms, of "buf @ [QUOTE]" cap' s]
    by (auto simp: append_json_string_def json_quote_def)
qed

fun piece_text :: "piece \<Rightarrow> string" where
  "piece_text (Txt s) = s"
| "piece_text (Str s) = json_quote escape_char s"

lemma append_pieces_ok:
  assumes "\<forall>n. mem n"
  shows "\<exists>cap'. append_pieces mem ps (buf, cap) = Some (buf @ concat (map piece_text ps), cap')"
proof (induction ps arbitrary: buf cap)
  case (Cons p ps)
  have "\<exists>cap'. append_piece mem p (buf, cap) = Some (buf @ piece_text p, cap')"
    using append_text_ok [OF assms] append_json_string_ok [OF assms] by (cases p) simp_all
  then obtain cap' where "append_piece mem p (buf, cap) = Some (buf @ piece_text p, cap')" by blast
  then show ?case using Cons.IH [of "buf @ piece_text p" cap'] by simp
qed simp

interpretation manifest: json_escaper escape_char
proof unfold_locales
  fix c :: char and rest
  assume "code c \<noteq> 0"
  then show "reads_char (escape_char c @ rest) c rest"
    by (auto simp: reads_char_def escape_char_def unicode_loop_04x)
qed

text \<open>JSON values and their compact text; \<open>JText\<close> is text copied as it stands, as the schemas of a descriptor are.\<close>

datatype json = JStr string | JInt int | JBool bool | JNull | JText string
  | JArr "json list" | JObj "(string \<times> json) list"

fun render_json :: "json \<Rightarrow> string" where
  "render_json (JStr s) = json_quote escape_char s"
| "render_json (JInt i) = fmt_d i"
| "render_json (JBool b) = json_bool b"
| "render_json JNull = ''null''"
| "render_json (JText s) = s"
| "render_json (JArr xs) = CHR ''['' # commas (map render_json xs) @ '']''"
| "render_json (JObj kvs) =
     CHR ''{'' # commas (map (\<lambda>(k, v). json_quote escape_char k @ CHR '':'' # render_json v) kvs) @ ''}''"

definition schema_value :: "cstring \<Rightarrow> json" where
  "schema_value s = (case s of None \<Rightarrow> JNull | Some t \<Rightarrow> JText t)"

definition method_value :: "method_descriptor \<Rightarrow> json" where
  "method_value m = JObj
     [(''name'', JStr (deref (md_name m))), (''family'', JStr (deref (family m))), (''summary'', JStr (deref (summary m))),
      (''transport_pattern'', JStr (ducknng_transport_pattern_name (md_transport m))),
      (''request_payload_format'', JStr (ducknng_payload_format_name (request_payload_format m))),
      (''response_payload_format'', JStr (ducknng_payload_format_name (response_payload_format m))),
      (''response_mode'', JStr (ducknng_response_mode_name (md_response_mode m))),
      (''session_behavior'', JStr (ducknng_session_behavior_name (md_session_behavior m))),
      (''requires_auth'', JBool (requires_auth m)), (''requires_session'', JBool (requires_session m)),
      (''opens_session'', JBool (opens_session m)), (''closes_session'', JBool (closes_session m)),
      (''mutates_state'', JBool (mutates_state m)), (''idempotent'', JBool (idempotent m)),
      (''deprecated'', JBool (deprecated m)), (''disabled'', JBool (disabled m)),
      (''accepted_request_flags'', JInt (uint (accepted_request_flags m))),
      (''emitted_reply_flags'', JInt (uint (emitted_reply_flags m))),
      (''max_request_bytes'', JInt (uint (max_request_bytes m))), (''max_reply_bytes'', JInt (uint (max_reply_bytes m))),
      (''version_introduced'', JInt (version_introduced m)),
      (''request_schema'', schema_value (request_schema_json m)),
      (''response_schema'', schema_value (response_schema_json m))]"

definition security_value :: "manifest_security \<Rightarrow> (string \<times> json) list" where
  "security_value s =
     [(''security'', JObj
        [(''tls_enabled'', JBool (tls_enabled s)), (''tls_auth_mode'', JInt (tls_auth_mode s)),
         (''peer_identity_required'', JBool (peer_identity_required s)),
         (''peer_allowlist_active'', JBool (peer_allowlist_active s)),
         (''peer_allowlist_count'', JInt (uint (peer_allowlist_count s))),
         (''ip_allowlist_active'', JBool (ip_allowlist_active s)),
         (''ip_allowlist_count'', JInt (uint (ip_allowlist_count s))),
         (''sql_authorizer_active'', JBool (sql_authorizer_active s)),
         (''peer_identity_format'', JStr (case peer_identity_format s of None \<Rightarrow> DUCKNNG_PEER_IDENTITY_FORMAT_TLS | Some f \<Rightarrow> f)),
         (''sessions_bind_peer_identity_when_present'', JBool (sessions_bind_peer_identity_when_present s))]),
      (''execution'', JObj [(''model'', JStr (case execution_model s of
         None \<Rightarrow> DUCKNNG_EXECUTION_MODEL_SHARED_SERIALIZED_CONNECTION | Some m \<Rightarrow> m))]),
      (''session_policy'', JObj
        [(''idle_timeout_ms'', JInt (uint (session_idle_timeout_ms s))), (''idle_timeout_owner'', JStr ''server''),
         (''max_open_sessions'', JInt (uint (max_open_sessions s))), (''max_open_sessions_owner'', JStr ''server''),
         (''max_sessions_per_peer_identity'', JInt (uint (max_sessions_per_peer_identity s))),
         (''max_sessions_per_peer_identity_owner'', JStr ''server'')])]"

definition capabilities_value :: "method_registry \<Rightarrow> json" where
  "capabilities_value reg = JObj
     [(''handshake'', JBool True),
      (''supported_serialization_modes'', JArr [JStr ''arrow_ipc_stream'', JStr ''ducknng_quack_batch'']),
      (''fetch_metadata'', JObj [(''correlation_id'', JBool True), (''result_handle'', JBool True), (''batch_index'', JBool True)]),
      (''session_schema'', JObj [(''ducknng_protocol_version'', JBool True), (''row_schema_version'', JBool True),
        (''fetch_batch_chunks'', JBool True)]),
      (''parameter_binding'', JObj [(''encoding'', JStr ''arrow_struct''), (''positional'', JBool True),
        (''methods'', JArr (map JStr (filter (\<lambda>n. find_by_name reg n \<noteq> None) [''exec'', ''query_open'', ''query_prepare'']))),
        (''max_parameters'', JInt 65535)])]"

definition manifest_value ::
  "method_registry \<Rightarrow> cstring \<Rightarrow> cstring \<Rightarrow> int \<Rightarrow> manifest_security option \<Rightarrow> json" where
  "manifest_value reg server_name server_version protocol_version security = JObj
     [(''server'', JObj ([(''name'', JStr (case server_name of None \<Rightarrow> ''ducknng'' | Some n \<Rightarrow> n)),
          (''version'', JStr (case server_version of None \<Rightarrow> DUCKNNG_VERSION | Some v \<Rightarrow> v)),
          (''protocol_version'', JInt protocol_version)]
        @ (case security of None \<Rightarrow> [] | Some s \<Rightarrow> security_value s))),
      (''capabilities'', capabilities_value reg),
      (''methods'', JArr (map method_value (methods reg)))]"

abbreviation pieces_text :: "piece list \<Rightarrow> string" where
  "pieces_text ps \<equiv> concat (map piece_text ps)"

lemma fmt_u_unat: "fmt_u (unat (x :: 'a::len word)) = fmt_d (uint x)"
  by (simp add: fmt_d_def)

lemma json_quote_plain: "list_all plain_char s \<Longrightarrow> json_quote escape_char s = QUOTE # s @ [QUOTE]"
proof -
  have "list_all plain_char s \<Longrightarrow> concat (map escape_char s) = s"
    by (induction s) (auto simp: plain_char_def escape_char_def)
  then show "list_all plain_char s \<Longrightarrow> json_quote escape_char s = QUOTE # s @ [QUOTE]" by (simp add: json_quote_def)
qed

lemma method_pieces_value: "pieces_text (method_pieces m) = render_json (method_value m)"
  unfolding method_pieces_def ducknng_method_descriptor_project_def method_value_def schema_value_def
  by (simp add: json_quote_plain plain_char_def fmt_u_unat split: option.split)

lemma security_pieces_value:
  "pieces_text (security_pieces s) =
    concat (map (\<lambda>(k, v). CHR '','' # json_quote escape_char k @ CHR '':'' # render_json v) (security_value s))"
  unfolding security_pieces_def security_value_def
  by (simp add: json_quote_plain plain_char_def fmt_u_unat)

lemma methods_pieces_value:
  "pieces_text (methods_pieces 0 ms) = commas (map (render_json \<circ> method_value) ms)"
proof -
  have rest: "pieces_text (methods_pieces (Suc i) ms) = concat (map (\<lambda>m. CHR '','' # render_json (method_value m)) ms)" for i ms
    by (induction ms arbitrary: i) (simp_all add: method_pieces_value)
  show ?thesis
    by (cases ms) (simp_all add: rest method_pieces_value commas_Cons o_def)
qed

lemma capability_names_value:
  "pieces_text (capability_names reg False ns) = commas (map (json_quote escape_char) (filter (\<lambda>n. find_by_name reg n \<noteq> None) ns))"
proof -
  have rest: "pieces_text (capability_names reg True ns) =
      concat (map (\<lambda>n. CHR '','' # json_quote escape_char n) (filter (\<lambda>n. find_by_name reg n \<noteq> None) ns))" for ns
    by (induction ns) simp_all
  show ?thesis
    by (induction ns) (simp_all add: rest commas_Cons o_def)
qed

lemma capabilities_pieces_value:
  "''{\"handshake\":true,\"supported_serialization_modes\":[\"arrow_ipc_stream\",\"ducknng_quack_batch\"],\"fetch_metadata\":{\"correlation_id\":true,\"result_handle\":true,\"batch_index\":true},\"session_schema\":{\"ducknng_protocol_version\":true,\"row_schema_version\":true,\"fetch_batch_chunks\":true},''
     @ pieces_text (append_parameter_binding_capability reg) @ ''}'' = render_json (capabilities_value reg)"
proof -
  have m: "map render_json (map JStr xs) = map (json_quote escape_char) xs" for xs by simp
  have "fmt_d 65535 = ''65535''" by (simp add: fmt_d_def fmt_u.simps digit_def)
  then show ?thesis
    unfolding append_parameter_binding_capability_def capabilities_value_def
    by (simp add: json_quote_plain plain_char_def m capability_names_value del: map_map capability_names.simps filter.simps)
qed

lemma manifest_pieces_value:
  "pieces_text (manifest_pieces reg server_name server_version protocol_version security) =
     render_json (manifest_value reg server_name server_version protocol_version security)"
proof -
  have sec: "pieces_text (case security of None \<Rightarrow> [] | Some s \<Rightarrow> security_pieces s) =
      concat (map (\<lambda>(k, v). CHR '','' # json_quote escape_char k @ CHR '':'' # render_json v)
        (case security of None \<Rightarrow> [] | Some s \<Rightarrow> security_value s))"
    by (simp add: security_pieces_value split: option.split)
  show ?thesis
    unfolding manifest_pieces_def manifest_value_def
    by (simp add: capabilities_pieces_value [symmetric] methods_pieces_value commas_append commas_Cons json_quote_plain plain_char_def
        sec case_prod_unfold o_def)
qed

text \<open>
  C10. With memory available the manifest is the compact JSON text of the value that lists the server with
  its security, execution and session policies, the capabilities, with the bindable methods that are
  registered, and one object per registered method in registration order, every string escaped.
\<close>

theorem manifest_is_json:
  assumes "\<forall>n. mem n"
  shows "ducknng_method_registry_manifest_json mem (Some reg) server_name server_version protocol_version security =
    Inr (render_json (manifest_value reg server_name server_version protocol_version security))"
proof -
  obtain cap where "append_pieces mem (manifest_pieces reg server_name server_version protocol_version security) ([], 0) =
      Some ([] @ pieces_text (manifest_pieces reg server_name server_version protocol_version security), cap)"
    using append_pieces_ok [OF assms] by blast
  then show ?thesis
    by (simp add: ducknng_method_registry_manifest_json_def manifest_pieces_value)
qed

theorem manifest_is_json_witness:
  "ducknng_method_registry_manifest_json (\<lambda>_. True) (Some ducknng_method_registry_init) None None 1 None =
    Inr (render_json (manifest_value ducknng_method_registry_init None None 1 None))"
  by (rule manifest_is_json) simp

text \<open>
  The string a manifest writes for a name is read back unchanged, with the text after it, by the JSON
  string reader of the program, whatever control characters, quotes and backslashes the name holds.
\<close>

theorem json_string_roundtrip:
  assumes "\<forall>n. mem n" "nul_free s" "length s + 2 < 2 ^ 64"
  shows "\<exists>cap'. append_json_string mem (buf, cap) s = Some (buf @ json_quote escape_char s, cap') \<and>
    ducknng_json_parse_string_dup mem (json_quote escape_char s @ rest) = Inr (s, rest)"
proof -
  have "ducknng_json_parse_string_dup mem (json_quote escape_char s @ rest) = Inr (s, rest)"
    by (rule manifest.parse_quote) (use assms in simp_all)
  with append_json_string_ok [OF assms(1)] show ?thesis by blast
qed

theorem json_string_roundtrip_witness:
  "\<exists>cap'. append_json_string (\<lambda>_. True) ([], 0) [QUOTE, CHR 0x0A, BACKSLASH] =
      Some (json_quote escape_char [QUOTE, CHR 0x0A, BACKSLASH], cap') \<and>
    ducknng_json_parse_string_dup (\<lambda>_. True) (json_quote escape_char [QUOTE, CHR 0x0A, BACKSLASH] @ '':'') =
      Inr ([QUOTE, CHR 0x0A, BACKSLASH], '':'')"
  using json_string_roundtrip [of "\<lambda>_. True" "[QUOTE, CHR 0x0A, BACKSLASH]" "[]" 0 "'':''"] by simp

text \<open>
  C12. A header object whose first field is neither \<open>name\<close> nor \<open>value\<close> is refused, but on that path the
  field's key and value are freed twice: once where the field is rejected and once more at the common
  exit, which still holds both pointers.
\<close>

theorem unknown_header_field_frees_twice:
  assumes "\<forall>n. mem n" "nul_free k" "nul_free v" "length k + 2 < 2 ^ 64" "length v + 2 < 2 ^ 64"
    and "k \<notin> {''name'', ''value''}" "w \<noteq> []" "\<not> json_ws d"
  shows "ducknng_http_headers_json_get_header mem
      (Some (''[{'' @ json_quote escape_char k @ CHR '':'' # json_quote escape_char v @ d # rest)) (Some w) reject =
    (Inl ''ducknng: headers_json objects may contain only name and value fields'', 2, [0, 1, 0, 1])"
proof -
  let ?p = "json_quote escape_char k @ CHR '':'' # json_quote escape_char v @ d # rest"
  have f: "header_fields mem 0 [] None None ?p =
      (Inl ''ducknng: headers_json objects may contain only name and value fields'', 2, [0, 1, 0, 1])"
    using manifest.header_fields_step [of mem k v d 0 "[]" None None rest] assms
    by (simp add: free_vars_def)
  have ws: "ducknng_json_skip_ws (CHR ''['' # q) = CHR ''['' # q" "ducknng_json_skip_ws (CHR ''{'' # q) = CHR ''{'' # q" for q
    by (simp_all add: ducknng_json_skip_ws_def json_ws_def)
  have l: "header_list_loop mem w reject None 0 [] (CHR ''{'' # ?p) =
      (Inl ''ducknng: headers_json objects may contain only name and value fields'', 2, [0, 1, 0, 1])"
    by (subst header_list_loop.simps) (simp add: ws f free_vars_def Let_def)
  show ?thesis
    using l assms(7) by (simp add: ducknng_http_headers_json_get_header_def ws Let_def)
qed

theorem unknown_header_field_frees_twice_witness:
  "ducknng_http_headers_json_get_header (\<lambda>_. True)
      (Some (''[{'' @ json_quote escape_char ''x'' @ CHR '':'' # json_quote escape_char ''y'' @ ''}]'')) (Some ''host'') True =
    (Inl ''ducknng: headers_json objects may contain only name and value fields'', 2, [0, 1, 0, 1])"
  using unknown_header_field_frees_twice [of "\<lambda>_. True" "''x''" "''y''" "''host''" "CHR ''}''" "'']''" True]
  by (simp add: json_ws_def)

end
