(* ===== verification/Transport.thy ===== *)
theory Transport
  imports Util
begin

text \<open>
  Transport URLs (\<open>ducknng_transport.c\<close>): the scheme before \<open>://\<close> decides the transport family, the transport
  and whether it uses TLS. \<open>tolower\<close> is that of the C locale.
\<close>

datatype transport_family = FAMILY_UNKNOWN | FAMILY_NNG | FAMILY_HTTP
datatype transport_scheme = SCHEME_UNKNOWN | SCHEME_INPROC | SCHEME_IPC | SCHEME_TCP | SCHEME_TLS_TCP
  | SCHEME_WS | SCHEME_WSS | SCHEME_HTTP | SCHEME_HTTPS

record transport_url =
  tu_family :: transport_family
  tu_scheme :: transport_scheme
  uses_tls :: bool

definition ducknng_transport_url_init :: transport_url where
  "ducknng_transport_url_init = \<lparr> tu_family = FAMILY_UNKNOWN, tu_scheme = SCHEME_UNKNOWN, uses_tls = False \<rparr>"

text \<open>The text before the first \<open>://\<close>, if there is one.\<close>

fun before_sep :: "string \<Rightarrow> string option" where
  "before_sep [] = None"
| "before_sep (c # s) = (if take 3 (c # s) = ''://'' then Some [] else map_option ((#) c) (before_sep s))"

definition ducknng_scheme_matches :: "string \<Rightarrow> string \<Rightarrow> bool" where
  "ducknng_scheme_matches scheme want = (length scheme = length want \<and> map ascii_lower scheme = want)"

definition ducknng_transport_url_parse :: "cstring \<Rightarrow> string + transport_url" where
  "ducknng_transport_url_parse url =
     (if \<not> nonempty url then Inl ''ducknng: transport URL is required''
      else case before_sep (deref url) of
        None \<Rightarrow> Inl ''ducknng: transport URL must include a scheme such as ipc:// or https://''
      | Some scheme \<Rightarrow>
          if scheme = [] then Inl ''ducknng: transport URL must include a scheme such as ipc:// or https://''
          else if ducknng_scheme_matches scheme ''inproc''
          then Inr (ducknng_transport_url_init\<lparr>tu_family := FAMILY_NNG, tu_scheme := SCHEME_INPROC\<rparr>)
          else if ducknng_scheme_matches scheme ''ipc''
          then Inr (ducknng_transport_url_init\<lparr>tu_family := FAMILY_NNG, tu_scheme := SCHEME_IPC\<rparr>)
          else if ducknng_scheme_matches scheme ''tcp''
          then Inr (ducknng_transport_url_init\<lparr>tu_family := FAMILY_NNG, tu_scheme := SCHEME_TCP\<rparr>)
          else if ducknng_scheme_matches scheme ''tls+tcp''
          then Inr (ducknng_transport_url_init\<lparr>tu_family := FAMILY_NNG, tu_scheme := SCHEME_TLS_TCP, uses_tls := True\<rparr>)
          else if ducknng_scheme_matches scheme ''ws''
          then Inr (ducknng_transport_url_init\<lparr>tu_family := FAMILY_NNG, tu_scheme := SCHEME_WS\<rparr>)
          else if ducknng_scheme_matches scheme ''wss''
          then Inr (ducknng_transport_url_init\<lparr>tu_family := FAMILY_NNG, tu_scheme := SCHEME_WSS, uses_tls := True\<rparr>)
          else if ducknng_scheme_matches scheme ''http''
          then Inr (ducknng_transport_url_init\<lparr>tu_family := FAMILY_HTTP, tu_scheme := SCHEME_HTTP\<rparr>)
          else if ducknng_scheme_matches scheme ''https''
          then Inr (ducknng_transport_url_init\<lparr>tu_family := FAMILY_HTTP, tu_scheme := SCHEME_HTTPS, uses_tls := True\<rparr>)
          else Inl ''ducknng: unsupported transport URL scheme'')"

definition ducknng_transport_url_is_nng :: "transport_url \<Rightarrow> bool" where
  "ducknng_transport_url_is_nng url = (tu_family url = FAMILY_NNG)"

definition ducknng_transport_url_is_http :: "transport_url \<Rightarrow> bool" where
  "ducknng_transport_url_is_http url = (tu_family url = FAMILY_HTTP)"

fun ducknng_transport_family_name :: "transport_family \<Rightarrow> string" where
  "ducknng_transport_family_name FAMILY_NNG = ''nng''"
| "ducknng_transport_family_name FAMILY_HTTP = ''http''"
| "ducknng_transport_family_name FAMILY_UNKNOWN = ''unknown''"

fun ducknng_transport_scheme_name :: "transport_scheme \<Rightarrow> string" where
  "ducknng_transport_scheme_name SCHEME_INPROC = ''inproc''"
| "ducknng_transport_scheme_name SCHEME_IPC = ''ipc''"
| "ducknng_transport_scheme_name SCHEME_TCP = ''tcp''"
| "ducknng_transport_scheme_name SCHEME_TLS_TCP = ''tls+tcp''"
| "ducknng_transport_scheme_name SCHEME_WS = ''ws''"
| "ducknng_transport_scheme_name SCHEME_WSS = ''wss''"
| "ducknng_transport_scheme_name SCHEME_HTTP = ''http''"
| "ducknng_transport_scheme_name SCHEME_HTTPS = ''https''"
| "ducknng_transport_scheme_name SCHEME_UNKNOWN = ''unknown''"

section \<open>What a parsed URL says\<close>

text \<open>A description is well formed when family and TLS agree with the transport.\<close>

definition url_wf :: "transport_url \<Rightarrow> bool" where
  "url_wf u \<longleftrightarrow> tu_scheme u \<noteq> SCHEME_UNKNOWN \<and>
     tu_family u = (if tu_scheme u \<in> {SCHEME_HTTP, SCHEME_HTTPS} then FAMILY_HTTP else FAMILY_NNG) \<and>
     uses_tls u = (tu_scheme u \<in> {SCHEME_TLS_TCP, SCHEME_WSS, SCHEME_HTTPS})"

lemma before_sep_Some: "before_sep s = Some a \<Longrightarrow> \<exists>rest. s = a @ ''://'' @ rest"
proof (induction s arbitrary: a rule: before_sep.induct)
  case (2 c s)
  show ?case
  proof (cases "take 3 (c # s) = ''://''")
    case True
    then have "c # s = ''://'' @ drop 3 (c # s)" by (metis append_take_drop_id)
    with True 2 show ?thesis by auto
  next
    case False
    with 2 show ?thesis by auto
  qed
qed simp

lemma before_sep_scheme: "CHR '':'' \<notin> set a \<Longrightarrow> before_sep (a @ ''://'' @ rest) = Some a"
  by (induction a) auto

lemma transport_url_parse_name:
  assumes "ducknng_transport_url_parse url = Inr u"
  shows "url_wf u \<and> (\<exists>scheme rest. url = Some (scheme @ ''://'' @ rest) \<and>
    map ascii_lower scheme = ducknng_transport_scheme_name (tu_scheme u))"
proof -
  obtain t scheme where t: "url = Some t" "before_sep t = Some scheme"
    using assms by (cases url) (auto simp: ducknng_transport_url_parse_def split: if_splits option.splits)
  have "url_wf u \<and> map ascii_lower scheme = ducknng_transport_scheme_name (tu_scheme u)"
    using assms t unfolding ducknng_transport_url_parse_def
    by (auto simp: ducknng_scheme_matches_def ducknng_transport_url_init_def url_wf_def split: if_splits)
  with before_sep_Some [OF t(2)] t(1) show ?thesis by auto
qed

text \<open>
  C27. Every accepted transport URL names a supported scheme in any letter case, and its description is well typed: never the unknown
  family or scheme, the HTTP family exactly for http and https, and TLS exactly for tls+tcp, wss and https. Conversely
  the name of each scheme, followed by \<open>://\<close> and any text, is parsed to that scheme.
\<close>

theorem transport_url_typed:
  "(case ducknng_transport_url_parse url of
      Inl err \<Rightarrow> True
    | Inr u \<Rightarrow> url_wf u \<and> (\<exists>scheme rest. url = Some (scheme @ ''://'' @ rest) \<and>
        map ascii_lower scheme = ducknng_transport_scheme_name (tu_scheme u))) \<and>
   (s = SCHEME_UNKNOWN \<or> (\<exists>u. ducknng_transport_url_parse (Some (ducknng_transport_scheme_name s @ ''://'' @ rest)) = Inr u \<and>
      tu_scheme u = s))"
proof -
  have "\<exists>u. ducknng_transport_url_parse (Some (ducknng_transport_scheme_name s @ ''://'' @ rest)) = Inr u \<and> tu_scheme u = s"
    if "s \<noteq> SCHEME_UNKNOWN"
  proof -
    have "CHR '':'' \<notin> set (ducknng_transport_scheme_name s)" by (cases s) simp_all
    from before_sep_scheme [OF this, of rest] that show ?thesis
      by (cases s) (simp_all add: ducknng_transport_url_parse_def ducknng_scheme_matches_def ducknng_transport_url_init_def ascii_lower_def)
  qed
  then show ?thesis
    using transport_url_parse_name [of url] by (auto split: sum.split)
qed

end
