(* ===== verification/Admission.thy ===== *)
theory Admission
  imports Util
begin

text \<open>
  Who may talk to a service: the TLS options with their peer allowlist (\<open>ducknng_nng_compat.c\<close>), the IP
  allowlist, and the admission checks of \<open>ducknng_service.c\<close>.

  Socket addresses are NNG's; the constructors are the families the code distinguishes, with the address
  bytes in network order. \<open>pton4\<close> and \<open>pton6\<close> stand for \<open>inet_pton\<close> of the two families: the bytes of a
  literal, or \<open>None\<close>. \<open>mem\<close> says which sizes can be allocated.
\<close>

datatype sockaddr = Inet bytes nat | Inet6 bytes nat | Ipc string | Inproc string | OtherFamily nat

datatype ip_family = NNG_AF_INET | NNG_AF_INET6

record ip_allow_rule =
  rule_family :: ip_family
  rule_addr :: bytes
  prefix_bits :: u8

record tls_opts =
  opts_enabled :: bool
  cert_key_file :: cstring
  ca_file :: cstring
  cert_pem :: cstring
  key_pem :: cstring
  ca_pem :: cstring
  tls_password :: cstring
  auth_mode :: int
  peer_allowlist_active :: bool
  peer_allowlist :: "string list"
  peer_allowlist_json :: cstring

record admission_state =
  svc_tls_enabled :: bool
  svc_tls_opts :: tls_opts
  ip_allowlist_active :: bool
  ip_allowlist :: "ip_allow_rule list"
  ip_allowlist_json :: cstring
  authorizer_active :: bool
  authorizer_sql :: cstring

section \<open>Strings of the allowlists\<close>

text \<open>\<open>store_char\<close> is the tail of both string loops: grow the buffer when it is full, then store.\<close>

definition store_char :: "(nat \<Rightarrow> bool) \<Rightarrow> string \<Rightarrow> nat \<Rightarrow> char \<Rightarrow> (string \<times> nat) option" where
  "store_char mem out cap ch =
     (if length out + 2 > cap then (if mem (cap * 2) then Some (out @ [ch], cap * 2) else None)
      else Some (out @ [ch], cap))"

definition simple_escape :: "char \<Rightarrow> char option" where
  "simple_escape e =
     (if e = QUOTE then Some QUOTE else if e = BACKSLASH then Some BACKSLASH
      else if e = CHR ''/'' then Some (CHR ''/'') else if e = CHR ''b'' then Some (CHR 0x08)
      else if e = CHR ''f'' then Some (CHR 0x0C) else if e = CHR ''n'' then Some (CHR 0x0A)
      else if e = CHR ''r'' then Some (CHR 0x0D) else if e = CHR ''t'' then Some (CHR 0x09) else None)"

fun ascii_string_loop :: "(nat \<Rightarrow> bool) \<Rightarrow> string \<Rightarrow> nat \<Rightarrow> string \<Rightarrow> string + string \<times> string" where
  "ascii_string_loop mem out cap [] = Inl ''ducknng: unterminated JSON string in IP allowlist''"
| "ascii_string_loop mem out cap (ch # s) =
     (if ch = QUOTE then Inr (out, s)
      else if ch = BACKSLASH then
        (case s of
           [] \<Rightarrow> Inl ''ducknng: unterminated JSON string in IP allowlist''
         | e # s' \<Rightarrow>
             (case simple_escape e of
                None \<Rightarrow> Inl ''ducknng: unsupported JSON escape in IP allowlist''
              | Some ch \<Rightarrow>
                  (case store_char mem out cap ch of
                     None \<Rightarrow> Inl ''ducknng: out of memory parsing IP allowlist''
                   | Some (out, cap) \<Rightarrow> ascii_string_loop mem out cap s')))
      else if code ch < 0x20 then Inl ''ducknng: invalid control character in IP allowlist''
      else
        (case store_char mem out cap ch of
           None \<Rightarrow> Inl ''ducknng: out of memory parsing IP allowlist''
         | Some (out, cap) \<Rightarrow> ascii_string_loop mem out cap s))"

definition ducknng_json_parse_ascii_string :: "(nat \<Rightarrow> bool) \<Rightarrow> string \<Rightarrow> string + string \<times> string" where
  "ducknng_json_parse_ascii_string mem p =
     (case p of
        [] \<Rightarrow> Inl ''ducknng: IP allowlist must be a JSON array of strings''
      | c # s \<Rightarrow>
          if c \<noteq> QUOTE then Inl ''ducknng: IP allowlist must be a JSON array of strings''
          else if \<not> mem 32 then Inl ''ducknng: out of memory parsing IP allowlist''
          else ascii_string_loop mem [] 32 s)"

definition ducknng_json_hex_value :: "char \<Rightarrow> nat option" where
  "ducknng_json_hex_value c =
     (if 48 \<le> code c \<and> code c \<le> 57 then Some (code c - 48)
      else if 97 \<le> code c \<and> code c \<le> 102 then Some (code c - 97 + 10)
      else if 65 \<le> code c \<and> code c \<le> 70 then Some (code c - 65 + 10) else None)"

text \<open>The \<open>\u00XY\<close> escape of the peer list: the character and the text after it.\<close>

fun latin_escape :: "string \<Rightarrow> (char \<times> string) option" where
  "latin_escape (a # b # c # d # s) =
     (case (ducknng_json_hex_value a, ducknng_json_hex_value b, ducknng_json_hex_value c, ducknng_json_hex_value d) of
        (Some h0, Some h1, Some h2, Some h3) \<Rightarrow>
          if h0 \<noteq> 0 \<or> h1 \<noteq> 0 \<or> h2 * 16 + h3 = 0 then None else Some (char_of (h2 * 16 + h3), s)
      | _ \<Rightarrow> None)"
| "latin_escape s = None"

definition peer_escape :: "string \<Rightarrow> (char \<times> string) option" where
  "peer_escape s =
     (case s of
        [] \<Rightarrow> None
      | e # s \<Rightarrow> if e = CHR ''u'' then latin_escape s
                 else (case simple_escape e of None \<Rightarrow> None | Some ch \<Rightarrow> Some (ch, s)))"

lemma latin_escape_length: "latin_escape s = Some (c, r) \<Longrightarrow> length r < length s"
  by (induction s rule: latin_escape.induct) (auto split: option.splits if_splits)

lemma peer_escape_length: "peer_escape s = Some (c, r) \<Longrightarrow> length r < length s"
  by (cases s) (auto simp: peer_escape_def dest: latin_escape_length split: if_splits option.splits)

function peer_string_loop :: "(nat \<Rightarrow> bool) \<Rightarrow> string \<Rightarrow> nat \<Rightarrow> string \<Rightarrow> string + string \<times> string" where
  "peer_string_loop mem out cap [] = Inl ''ducknng: unterminated JSON string in peer allowlist''"
| "peer_string_loop mem out cap (ch # s) =
     (if ch = QUOTE then Inr (out, s)
      else if ch = BACKSLASH then
        (if s = [] then Inl ''ducknng: unterminated JSON string in peer allowlist''
         else case peer_escape s of
           None \<Rightarrow> Inl ''ducknng: unsupported JSON escape in peer allowlist''
         | Some (ch, s') \<Rightarrow>
             (case store_char mem out cap ch of
                None \<Rightarrow> Inl ''ducknng: out of memory parsing peer allowlist''
              | Some (out, cap) \<Rightarrow> peer_string_loop mem out cap s'))
      else if code ch < 0x20 then Inl ''ducknng: invalid control character in peer allowlist''
      else
        (case store_char mem out cap ch of
           None \<Rightarrow> Inl ''ducknng: out of memory parsing peer allowlist''
         | Some (out, cap) \<Rightarrow> peer_string_loop mem out cap s))"
  by pat_completeness auto
termination
  by (relation "measure (\<lambda>(mem, out, cap, s). length s)") (auto dest: peer_escape_length)

declare peer_string_loop.simps [simp del]

definition ducknng_json_parse_string :: "(nat \<Rightarrow> bool) \<Rightarrow> string \<Rightarrow> string + string \<times> string" where
  "ducknng_json_parse_string mem p =
     (case p of
        [] \<Rightarrow> Inl ''ducknng: peer allowlist must be a JSON array of strings''
      | c # s \<Rightarrow>
          if c \<noteq> QUOTE then Inl ''ducknng: peer allowlist must be a JSON array of strings''
          else if \<not> mem 32 then Inl ''ducknng: out of memory parsing peer allowlist''
          else peer_string_loop mem [] 32 s)"

lemma ascii_string_loop_length: "ascii_string_loop mem out cap s = Inr (x, r) \<Longrightarrow> length r < length s"
proof (induction mem out cap s rule: ascii_string_loop.induct)
  case (2 mem out cap ch s)
  show ?case
  proof (cases "ch = BACKSLASH")
    case True
    then show ?thesis using 2 by (fastforce split: list.splits option.splits)
  next
    case False
    then show ?thesis using 2 by (fastforce split: if_splits option.splits)
  qed
qed simp

lemma peer_string_loop_length: "peer_string_loop mem out cap s = Inr (x, r) \<Longrightarrow> length r < length s"
proof (induction "length s" arbitrary: out cap s rule: less_induct)
  case less
  show ?case
  proof (cases s)
    case Nil
    then show ?thesis using less.prems by (simp add: peer_string_loop.simps)
  next
    case (Cons ch t)
    have "r = t \<or> (\<exists>out cap s'. length s' \<le> length t \<and> peer_string_loop mem out cap s' = Inr (x, r))"
      using less.prems unfolding Cons peer_string_loop.simps(2)
      by (auto split: if_splits option.splits) (meson less_imp_le peer_escape_length)+
    then show ?thesis
    proof
      assume "\<exists>out cap s'. length s' \<le> length t \<and> peer_string_loop mem out cap s' = Inr (x, r)"
      then obtain out cap s' where s': "length s' \<le> length t" "peer_string_loop mem out cap s' = Inr (x, r)" by blast
      then have "length r < length s'" using Cons by (intro less.hyps) simp_all
      with s'(1) Cons show ?thesis by simp
    qed (simp add: Cons)
  qed
qed

lemma parse_ascii_string_length: "ducknng_json_parse_ascii_string mem p = Inr (x, r) \<Longrightarrow> length r < length p"
  by (auto simp: ducknng_json_parse_ascii_string_def dest: ascii_string_loop_length split: list.splits if_splits)

lemma parse_peer_string_length: "ducknng_json_parse_string mem p = Inr (x, r) \<Longrightarrow> length r < length p"
  by (auto simp: ducknng_json_parse_string_def dest: peer_string_loop_length split: list.splits if_splits)

lemma list_item_shorter:
  "ducknng_json_parse_ascii_string mem (ducknng_json_skip_ws p) = Inr (x, p1) \<Longrightarrow> ducknng_json_skip_ws p1 = c # p2 \<Longrightarrow>
     length p2 < length p"
  "ducknng_json_parse_string mem (ducknng_json_skip_ws p) = Inr (x, p1) \<Longrightarrow> ducknng_json_skip_ws p1 = c # p2 \<Longrightarrow>
     length p2 < length p"
  using skip_ws_length [of p] skip_ws_length [of p1]
  by (auto dest: parse_ascii_string_length parse_peer_string_length)

section \<open>IP rules\<close>

fun u8_decimal_loop :: "nat \<Rightarrow> nat \<Rightarrow> string \<Rightarrow> nat option" where
  "u8_decimal_loop max_value v [] = Some v"
| "u8_decimal_loop max_value v (c # s) =
     (if \<not> (48 \<le> code c \<and> code c \<le> 57) then None
      else if v * 10 + (code c - 48) > max_value then None
      else u8_decimal_loop max_value (v * 10 + (code c - 48)) s)"

definition ducknng_parse_u8_decimal :: "string \<Rightarrow> nat \<Rightarrow> nat option" where
  "ducknng_parse_u8_decimal s max_value = (if s = [] then None else u8_decimal_loop max_value 0 s)"

definition pad16 :: "bytes \<Rightarrow> bytes" where
  "pad16 a = a @ replicate (16 - length a) 0"

text \<open>The prefix length after the slash, or the whole address without one.\<close>

definition cidr_prefix :: "string \<Rightarrow> nat \<Rightarrow> nat option" where
  "cidr_prefix slash full = (if slash = [] then Some full else ducknng_parse_u8_decimal (tl slash) full)"

definition ducknng_parse_ip_rule ::
  "(string \<Rightarrow> bytes option) \<Rightarrow> (string \<Rightarrow> bytes option) \<Rightarrow> string \<Rightarrow> string + ip_allow_rule" where
  "ducknng_parse_ip_rule pton4 pton6 txt =
     (let host = takeWhile (\<lambda>c. c \<noteq> CHR ''/'') txt;
          slash = dropWhile (\<lambda>c. c \<noteq> CHR ''/'') txt
      in if txt = [] then Inl ''ducknng: IP allowlist entries must be non-empty strings''
         else if length host = 0 \<or> length host \<ge> 128 then Inl ''ducknng: invalid IP allowlist address''
         else case pton4 host of
           Some a \<Rightarrow>
             (case cidr_prefix slash 32 of
                None \<Rightarrow> Inl ''ducknng: invalid IPv4 CIDR prefix in IP allowlist''
              | Some n \<Rightarrow> Inr \<lparr> rule_family = NNG_AF_INET, rule_addr = pad16 a, prefix_bits = of_nat n \<rparr>)
         | None \<Rightarrow>
             (case pton6 host of
                Some a \<Rightarrow>
                  (case cidr_prefix slash 128 of
                     None \<Rightarrow> Inl ''ducknng: invalid IPv6 CIDR prefix in IP allowlist''
                   | Some n \<Rightarrow> Inr \<lparr> rule_family = NNG_AF_INET6, rule_addr = pad16 a, prefix_bits = of_nat n \<rparr>)
              | None \<Rightarrow> Inl ''ducknng: IP allowlist entries must be IPv4/IPv6 literals or CIDR blocks''))"

text \<open>A rule takes 24 bytes.\<close>

function ip_list_loop ::
  "(nat \<Rightarrow> bool) \<Rightarrow> (string \<Rightarrow> bytes option) \<Rightarrow> (string \<Rightarrow> bytes option) \<Rightarrow> ip_allow_rule list \<Rightarrow> nat \<Rightarrow> string \<Rightarrow>
   string + ip_allow_rule list \<times> string" where
  "ip_list_loop mem pton4 pton6 rules cap p =
     (case ducknng_json_parse_ascii_string mem (ducknng_json_skip_ws p) of
        Inl err \<Rightarrow> Inl err
      | Inr (item, p1) \<Rightarrow>
          (case ducknng_parse_ip_rule pton4 pton6 item of
             Inl err \<Rightarrow> Inl err
           | Inr rule \<Rightarrow>
               let new_cap = (if length rules = cap then (if cap \<noteq> 0 then cap * 2 else 4) else cap)
               in if length rules = cap \<and> \<not> mem (24 * new_cap)
                  then Inl ''ducknng: out of memory parsing IP allowlist''
                  else (case ducknng_json_skip_ws p1 of
                          [] \<Rightarrow> Inl (''ducknng: expected '' @ quoted '','' @ '' or '' @ quoted '']'' @ '' in IP allowlist JSON'')
                        | c # p2 \<Rightarrow>
                            if c = CHR '','' then ip_list_loop mem pton4 pton6 (rules @ [rule]) new_cap p2
                            else if c = CHR '']'' then Inr (rules @ [rule], p2)
                            else Inl (''ducknng: expected '' @ quoted '','' @ '' or '' @ quoted '']'' @ '' in IP allowlist JSON''))))"
  by pat_completeness auto
termination
  by (relation "measure (\<lambda>(mem, pton4, pton6, rules, cap, p). length p)") (auto dest: list_item_shorter)

declare ip_list_loop.simps [simp del]

text \<open>The rules and the stored copy of the text.\<close>

definition ducknng_parse_ip_allowlist_json ::
  "(nat \<Rightarrow> bool) \<Rightarrow> (string \<Rightarrow> bytes option) \<Rightarrow> (string \<Rightarrow> bytes option) \<Rightarrow> cstring \<Rightarrow>
   string + ip_allow_rule list \<times> string" where
  "ducknng_parse_ip_allowlist_json mem pton4 pton6 json =
     (case ducknng_json_skip_ws (deref json) of
        [] \<Rightarrow> Inl ''ducknng: IP allowlist must be a JSON array of strings''
      | c # p \<Rightarrow>
          if c \<noteq> CHR ''['' then Inl ''ducknng: IP allowlist must be a JSON array of strings''
          else
            let p = ducknng_json_skip_ws p;
                finish = (\<lambda>(rules, p).
                  if ducknng_json_skip_ws p \<noteq> [] then Inl ''ducknng: trailing characters after IP allowlist JSON''
                  else if \<not> mem (length (deref json) + 1) then Inl ''ducknng: out of memory copying IP allowlist''
                  else Inr (rules, deref json))
            in if p \<noteq> [] \<and> hd p = CHR '']'' then finish ([], tl p)
               else case ip_list_loop mem pton4 pton6 [] 0 p of Inl err \<Rightarrow> Inl err | Inr r \<Rightarrow> finish r)"

definition ducknng_ip_rule_matches_bytes :: "ip_allow_rule \<Rightarrow> bytes \<Rightarrow> bool" where
  "ducknng_ip_rule_matches_bytes rule addr =
     (let full = unat (prefix_bits rule) div 8;
          rem = unat (prefix_bits rule) mod 8;
          mask = (push_bit (8 - rem) 0xff :: u8)
      in if full > 0 \<and> take full (rule_addr rule) \<noteq> take full addr then False
         else if rem = 0 then True
         else rule_addr rule ! full AND mask = addr ! full AND mask)"

definition ducknng_remote_addr_matches_ip_allowlist :: "admission_state \<Rightarrow> sockaddr option \<Rightarrow> bool" where
  "ducknng_remote_addr_matches_ip_allowlist svc addr =
     (if \<not> ip_allowlist_active svc then True
      else case addr of
        Some (Inet a port) \<Rightarrow>
          list_ex (\<lambda>r. rule_family r = NNG_AF_INET \<and> ducknng_ip_rule_matches_bytes r (pad16 a)) (ip_allowlist svc)
      | Some (Inet6 a port) \<Rightarrow>
          list_ex (\<lambda>r. rule_family r = NNG_AF_INET6 \<and> ducknng_ip_rule_matches_bytes r a) (ip_allowlist svc)
      | _ \<Rightarrow> False)"

section \<open>The peer allowlist\<close>

function peer_list_loop ::
  "(nat \<Rightarrow> bool) \<Rightarrow> string list \<Rightarrow> nat \<Rightarrow> string \<Rightarrow> string + string list \<times> string" where
  "peer_list_loop mem items cap p =
     (case ducknng_json_parse_string mem (ducknng_json_skip_ws p) of
        Inl err \<Rightarrow> Inl err
      | Inr (item, p1) \<Rightarrow>
          if item = [] then Inl ''ducknng: peer allowlist identities must be non-empty strings''
          else
            let new_cap = (if length items = cap then (if cap \<noteq> 0 then cap * 2 else 4) else cap)
            in if length items = cap \<and> \<not> mem (8 * new_cap)
               then Inl ''ducknng: out of memory parsing peer allowlist''
               else (case ducknng_json_skip_ws p1 of
                       [] \<Rightarrow> Inl (''ducknng: expected '' @ quoted '','' @ '' or '' @ quoted '']'' @ '' in peer allowlist JSON'')
                     | c # p2 \<Rightarrow>
                         if c = CHR '','' then peer_list_loop mem (items @ [item]) new_cap p2
                         else if c = CHR '']'' then Inr (items @ [item], p2)
                         else Inl (''ducknng: expected '' @ quoted '','' @ '' or '' @ quoted '']'' @ '' in peer allowlist JSON'')))"
  by pat_completeness auto
termination
  by (relation "measure (\<lambda>(mem, items, cap, p). length p)") (auto dest: list_item_shorter)

declare peer_list_loop.simps [simp del]

definition ducknng_peer_allowlist_parse :: "(nat \<Rightarrow> bool) \<Rightarrow> cstring \<Rightarrow> string + string list \<times> string" where
  "ducknng_peer_allowlist_parse mem json =
     (case ducknng_json_skip_ws (deref json) of
        [] \<Rightarrow> Inl ''ducknng: peer allowlist must be a JSON array of strings''
      | c # p \<Rightarrow>
          if c \<noteq> CHR ''['' then Inl ''ducknng: peer allowlist must be a JSON array of strings''
          else
            let p = ducknng_json_skip_ws p;
                finish = (\<lambda>(items, p).
                  if ducknng_json_skip_ws p \<noteq> [] then Inl ''ducknng: trailing characters after peer allowlist JSON''
                  else if \<not> mem (length (deref json) + 1) then Inl ''ducknng: out of memory copying peer allowlist''
                  else Inr (items, deref json))
            in if p \<noteq> [] \<and> hd p = CHR '']'' then finish ([], tl p)
               else case peer_list_loop mem [] 0 p of Inl err \<Rightarrow> Inl err | Inr r \<Rightarrow> finish r)"

definition ducknng_tls_opts_init :: tls_opts where
  "ducknng_tls_opts_init = \<lparr> opts_enabled = False, cert_key_file = None, ca_file = None, cert_pem = None, key_pem = None,
     ca_pem = None, tls_password = None, auth_mode = 0, peer_allowlist_active = False, peer_allowlist = [],
     peer_allowlist_json = None \<rparr>"

definition ducknng_tls_opts_clear_peer_allowlist :: "tls_opts \<Rightarrow> tls_opts" where
  "ducknng_tls_opts_clear_peer_allowlist opts =
     opts\<lparr>peer_allowlist := [], peer_allowlist_json := None, peer_allowlist_active := False\<rparr>"

text \<open>\<open>None\<close> is the result 0, \<open>Some\<close> the result -1 with its message.\<close>

definition ducknng_tls_opts_set_peer_allowlist ::
  "(nat \<Rightarrow> bool) \<Rightarrow> tls_opts \<Rightarrow> cstring \<Rightarrow> cstring \<times> tls_opts" where
  "ducknng_tls_opts_set_peer_allowlist mem opts identities_json =
     (if \<not> nonempty identities_json then (None, ducknng_tls_opts_clear_peer_allowlist opts)
      else case ducknng_peer_allowlist_parse mem identities_json of
        Inl err \<Rightarrow> (Some err, opts)
      | Inr (items, json) \<Rightarrow>
          (None, (ducknng_tls_opts_clear_peer_allowlist opts)
             \<lparr>peer_allowlist_active := True, peer_allowlist := items, peer_allowlist_json := Some json\<rparr>))"

definition ducknng_tls_opts_peer_allowed :: "tls_opts \<Rightarrow> cstring \<Rightarrow> bool" where
  "ducknng_tls_opts_peer_allowed opts identity =
     (if \<not> peer_allowlist_active opts then True
      else if \<not> nonempty identity then False
      else list_ex (\<lambda>x. x = deref identity) (peer_allowlist opts))"

definition ducknng_tls_opts_reset :: "tls_opts \<Rightarrow> tls_opts" where
  "ducknng_tls_opts_reset opts = ducknng_tls_opts_init"

text \<open>\<open>ok i\<close>: the \<open>i\<close>-th of the six string copies succeeds.\<close>

definition ducknng_tls_opts_copy ::
  "(nat \<Rightarrow> bool) \<Rightarrow> (nat \<Rightarrow> bool) \<Rightarrow> tls_opts option \<Rightarrow> bool \<times> tls_opts" where
  "ducknng_tls_opts_copy ok mem src =
     (case src of
        None \<Rightarrow> (True, ducknng_tls_opts_init)
      | Some src \<Rightarrow>
          let dst = ducknng_tls_opts_init\<lparr>opts_enabled := opts_enabled src, auth_mode := auth_mode src,
                cert_key_file := dup ok 0 (cert_key_file src), ca_file := dup ok 1 (ca_file src),
                cert_pem := dup ok 2 (cert_pem src), key_pem := dup ok 3 (key_pem src),
                ca_pem := dup ok 4 (ca_pem src), tls_password := dup ok 5 (tls_password src)\<rparr>
          in if cert_key_file src \<noteq> None \<and> cert_key_file dst = None \<or> ca_file src \<noteq> None \<and> ca_file dst = None \<or>
                cert_pem src \<noteq> None \<and> cert_pem dst = None \<or> key_pem src \<noteq> None \<and> key_pem dst = None \<or>
                ca_pem src \<noteq> None \<and> ca_pem dst = None \<or> tls_password src \<noteq> None \<and> tls_password dst = None
             then (False, ducknng_tls_opts_reset dst)
             else if peer_allowlist_active src
             then (case ducknng_tls_opts_set_peer_allowlist mem dst
                     (case peer_allowlist_json src of None \<Rightarrow> Some ''[]'' | Some j \<Rightarrow> Some j) of
                     (Some err, dst) \<Rightarrow> (False, ducknng_tls_opts_reset dst)
                   | (None, dst) \<Rightarrow> (True, dst))
             else (True, dst))"

section \<open>Admission\<close>

definition ducknng_service_requires_peer_identity :: "admission_state \<Rightarrow> bool" where
  "ducknng_service_requires_peer_identity svc = (svc_tls_enabled svc \<and> auth_mode (svc_tls_opts svc) = 2)"

definition ducknng_service_peer_admission_check :: "admission_state option \<Rightarrow> cstring \<Rightarrow> cstring" where
  "ducknng_service_peer_admission_check svc caller_identity =
     (case svc of
        None \<Rightarrow> Some ''ducknng: missing service for peer admission''
      | Some svc \<Rightarrow>
          let allowed = ducknng_tls_opts_peer_allowed (svc_tls_opts svc) caller_identity
          in if ducknng_service_requires_peer_identity svc \<and> \<not> nonempty caller_identity
             then Some ''ducknng: mTLS peer identity is required''
             else if peer_allowlist_active (svc_tls_opts svc) \<and> \<not> allowed
             then Some ''ducknng: peer identity is not admitted''
             else None)"

definition ducknng_service_network_admission_check ::
  "admission_state option \<Rightarrow> cstring \<Rightarrow> sockaddr option \<Rightarrow> cstring" where
  "ducknng_service_network_admission_check svc caller_identity remote_addr =
     (case ducknng_service_peer_admission_check svc caller_identity of
        Some err \<Rightarrow> Some err
      | None \<Rightarrow>
          (case svc of
             None \<Rightarrow> Some ''ducknng: missing service for network admission''
           | Some svc \<Rightarrow>
               if ip_allowlist_active svc \<and> \<not> ducknng_remote_addr_matches_ip_allowlist svc remote_addr
               then Some ''ducknng: remote address is not admitted'' else None))"

definition ducknng_service_set_peer_allowlist ::
  "(nat \<Rightarrow> bool) \<Rightarrow> admission_state \<Rightarrow> cstring \<Rightarrow> cstring \<times> admission_state" where
  "ducknng_service_set_peer_allowlist mem svc identities_json =
     (case ducknng_tls_opts_set_peer_allowlist mem (svc_tls_opts svc) identities_json of
        (r, opts) \<Rightarrow> (r, svc\<lparr>svc_tls_opts := opts\<rparr>))"

definition ducknng_service_clear_ip_allowlist :: "admission_state \<Rightarrow> admission_state" where
  "ducknng_service_clear_ip_allowlist svc =
     svc\<lparr>ip_allowlist := [], ip_allowlist_json := None, ip_allowlist_active := False\<rparr>"

definition ducknng_service_set_ip_allowlist ::
  "(nat \<Rightarrow> bool) \<Rightarrow> (string \<Rightarrow> bytes option) \<Rightarrow> (string \<Rightarrow> bytes option) \<Rightarrow> admission_state \<Rightarrow> cstring \<Rightarrow>
   cstring \<times> admission_state" where
  "ducknng_service_set_ip_allowlist mem pton4 pton6 svc cidrs_json =
     (if \<not> nonempty cidrs_json then (None, ducknng_service_clear_ip_allowlist svc)
      else case ducknng_parse_ip_allowlist_json mem pton4 pton6 cidrs_json of
        Inl err \<Rightarrow> (Some err, svc)
      | Inr (rules, json) \<Rightarrow>
          (None, (ducknng_service_clear_ip_allowlist svc)
             \<lparr>ip_allowlist_active := True, ip_allowlist := rules, ip_allowlist_json := Some json\<rparr>))"

definition ducknng_service_clear_authorizer :: "admission_state \<Rightarrow> admission_state" where
  "ducknng_service_clear_authorizer svc = svc\<lparr>authorizer_sql := None, authorizer_active := False\<rparr>"

definition ducknng_service_set_authorizer ::
  "(nat \<Rightarrow> bool) \<Rightarrow> admission_state \<Rightarrow> cstring \<Rightarrow> cstring \<times> admission_state" where
  "ducknng_service_set_authorizer mem svc sql =
     (if \<not> nonempty sql then (None, ducknng_service_clear_authorizer svc)
      else if \<not> mem (length (deref sql) + 1) then (Some ''ducknng: out of memory copying SQL authorizer'', svc)
      else (None, (ducknng_service_clear_authorizer svc)\<lparr>authorizer_sql := sql, authorizer_active := True\<rparr>))"

section \<open>A rule matches the addresses that share its leading bits\<close>

definition byte_bits :: "u8 \<Rightarrow> bool list" where
  "byte_bits b = map (\<lambda>i. bit b (7 - i)) [0..<8]"

definition addr_bits :: "bytes \<Rightarrow> bool list" where
  "addr_bits bs = concat (map byte_bits bs)"

lemma length_byte_bits [simp]: "length (byte_bits b) = 8"
  by (simp add: byte_bits_def)

lemma nth_byte_bits: "i < 8 \<Longrightarrow> byte_bits b ! i = bit b (7 - i)"
  by (simp add: byte_bits_def)

lemma length_addr_bits [simp]: "length (addr_bits bs) = 8 * length bs"
  by (induction bs) (simp_all add: addr_bits_def)

lemma addr_bits_simps [simp]:
  "addr_bits [] = []" "addr_bits (b # bs) = byte_bits b @ addr_bits bs"
  "addr_bits (as @ bs) = addr_bits as @ addr_bits bs"
  by (simp_all add: addr_bits_def)

lemma byte_bits_eq: "byte_bits x = byte_bits y \<longleftrightarrow> x = y"
proof
  assume eq: "byte_bits x = byte_bits y"
  show "x = y"
  proof (rule bit_word_eqI)
    fix n
    assume "n < LENGTH(8)"
    then have "n < 8" "7 - (7 - n) = n" by simp_all
    then show "bit x n = bit y n"
      using arg_cong [OF eq, of "\<lambda>l. l ! (7 - n)"] by (simp add: nth_byte_bits)
  qed
qed simp

lemma addr_bits_eq: "length as = length bs \<Longrightarrow> addr_bits as = addr_bits bs \<longleftrightarrow> as = bs"
  by (induction as bs rule: list_induct2) (simp_all add: byte_bits_eq)

lemma masked_eq:
  fixes x y :: u8
  assumes "rem < 8"
  shows "x AND push_bit (8 - rem) 0xff = y AND push_bit (8 - rem) 0xff \<longleftrightarrow> take rem (byte_bits x) = take rem (byte_bits y)"
proof -
  have ff: "bit (push_bit (8 - rem) 0xff :: u8) n \<longleftrightarrow> 8 - rem \<le> n \<and> n < 8" for n
  proof -
    have "(0xff :: u8) = mask 8" by (simp add: mask_eq_exp_minus_1)
    then have b: "bit (0xff :: u8) m \<longleftrightarrow> m < 8" for m by (simp only: bit_mask_iff) auto
    show ?thesis unfolding bit_push_bit_iff b by auto
  qed
  have "x AND push_bit (8 - rem) 0xff = y AND push_bit (8 - rem) 0xff \<longleftrightarrow> (\<forall>n < 8. 8 - rem \<le> n \<longrightarrow> bit x n = bit y n)"
    by (auto simp: bit_eq_iff bit_and_iff ff)
  also have "\<dots> \<longleftrightarrow> (\<forall>i < rem. bit x (7 - i) = bit y (7 - i))"
  proof safe
    fix i
    assume "\<forall>n < 8. 8 - rem \<le> n \<longrightarrow> bit x n = bit y n" "i < rem"
    then show "bit x (7 - i) \<Longrightarrow> bit y (7 - i)" "bit y (7 - i) \<Longrightarrow> bit x (7 - i)"
      using assms by auto
  next
    fix n
    assume a: "\<forall>i < rem. bit x (7 - i) = bit y (7 - i)" "n < 8" "8 - rem \<le> n"
    then have "7 - n < rem" "7 - (7 - n) = n" by simp_all
    with a(1) show "bit x n \<Longrightarrow> bit y n" "bit y n \<Longrightarrow> bit x n" by metis+
  qed
  also have "\<dots> \<longleftrightarrow> take rem (byte_bits x) = take rem (byte_bits y)"
    using assms by (auto simp: list_eq_iff_nth_eq nth_byte_bits)
  finally show ?thesis .
qed

lemma rule_matches_bits:
  assumes "length (rule_addr r) = 16" "length a = 16" "unat (prefix_bits r) \<le> 128"
  shows "ducknng_ip_rule_matches_bytes r a \<longleftrightarrow>
    take (unat (prefix_bits r)) (addr_bits (rule_addr r)) = take (unat (prefix_bits r)) (addr_bits a)"
proof -
  define n full rem where "n = unat (prefix_bits r)" and "full = n div 8" and "rem = n mod 8"
  have n: "n = 8 * full + rem" "rem < 8" "full \<le> 16" using assms(3) by (simp_all add: n_def full_def rem_def)
  let ?x = "rule_addr r"
  have len: "length (take full ?x) = full" "length (take full a) = full" using assms n(3) by simp_all
  have whole: "take (8 * full) (addr_bits bs) = addr_bits (take full bs)" if "length bs = 16" for bs
  proof -
    have "addr_bits bs = addr_bits (take full bs) @ addr_bits (drop full bs)"
      by (metis addr_bits_simps(3) append_take_drop_id)
    then show ?thesis using that n(3) by simp
  qed
  show ?thesis
  proof (cases "rem = 0")
    case True
    then show ?thesis
      using addr_bits_eq [of "take full ?x" "take full a"] whole [OF assms(1)] whole [OF assms(2)] len n(1)
      by (simp add: ducknng_ip_rule_matches_bytes_def n_def [symmetric] full_def [symmetric] rem_def [symmetric])
  next
    case False
    then have full: "full < 16" using assms(3) n by (simp add: n_def [symmetric])
    have split: "take n (addr_bits bs) = addr_bits (take full bs) @ take rem (byte_bits (bs ! full))" if "length bs = 16" for bs
    proof -
      have "bs = take full bs @ bs ! full # drop (Suc full) bs" using that full by (simp add: id_take_nth_drop)
      then have "addr_bits bs = addr_bits (take full bs) @ byte_bits (bs ! full) @ addr_bits (drop (Suc full) bs)"
        by (metis addr_bits_simps(2,3))
      then show ?thesis using that full n by simp
    qed
    have "take n (addr_bits ?x) = take n (addr_bits a) \<longleftrightarrow>
        take full ?x = take full a \<and> take rem (byte_bits (?x ! full)) = take rem (byte_bits (a ! full))"
      unfolding split [OF assms(1)] split [OF assms(2)]
      using addr_bits_eq [of "take full ?x" "take full a"] len by (simp add: append_eq_append_conv)
    then show ?thesis
      using False masked_eq [OF n(2)]
      by (simp add: ducknng_ip_rule_matches_bytes_def n_def [symmetric] full_def [symmetric] rem_def [symmetric] Let_def)
  qed
qed

section \<open>Every configuration a service can have\<close>

definition pton_ok :: "(string \<Rightarrow> bytes option) \<Rightarrow> (string \<Rightarrow> bytes option) \<Rightarrow> bool" where
  "pton_ok pton4 pton6 \<longleftrightarrow> (\<forall>h a. pton4 h = Some a \<longrightarrow> length a = 4) \<and> (\<forall>h a. pton6 h = Some a \<longrightarrow> length a = 16)"

definition rule_ok :: "ip_allow_rule \<Rightarrow> bool" where
  "rule_ok r \<longleftrightarrow> length (rule_addr r) = 16 \<and>
     unat (prefix_bits r) \<le> (case rule_family r of NNG_AF_INET \<Rightarrow> 32 | NNG_AF_INET6 \<Rightarrow> 128)"

lemma u8_decimal_bound: "u8_decimal_loop m v s = Some n \<Longrightarrow> v \<le> m \<Longrightarrow> n \<le> m"
  by (induction m v s rule: u8_decimal_loop.induct) (auto split: if_splits)

lemma parse_u8_decimal_bound: "ducknng_parse_u8_decimal s m = Some n \<Longrightarrow> n \<le> m"
  by (auto simp: ducknng_parse_u8_decimal_def dest: u8_decimal_bound split: if_splits)

lemma cidr_prefix_bound: "cidr_prefix t m = Some n \<Longrightarrow> n \<le> m"
  by (auto simp: cidr_prefix_def dest: parse_u8_decimal_bound split: if_splits)

lemma parse_ip_rule_cases:
  assumes "ducknng_parse_ip_rule pton4 pton6 txt = Inr r"
  obtains h a n where "pton4 h = Some a" "n \<le> 32" "r = \<lparr> rule_family = NNG_AF_INET, rule_addr = pad16 a, prefix_bits = of_nat n \<rparr>"
  | h a n where "pton6 h = Some a" "n \<le> 128" "r = \<lparr> rule_family = NNG_AF_INET6, rule_addr = pad16 a, prefix_bits = of_nat n \<rparr>"
  using assms unfolding ducknng_parse_ip_rule_def Let_def
  by (auto split: if_splits option.splits dest: cidr_prefix_bound)

lemma parse_ip_rule_ok:
  assumes "pton_ok pton4 pton6" "ducknng_parse_ip_rule pton4 pton6 txt = Inr r"
  shows "rule_ok r"
proof -
  have small: "unat (of_nat n :: u8) = n" if "n \<le> 128" for n using that by (simp add: unat_of_nat)
  from assms(2) show ?thesis
  proof (cases rule: parse_ip_rule_cases)
    case (1 h a n)
    with assms(1) have "length a = 4" by (auto simp: pton_ok_def)
    with 1 show ?thesis by (simp add: rule_ok_def pad16_def small)
  next
    case (2 h a n)
    with assms(1) have "length a = 16" by (auto simp: pton_ok_def)
    with 2 show ?thesis by (simp add: rule_ok_def pad16_def small)
  qed
qed

lemma ip_list_loop_ok:
  assumes "pton_ok pton4 pton6"
  shows "ip_list_loop mem pton4 pton6 rules cap p = Inr (rs, q) \<Longrightarrow> list_all rule_ok rules \<Longrightarrow> list_all rule_ok rs"
proof (induction "length p" arbitrary: rules cap p rule: less_induct)
  case less
  obtain item p1 r c p2 cap' where
      s: "ducknng_json_parse_ascii_string mem (ducknng_json_skip_ws p) = Inr (item, p1)"
        "ducknng_parse_ip_rule pton4 pton6 item = Inr r" "ducknng_json_skip_ws p1 = c # p2"
      and cont: "ip_list_loop mem pton4 pton6 (rules @ [r]) cap' p2 = Inr (rs, q) \<or> rs = rules @ [r]"
    using less.prems(1) unfolding ip_list_loop.simps [of mem pton4 pton6 rules cap p]
    by (auto simp: Let_def split: sum.splits prod.splits list.splits if_splits)
  have r: "list_all rule_ok (rules @ [r])" using less.prems(2) parse_ip_rule_ok [OF assms s(2)] by simp
  from cont show ?case
  proof
    assume "ip_list_loop mem pton4 pton6 (rules @ [r]) cap' p2 = Inr (rs, q)"
    with less.hyps [OF list_item_shorter(1) [OF s(1,3)]] r show ?thesis by blast
  qed (use r in simp)
qed

lemma parse_ip_allowlist_ok:
  assumes "pton_ok pton4 pton6" "ducknng_parse_ip_allowlist_json mem pton4 pton6 json = Inr (rs, txt)"
  shows "list_all rule_ok rs"
  using assms(2) ip_list_loop_ok [OF assms(1), of mem "[]" 0 _ rs]
  by (auto simp: ducknng_parse_ip_allowlist_json_def Let_def split: list.splits if_splits sum.splits)

inductive admission_step :: "admission_state \<Rightarrow> admission_state \<Rightarrow> bool" where
  step_set_ip: "pton_ok pton4 pton6 \<Longrightarrow>
    admission_step svc (snd (ducknng_service_set_ip_allowlist mem pton4 pton6 svc json))"
| step_set_peer: "admission_step svc (snd (ducknng_service_set_peer_allowlist mem svc json))"
| step_set_authorizer: "admission_step svc (snd (ducknng_service_set_authorizer mem svc sql))"

definition admission_init :: "admission_state \<Rightarrow> bool" where
  "admission_init svc \<longleftrightarrow> \<not> ip_allowlist_active svc \<and> ip_allowlist svc = [] \<and> \<not> authorizer_active svc"

definition admission_inv :: "admission_state \<Rightarrow> bool" where
  "admission_inv svc \<longleftrightarrow> list_all rule_ok (ip_allowlist svc)"

interpretation admission: machine admission_init admission_step admission_inv
proof unfold_locales
  fix s t :: admission_state
  assume "admission_inv s" "admission_step s t"
  from this(2,1) show "admission_inv t"
    by cases (auto simp: admission_inv_def ducknng_service_set_ip_allowlist_def ducknng_service_set_peer_allowlist_def
      ducknng_service_set_authorizer_def ducknng_service_clear_ip_allowlist_def ducknng_service_clear_authorizer_def
      dest: parse_ip_allowlist_ok split: sum.split prod.split)
qed (simp add: admission_init_def admission_inv_def)

text \<open>The addresses of a rule's block, and what a peer must present.\<close>

definition sockaddr_ok :: "sockaddr option \<Rightarrow> bool" where
  "sockaddr_ok addr \<longleftrightarrow> (case addr of Some (Inet a port) \<Rightarrow> length a = 4 | Some (Inet6 a port) \<Rightarrow> length a = 16 | _ \<Rightarrow> True)"

definition in_block :: "ip_allow_rule \<Rightarrow> sockaddr option \<Rightarrow> bool" where
  "in_block r addr \<longleftrightarrow>
     (let n = unat (prefix_bits r) in
      case addr of
        Some (Inet a port) \<Rightarrow> rule_family r = NNG_AF_INET \<and> take n (addr_bits (take 4 (rule_addr r))) = take n (addr_bits a)
      | Some (Inet6 a port) \<Rightarrow> rule_family r = NNG_AF_INET6 \<and> take n (addr_bits (rule_addr r)) = take n (addr_bits a)
      | _ \<Rightarrow> False)"

lemma take_addr_bits_pad: "length a = 4 \<Longrightarrow> n \<le> 32 \<Longrightarrow> take n (addr_bits (pad16 a)) = take n (addr_bits a)"
  by (simp add: pad16_def)

lemma take_addr_bits_take:
  assumes "length a = 16" "n \<le> 32"
  shows "take n (addr_bits (take 4 a)) = take n (addr_bits a)"
proof -
  have "addr_bits a = addr_bits (take 4 a) @ addr_bits (drop 4 a)"
    by (metis addr_bits_simps(3) append_take_drop_id)
  with assms show ?thesis by simp
qed

lemma allowlist_blocks:
  assumes "list_all rule_ok (ip_allowlist svc)" "sockaddr_ok addr" "ip_allowlist_active svc"
  shows "ducknng_remote_addr_matches_ip_allowlist svc addr \<longleftrightarrow> list_ex (\<lambda>r. in_block r addr) (ip_allowlist svc)"
proof -
  have four: "(rule_family r = NNG_AF_INET \<and> ducknng_ip_rule_matches_bytes r (pad16 a)) \<longleftrightarrow> in_block r (Some (Inet a p))"
    if "r \<in> set (ip_allowlist svc)" "length a = 4" for r a p
  proof -
    have ok: "rule_ok r" using assms(1) that(1) by (simp add: list_all_iff)
    show ?thesis
    proof (cases "rule_family r")
      case NNG_AF_INET
      with ok have "length (rule_addr r) = 16" "unat (prefix_bits r) \<le> 32" by (simp_all add: rule_ok_def)
      with that(2) show ?thesis
        using rule_matches_bits [of r "pad16 a"] NNG_AF_INET
        by (simp add: in_block_def take_addr_bits_pad take_addr_bits_take pad16_def Let_def)
    qed (simp add: in_block_def Let_def)
  qed
  have six: "(rule_family r = NNG_AF_INET6 \<and> ducknng_ip_rule_matches_bytes r a) \<longleftrightarrow> in_block r (Some (Inet6 a p))"
    if "r \<in> set (ip_allowlist svc)" "length a = 16" for r a p
  proof -
    have "rule_ok r" using assms(1) that(1) by (simp add: list_all_iff)
    with that(2) show ?thesis
      using rule_matches_bits [of r a] by (cases "rule_family r") (simp_all add: rule_ok_def in_block_def Let_def)
  qed
  have v4: "(\<exists>r \<in> set (ip_allowlist svc). rule_family r = NNG_AF_INET \<and> ducknng_ip_rule_matches_bytes r (pad16 a)) \<longleftrightarrow>
      (\<exists>r \<in> set (ip_allowlist svc). in_block r (Some (Inet a p)))" if "length a = 4" for a p
    using four [OF _ that] by (intro bex_cong refl)
  have v6: "(\<exists>r \<in> set (ip_allowlist svc). rule_family r = NNG_AF_INET6 \<and> ducknng_ip_rule_matches_bytes r a) \<longleftrightarrow>
      (\<exists>r \<in> set (ip_allowlist svc). in_block r (Some (Inet6 a p)))" if "length a = 16" for a p
    using six [OF _ that] by (intro bex_cong refl)
  have out: "\<not> in_block r None" "\<not> in_block r (Some (Ipc s))" "\<not> in_block r (Some (Inproc s))" "\<not> in_block r (Some (OtherFamily k))" for r s k
    by (simp_all add: in_block_def Let_def)
  show ?thesis
  proof (cases addr)
    case None
    then show ?thesis using assms(3) by (simp add: ducknng_remote_addr_matches_ip_allowlist_def list_ex_iff out)
  next
    case (Some x)
    then show ?thesis
      using assms(2,3)
      by (cases x) (simp_all add: ducknng_remote_addr_matches_ip_allowlist_def list_ex_iff sockaddr_ok_def out v4 v6)
  qed
qed


text \<open>A service with one rule, 10.0.0.0/8.\<close>

definition sample_svc :: admission_state where
  "sample_svc = \<lparr> svc_tls_enabled = False, svc_tls_opts = ducknng_tls_opts_init, ip_allowlist_active = False,
     ip_allowlist = [], ip_allowlist_json = None, authorizer_active = False, authorizer_sql = None \<rparr>"

definition sample_pton :: "string \<Rightarrow> bytes option" where
  "sample_pton h = (if h = ''10.0.0.0'' then Some [10, 0, 0, 0] else None)"

definition sample_listed :: admission_state where
  "sample_listed = snd (ducknng_service_set_ip_allowlist (\<lambda>_. True) sample_pton (\<lambda>_. None) sample_svc
     (Some ''[\"10.0.0.0/8\"]''))"

lemma sample_listed_eq:
  "sample_listed = sample_svc\<lparr>ip_allowlist_active := True, ip_allowlist_json := Some ''[\"10.0.0.0/8\"]'',
     ip_allowlist := [\<lparr> rule_family = NNG_AF_INET, rule_addr = [10,0,0,0,0,0,0,0,0,0,0,0,0,0,0,0], prefix_bits = 8 \<rparr>]\<rparr>"
  by code_simp


section \<open>Installing an allowlist\<close>

definition plain_quote :: "string \<Rightarrow> string" where
  "plain_quote s = QUOTE # s @ [QUOTE]"

definition list_text :: "string list \<Rightarrow> string" where
  "list_text es = CHR ''['' # commas (map plain_quote es) @ '']''"

text \<open>The rules of a list of entries, or the first error.\<close>

fun rules_of :: "(string \<Rightarrow> bytes option) \<Rightarrow> (string \<Rightarrow> bytes option) \<Rightarrow> string list \<Rightarrow> string + ip_allow_rule list" where
  "rules_of pton4 pton6 [] = Inr []"
| "rules_of pton4 pton6 (e # es) =
     (case ducknng_parse_ip_rule pton4 pton6 e of
        Inl err \<Rightarrow> Inl err
      | Inr r \<Rightarrow> (case rules_of pton4 pton6 es of Inl err \<Rightarrow> Inl err | Inr rs \<Rightarrow> Inr (r # rs)))"

lemma ascii_string_loop_plain:
  assumes "\<forall>n. mem n"
  shows "list_all plain_char s \<Longrightarrow> ascii_string_loop mem out cap (s @ QUOTE # rest) = Inr (out @ s, rest)"
proof (induction s arbitrary: out cap)
  case (Cons c s)
  have "store_char mem out cap c = Some (out @ [c], if length out + 2 > cap then cap * 2 else cap)"
    using assms by (simp add: store_char_def)
  with Cons show ?case by (simp add: plain_char_def)
qed simp

lemma parse_ascii_plain:
  assumes "\<forall>n. mem n" "list_all plain_char s"
  shows "ducknng_json_parse_ascii_string mem (ducknng_json_skip_ws (plain_quote s @ rest)) = Inr (s, rest)"
proof -
  have "mem 32" using assms(1) by blast
  then show ?thesis
    using ascii_string_loop_plain [OF assms, of "[]" 32 rest]
    by (simp add: ducknng_json_parse_ascii_string_def plain_quote_def ducknng_json_skip_ws_def json_ws_def)
qed

lemma ip_list_loop_plain:
  assumes "\<forall>n. mem n"
  shows "es \<noteq> [] \<Longrightarrow> list_all (list_all plain_char) es \<Longrightarrow>
    ip_list_loop mem pton4 pton6 rules cap (commas (map plain_quote es) @ CHR '']'' # rest) =
      (case rules_of pton4 pton6 es of Inl err \<Rightarrow> Inl err | Inr rs \<Rightarrow> Inr (rules @ rs, rest))"
proof (induction es arbitrary: rules cap)
  case (Cons e es)
  define t where "t = (if es = [] then CHR '']'' # rest else CHR '','' # commas (map plain_quote es) @ CHR '']'' # rest)"
  have text_eq: "commas (map plain_quote (e # es)) @ CHR '']'' # rest = plain_quote e @ t"
    by (cases es) (simp_all add: t_def)
  have item: "ducknng_json_parse_ascii_string mem (ducknng_json_skip_ws (plain_quote e @ t)) = Inr (e, t)"
    using Cons.prems(2) by (intro parse_ascii_plain assms) simp
  have ws: "ducknng_json_skip_ws t = t" by (simp add: t_def ducknng_json_skip_ws_def json_ws_def)
  show ?case
  proof (cases "ducknng_parse_ip_rule pton4 pton6 e")
    case (Inl err)
    then show ?thesis unfolding text_eq ip_list_loop.simps [of mem pton4 pton6 rules cap] item by simp
  next
    case (Inr r)
    let ?cap = "if length rules = cap then (if cap \<noteq> 0 then cap * 2 else 4) else cap"
    have "ip_list_loop mem pton4 pton6 rules cap (plain_quote e @ t) =
        (if es = [] then Inr (rules @ [r], rest)
         else ip_list_loop mem pton4 pton6 (rules @ [r]) ?cap (commas (map plain_quote es) @ CHR '']'' # rest))"
      unfolding ip_list_loop.simps [of mem pton4 pton6 rules cap] item sum.case prod.case Inr ws Let_def
      using assms by (simp add: t_def)
    with Cons Inr show ?thesis unfolding text_eq by (cases "es = []") (auto split: sum.split)
  qed
qed simp



section \<open>Copying TLS options\<close>

text \<open>A parse that succeeds does not depend on the allocator.\<close>

lemma store_char_mono: "store_char mem out cap ch = Some r \<Longrightarrow> store_char (\<lambda>_. True) out cap ch = Some r"
  by (auto simp: store_char_def split: if_splits)

lemma peer_string_loop_mono:
  "peer_string_loop mem out cap s = Inr r \<Longrightarrow> peer_string_loop (\<lambda>_. True) out cap s = Inr r"
proof (induction "length s" arbitrary: out cap s rule: less_induct)
  case less
  show ?case
  proof (cases s)
    case Nil
    then show ?thesis using less.prems by (simp add: peer_string_loop.simps)
  next
    case (Cons ch t)
    show ?thesis
    proof (cases "ch = QUOTE")
      case True
      then show ?thesis using less.prems by (simp add: Cons peer_string_loop.simps)
    next
      case False
      then obtain c u out' cap' where u: "store_char mem out cap c = Some (out', cap')" "peer_string_loop mem out' cap' u = Inr r"
        and c: "if ch = BACKSLASH then t \<noteq> [] \<and> peer_escape t = Some (c, u) else \<not> code ch < 0x20 \<and> c = ch \<and> u = t"
        using less.prems unfolding Cons peer_string_loop.simps(2) by (auto split: if_splits option.splits)
      have "length u < length s" using c peer_escape_length [of t c u] Cons by (auto split: if_splits)
      then have "peer_string_loop (\<lambda>_. True) out' cap' u = Inr r" using u(2) by (rule less.hyps)
      with False c show ?thesis
        unfolding Cons peer_string_loop.simps(2) using store_char_mono [OF u(1)] by (auto split: if_splits)
    qed
  qed
qed

lemma parse_peer_string_mono:
  "ducknng_json_parse_string mem p = Inr r \<Longrightarrow> ducknng_json_parse_string (\<lambda>_. True) p = Inr r"
  by (auto simp: ducknng_json_parse_string_def dest: peer_string_loop_mono split: list.splits if_splits)

lemma peer_list_loop_mono:
  "peer_list_loop mem items cap p = Inr r \<Longrightarrow> peer_list_loop (\<lambda>_. True) items cap p = Inr r"
proof (induction "length p" arbitrary: items cap p rule: less_induct)
  case less
  let ?cap = "if length items = cap then (if cap \<noteq> 0 then cap * 2 else 4) else cap"
  obtain item p1 c p2 where
      s: "ducknng_json_parse_string mem (ducknng_json_skip_ws p) = Inr (item, p1)" "item \<noteq> []"
        "ducknng_json_skip_ws p1 = c # p2"
      and cont: "if c = CHR '','' then peer_list_loop mem (items @ [item]) ?cap p2 = Inr r
        else c = CHR '']'' \<and> r = (items @ [item], p2)"
    using less.prems unfolding peer_list_loop.simps [of mem items cap p]
    by (auto simp: Let_def split: sum.splits prod.splits list.splits if_splits)
  note s' = parse_peer_string_mono [OF s(1)]
  show ?case
  proof (cases "c = CHR '',''")
    case True
    with cont have "peer_list_loop mem (items @ [item]) ?cap p2 = Inr r" by simp
    then have "peer_list_loop (\<lambda>_. True) (items @ [item]) ?cap p2 = Inr r"
      by (rule less.hyps [OF list_item_shorter(2) [OF s(1,3)]])
    then show ?thesis
      using s(2) True unfolding peer_list_loop.simps [of "\<lambda>_. True" items cap p] s' sum.case prod.case s(3) Let_def by simp
  next
    case False
    with cont s(2) show ?thesis
      unfolding peer_list_loop.simps [of "\<lambda>_. True" items cap p] s' sum.case prod.case s(3) Let_def by simp
  qed
qed

lemma peer_allowlist_parse_mono:
  assumes "ducknng_peer_allowlist_parse mem j = Inr r"
  shows "ducknng_peer_allowlist_parse (\<lambda>_. True) j = Inr r"
proof -
  obtain p where p: "ducknng_json_skip_ws (deref j) = CHR ''['' # p"
    using assms by (auto simp: ducknng_peer_allowlist_parse_def split: list.splits if_splits)
  define q where "q = ducknng_json_skip_ws p"
  show ?thesis
  proof (cases "q \<noteq> [] \<and> hd q = CHR '']''")
    case True
    with assms p show ?thesis
      unfolding ducknng_peer_allowlist_parse_def p list.case q_def [symmetric] Let_def by (simp split: if_splits)
  next
    case False
    then obtain x where x: "peer_list_loop mem [] 0 q = Inr x"
      using assms unfolding ducknng_peer_allowlist_parse_def p list.case q_def [symmetric] Let_def
      by (auto split: if_splits sum.splits)
    note x' = peer_list_loop_mono [OF x]
    from False assms show ?thesis
      unfolding ducknng_peer_allowlist_parse_def p list.case q_def [symmetric] Let_def x x' sum.case
      by (cases x) (auto split: if_splits)
  qed
qed

lemma peer_allowlist_parse_text: "ducknng_peer_allowlist_parse mem j = Inr (items, t) \<Longrightarrow> t = deref j"
  by (auto simp: ducknng_peer_allowlist_parse_def Let_def split: list.splits if_splits sum.splits)

definition opts_inv :: "tls_opts \<Rightarrow> bool" where
  "opts_inv opts \<longleftrightarrow>
     (if peer_allowlist_active opts
      then nonempty (peer_allowlist_json opts) \<and>
        ducknng_peer_allowlist_parse (\<lambda>_. True) (peer_allowlist_json opts) =
          Inr (peer_allowlist opts, deref (peer_allowlist_json opts))
      else peer_allowlist opts = [] \<and> peer_allowlist_json opts = None)"

definition opts_init :: "tls_opts \<Rightarrow> bool" where
  "opts_init opts \<longleftrightarrow> \<not> peer_allowlist_active opts \<and> peer_allowlist opts = [] \<and> peer_allowlist_json opts = None"

inductive opts_step :: "tls_opts \<Rightarrow> tls_opts \<Rightarrow> bool" where
  step_allowlist: "opts_step opts (snd (ducknng_tls_opts_set_peer_allowlist mem opts json))"

interpretation options: machine opts_init opts_step opts_inv
proof unfold_locales
  fix s t :: tls_opts
  assume inv: "opts_inv s" and "opts_step s t"
  from this(2) show "opts_inv t"
  proof cases
    case (step_allowlist mem json)
    show ?thesis
    proof (cases "nonempty json")
      case False
      then show ?thesis
        by (simp add: step_allowlist ducknng_tls_opts_set_peer_allowlist_def ducknng_tls_opts_clear_peer_allowlist_def opts_inv_def)
    next
      case True
      then obtain j where j: "json = Some j" "j \<noteq> []" by (cases json) auto
      show ?thesis
      proof (cases "ducknng_peer_allowlist_parse mem json")
        case (Inl err)
        with True inv show ?thesis by (simp add: step_allowlist ducknng_tls_opts_set_peer_allowlist_def)
      next
        case (Inr r)
        obtain items copy where r: "r = (items, copy)" by (cases r)
        have "copy = j" using peer_allowlist_parse_text Inr r j(1) by fastforce
        then show ?thesis
          using Inr r j peer_allowlist_parse_mono [OF Inr]
          by (simp add: step_allowlist ducknng_tls_opts_set_peer_allowlist_def opts_inv_def)
      qed
    qed
  qed
qed (simp add: opts_init_def opts_inv_def)

text \<open>
  Copying TLS options is faithful or fails cleanly: the copy of any options a configuration can have equals the
  original in every field, the peer allowlist included although it is parsed again from its
  text, or, when memory runs out, nothing of the original is left in the destination.
\<close>

theorem tls_copy_exact:
  assumes "reachable opts_init opts_step src"
  shows "case ducknng_tls_opts_copy ok mem (Some src) of
      (True, dst) \<Rightarrow> dst = src | (False, dst) \<Rightarrow> dst = ducknng_tls_opts_init"
proof -
  have inv: "opts_inv src" using assms by (rule options.reachable_inv)
  note lost = dup_lost [of _ ok]
  show ?thesis
  proof (cases "dup ok 0 (cert_key_file src) = cert_key_file src \<and> dup ok 1 (ca_file src) = ca_file src \<and>
      dup ok 2 (cert_pem src) = cert_pem src \<and> dup ok 3 (key_pem src) = key_pem src \<and>
      dup ok 4 (ca_pem src) = ca_pem src \<and> dup ok 5 (tls_password src) = tls_password src")
    case False
    then show ?thesis
      by (simp add: ducknng_tls_opts_copy_def Let_def ducknng_tls_opts_reset_def lost del: not_None_eq)
  next
    case True
    define dst where "dst = src\<lparr>peer_allowlist_active := False, peer_allowlist := [], peer_allowlist_json := None\<rparr>"
    have dst: "dst = \<lparr> opts_enabled = opts_enabled src, cert_key_file = cert_key_file src, ca_file = ca_file src,
        cert_pem = cert_pem src, key_pem = key_pem src, ca_pem = ca_pem src, tls_password = tls_password src,
        auth_mode = auth_mode src, peer_allowlist_active = False, peer_allowlist = [], peer_allowlist_json = None \<rparr>"
      unfolding dst_def by (cases src) simp
    have copy: "ducknng_tls_opts_copy ok mem (Some src) =
      (if peer_allowlist_active src
       then (case ducknng_tls_opts_set_peer_allowlist mem dst
               (case peer_allowlist_json src of None \<Rightarrow> Some ''[]'' | Some j \<Rightarrow> Some j) of
               (Some err, dst) \<Rightarrow> (False, ducknng_tls_opts_reset dst)
             | (None, dst) \<Rightarrow> (True, dst))
       else (True, dst))"
      using True unfolding ducknng_tls_opts_copy_def option.case Let_def dst
      by (simp add: lost ducknng_tls_opts_init_def del: not_None_eq)
    show ?thesis
    proof (cases "peer_allowlist_active src")
      case False
      with inv have "dst = src" by (cases src) (simp add: opts_inv_def dst_def)
      with False copy show ?thesis by simp
    next
      case True
      then obtain j where j: "peer_allowlist_json src = Some j" "j \<noteq> []"
        "ducknng_peer_allowlist_parse (\<lambda>_. True) (Some j) = Inr (peer_allowlist src, j)"
        using inv by (cases "peer_allowlist_json src") (auto simp: opts_inv_def)
      show ?thesis
      proof (cases "ducknng_peer_allowlist_parse mem (Some j)")
        case (Inl err)
        with copy True j show ?thesis
          by (simp add: ducknng_tls_opts_reset_def ducknng_tls_opts_set_peer_allowlist_def)
      next
        case (Inr r)
        then have r: "r = (peer_allowlist src, j)" using peer_allowlist_parse_mono [OF Inr] j(3) by simp
        have "dst\<lparr>peer_allowlist_active := True, peer_allowlist := peer_allowlist src, peer_allowlist_json := Some j\<rparr> = src"
          using True j(1) by (cases src) (simp add: dst_def)
        with copy True j Inr r show ?thesis
          by (simp add: ducknng_tls_opts_set_peer_allowlist_def ducknng_tls_opts_clear_peer_allowlist_def)
      qed
    qed
  qed
qed

theorem tls_copy_exact_witness:
  "fst (ducknng_tls_opts_set_peer_allowlist (\<lambda>_. True) ducknng_tls_opts_init (Some ''[\"a\"]'')) = None \<and>
   ducknng_tls_opts_copy (\<lambda>_. True) (\<lambda>_. True)
     (Some (snd (ducknng_tls_opts_set_peer_allowlist (\<lambda>_. True) ducknng_tls_opts_init (Some ''[\"a\"]'')))) =
     (True, snd (ducknng_tls_opts_set_peer_allowlist (\<lambda>_. True) ducknng_tls_opts_init (Some ''[\"a\"]'')))"
proof -
  let ?o = "snd (ducknng_tls_opts_set_peer_allowlist (\<lambda>_. True) ducknng_tls_opts_init (Some ''[\"a\"]''))"
  have "reachable opts_init opts_step ducknng_tls_opts_init"
    by (rule reach_init) (simp add: opts_init_def ducknng_tls_opts_init_def)
  then have r: "reachable opts_init opts_step ?o" by (rule reach_step) (rule step_allowlist)
  have f: "fst (ducknng_tls_opts_set_peer_allowlist (\<lambda>_. True) ducknng_tls_opts_init (Some ''[\"a\"]'')) = None"
    "fst (ducknng_tls_opts_copy (\<lambda>_. True) (\<lambda>_. True) (Some ?o)) = True"
    by code_simp+
  with tls_copy_exact [OF r, of "\<lambda>_. True" "\<lambda>_. True"] show ?thesis
    by (cases "ducknng_tls_opts_copy (\<lambda>_. True) (\<lambda>_. True) (Some ?o)") simp
qed

end
