(* ===== verification/PipeMonitor.thy ===== *)
theory PipeMonitor
  imports Admission
begin

text \<open>
  The pipe monitor of a service (\<open>ducknng_service.c\<close>): the ring buffer of connection events, the table of active
  pipes, the callback NNG runs for each pipe event, and the snapshots that SQL reads.

  The ring is a list of \<open>pipe_event_cap\<close> slots, empty before its first use. \<open>ntop\<close> stands for \<open>inet_ntop\<close>, ports are in
  host order, \<open>now\<close> is the clock, and \<open>ok i\<close> tells whether the \<open>i\<close>-th allocation of a call succeeds.
\<close>

record pipe_event =
  ev_seq :: u64
  ev_ts_ms :: u64
  ev_pipe_id :: u64
  ev_event :: cstring
  ev_admitted :: int
  ev_reason :: cstring
  ev_remote_addr :: cstring
  ev_remote_ip :: cstring
  ev_remote_port :: int
  ev_peer_identity :: cstring

record pipe_state =
  ps_pipe_id :: u64
  ps_opened_ms :: u64
  ps_remote_addr :: cstring
  ps_remote_ip :: cstring
  ps_remote_port :: int
  ps_peer_identity :: cstring

record monitor =
  pipe_events :: "pipe_event list"
  pipe_event_start :: nat
  pipe_event_count :: nat
  pipe_event_cap :: nat
  pipe_event_dropped :: u64
  next_pipe_event_seq :: u64
  pipe_states :: "pipe_state list"
  pipe_state_cap :: nat
  max_active_pipes :: u64

record monitor_stats =
  event_capacity :: u64
  event_count :: u64
  oldest_seq :: u64
  newest_seq :: u64
  dropped_events :: u64
  active_pipes :: u64
  stats_max_active_pipes :: u64

datatype pipe_ev = EV_ADD_PRE | EV_ADD_POST | EV_REM_POST | EV_OTHER

section \<open>Addresses as text\<close>

text \<open>The address, the address without its port, and the port.\<close>

definition ducknng_sockaddr_addr_dup ::
  "(sockaddr \<Rightarrow> string option) \<Rightarrow> (nat \<Rightarrow> bool) \<Rightarrow> nat \<Rightarrow> sockaddr option \<Rightarrow> cstring \<times> cstring \<times> int" where
  "ducknng_sockaddr_addr_dup ntop ok i addr =
     (case addr of
        None \<Rightarrow> (None, None, 0)
      | Some (Inet a port) \<Rightarrow>
          (case ntop (Inet a port) of
             None \<Rightarrow> (None, None, 0)
           | Some ip \<Rightarrow> (dup ok (i + 1) (Some (ip @ CHR '':'' # fmt_d (int port))), dup ok i (Some ip), int port))
      | Some (Inet6 a port) \<Rightarrow>
          (case ntop (Inet6 a port) of
             None \<Rightarrow> (None, None, 0)
           | Some ip \<Rightarrow> (dup ok (i + 1) (Some (CHR ''['' # ip @ '']:'' @ fmt_d (int port))), dup ok i (Some ip), int port))
      | Some (Ipc path) \<Rightarrow> (dup ok i (Some path), None, 0)
      | Some (Inproc name) \<Rightarrow> (dup ok i (Some name), None, 0)
      | Some (OtherFamily f) \<Rightarrow> (dup ok i (Some (''nng-family:'' @ fmt_u f)), None, 0))"

definition blank_event :: pipe_event where
  "blank_event = \<lparr> ev_seq = 0, ev_ts_ms = 0, ev_pipe_id = 0, ev_event = None, ev_admitted = 0, ev_reason = None,
     ev_remote_addr = None, ev_remote_ip = None, ev_remote_port = 0, ev_peer_identity = None \<rparr>"

definition ducknng_pipe_event_reset :: "pipe_event \<Rightarrow> pipe_event" where
  "ducknng_pipe_event_reset e = blank_event"

section \<open>Active pipes\<close>

definition ducknng_service_pipe_state_find_locked :: "monitor \<Rightarrow> u64 \<Rightarrow> nat option" where
  "ducknng_service_pipe_state_find_locked m pipe_id =
     (if pipe_id = 0 then None else find_idx (\<lambda>s. ps_pipe_id s = pipe_id) (pipe_states m))"

text \<open>Allocations: 4 the table, 5 and 6 the address, 7 the identity.\<close>

definition new_pipe_state ::
  "(sockaddr \<Rightarrow> string option) \<Rightarrow> (nat \<Rightarrow> bool) \<Rightarrow> u64 \<Rightarrow> u64 \<Rightarrow> sockaddr option \<Rightarrow> cstring \<Rightarrow> pipe_state" where
  "new_pipe_state ntop ok now pipe_id remote_addr identity =
     (let (addr, ip, port) = ducknng_sockaddr_addr_dup ntop ok 5 remote_addr
      in \<lparr> ps_pipe_id = pipe_id, ps_opened_ms = now, ps_remote_addr = addr, ps_remote_ip = ip, ps_remote_port = port,
           ps_peer_identity = (if nonempty identity then dup ok 7 identity else None) \<rparr>)"

definition ducknng_service_pipe_state_add_locked ::
  "(sockaddr \<Rightarrow> string option) \<Rightarrow> (nat \<Rightarrow> bool) \<Rightarrow> u64 \<Rightarrow> monitor \<Rightarrow> u64 \<Rightarrow> sockaddr option \<Rightarrow> cstring \<Rightarrow> monitor" where
  "ducknng_service_pipe_state_add_locked ntop ok now m pipe_id remote_addr identity =
     (if pipe_id = 0 then m
      else let state = new_pipe_state ntop ok now pipe_id remote_addr identity
      in case ducknng_service_pipe_state_find_locked m pipe_id of
           Some i \<Rightarrow> m\<lparr>pipe_states := (pipe_states m)[i := state]\<rparr>
         | None \<Rightarrow>
             if length (pipe_states m) = pipe_state_cap m then
               (if \<not> ok 4 then m
                else m\<lparr>pipe_states := pipe_states m @ [state],
                       pipe_state_cap := (if pipe_state_cap m \<noteq> 0 then pipe_state_cap m * 2 else 16)\<rparr>)
             else m\<lparr>pipe_states := pipe_states m @ [state]\<rparr>)"

definition ducknng_service_pipe_state_remove_locked :: "monitor \<Rightarrow> u64 \<Rightarrow> monitor" where
  "ducknng_service_pipe_state_remove_locked m pipe_id =
     (case ducknng_service_pipe_state_find_locked m pipe_id of
        None \<Rightarrow> m
      | Some i \<Rightarrow> m\<lparr>pipe_states := remove_nth i (pipe_states m)\<rparr>)"

definition ducknng_service_clear_pipe_states :: "monitor \<Rightarrow> monitor" where
  "ducknng_service_clear_pipe_states m = m\<lparr>pipe_states := [], pipe_state_cap := 0\<rparr>"

section \<open>The event ring\<close>

definition ducknng_service_clear_pipe_events :: "monitor \<Rightarrow> monitor" where
  "ducknng_service_clear_pipe_events m =
     m\<lparr>pipe_events := [], pipe_event_start := 0, pipe_event_count := 0, pipe_event_cap := 0, pipe_event_dropped := 0\<rparr>"

text \<open>Allocations: 0 the name, 1 the reason, 2 the identity, 3 the ring, 8 and 9 the address.\<close>

definition new_event ::
  "(sockaddr \<Rightarrow> string option) \<Rightarrow> (nat \<Rightarrow> bool) \<Rightarrow> u64 \<Rightarrow> u64 \<Rightarrow> string \<Rightarrow> sockaddr option \<Rightarrow> cstring \<Rightarrow> int \<Rightarrow> cstring \<Rightarrow>
   pipe_event" where
  "new_event ntop ok now pipe_id event_name remote_addr identity admitted reason =
     (let (addr, ip, port) = ducknng_sockaddr_addr_dup ntop ok 8 remote_addr
      in \<lparr> ev_seq = 0, ev_ts_ms = now, ev_pipe_id = pipe_id, ev_event = dup ok 0 (Some event_name),
           ev_admitted = admitted, ev_reason = (if nonempty reason then dup ok 1 reason else None),
           ev_remote_addr = addr, ev_remote_ip = ip, ev_remote_port = port,
           ev_peer_identity = (if nonempty identity then dup ok 2 identity else None) \<rparr>)"

definition ring_store :: "monitor \<Rightarrow> monitor \<times> nat" where
  "ring_store m =
     (if pipe_event_count m < pipe_event_cap m
      then (m\<lparr>pipe_event_count := pipe_event_count m + 1\<rparr>,
            (pipe_event_start m + pipe_event_count m) mod pipe_event_cap m)
      else (m\<lparr>pipe_events := (pipe_events m)[pipe_event_start m := blank_event],
              pipe_event_start := (pipe_event_start m + 1) mod pipe_event_cap m,
              pipe_event_dropped := pipe_event_dropped m + 1\<rparr>, pipe_event_start m))"

definition ducknng_service_pipe_event_append ::
  "(sockaddr \<Rightarrow> string option) \<Rightarrow> (nat \<Rightarrow> bool) \<Rightarrow> u64 \<Rightarrow> monitor \<Rightarrow> u64 \<Rightarrow> cstring \<Rightarrow> sockaddr option \<Rightarrow> cstring \<Rightarrow> int \<Rightarrow> cstring \<Rightarrow>
   monitor" where
  "ducknng_service_pipe_event_append ntop ok now m pipe_id event_name remote_addr identity admitted reason =
     (case event_name of
        None \<Rightarrow> m
      | Some name \<Rightarrow>
          let event = new_event ntop ok now pipe_id name remote_addr identity admitted reason
          in if ev_event event = None \<or> nonempty reason \<and> ev_reason event = None \<or>
                nonempty identity \<and> ev_peer_identity event = None then m
             else if pipe_events m = [] \<and> \<not> ok 3 then m\<lparr>pipe_event_cap := 0\<rparr>
             else
               let m = (if pipe_events m = []
                        then m\<lparr>pipe_events := replicate 1024 blank_event, pipe_event_cap := 1024\<rparr> else m);
                   (m, idx) = ring_store m;
                   m = (if name = ''add_post''
                        then ducknng_service_pipe_state_add_locked ntop ok now m pipe_id remote_addr identity else m);
                   m = (if name = ''rem_post'' then ducknng_service_pipe_state_remove_locked m pipe_id else m);
                   seq = next_pipe_event_seq m + 1
               in m\<lparr>next_pipe_event_seq := seq, pipe_events := (pipe_events m)[idx := event\<lparr>ev_seq := seq\<rparr>]\<rparr>)"

section \<open>Reading the monitor\<close>

definition ducknng_service_pipe_monitor_stats :: "monitor \<Rightarrow> monitor_stats" where
  "ducknng_service_pipe_monitor_stats m =
     (let have = pipe_event_count m > 0 \<and> pipe_events m \<noteq> [] \<and> pipe_event_cap m > 0
      in \<lparr> event_capacity = of_nat (pipe_event_cap m), event_count = of_nat (pipe_event_count m),
           oldest_seq = (if have then ev_seq (pipe_events m ! pipe_event_start m) else 0),
           newest_seq = (if have then ev_seq (pipe_events m !
             ((pipe_event_start m + pipe_event_count m - 1) mod pipe_event_cap m)) else 0),
           dropped_events = pipe_event_dropped m, active_pipes = of_nat (length (pipe_states m)),
           stats_max_active_pipes = max_active_pipes m \<rparr>)"

text \<open>
  \<open>rows_ok cap\<close>: an array of \<open>cap\<close> rows can be allocated; \<open>copy_ok i\<close>: the strings of the ring's \<open>i\<close>-th event can be copied.
\<close>

fun events_snapshot_loop ::
  "(nat \<Rightarrow> bool) \<Rightarrow> (nat \<Rightarrow> bool) \<Rightarrow> monitor \<Rightarrow> u64 \<Rightarrow> u64 \<Rightarrow> nat list \<Rightarrow> pipe_event list \<Rightarrow> nat \<Rightarrow> string + pipe_event list" where
  "events_snapshot_loop rows_ok copy_ok m after_seq max_events [] rows cap = Inr rows"
| "events_snapshot_loop rows_ok copy_ok m after_seq max_events (i # is) rows cap =
     (let src = pipe_events m ! ((pipe_event_start m + i) mod pipe_event_cap m);
          new_cap = (if length rows = cap then double_until (if cap \<noteq> 0 then cap * 2 else 16) (length rows + 1) else cap)
      in if ev_seq src \<le> after_seq then events_snapshot_loop rows_ok copy_ok m after_seq max_events is rows cap
         else if max_events > 0 \<and> length rows \<ge> unat max_events then Inr rows
         else if length rows = cap \<and> \<not> rows_ok new_cap then Inl ''ducknng: out of memory copying pipe monitor events''
         else if \<not> copy_ok i then Inl ''ducknng: out of memory copying pipe monitor event''
         else events_snapshot_loop rows_ok copy_ok m after_seq max_events is (rows @ [src]) new_cap)"

definition ducknng_service_pipe_events_snapshot ::
  "(nat \<Rightarrow> bool) \<Rightarrow> (nat \<Rightarrow> bool) \<Rightarrow> monitor option \<Rightarrow> u64 \<Rightarrow> u64 \<Rightarrow> string + pipe_event list" where
  "ducknng_service_pipe_events_snapshot rows_ok copy_ok m after_seq max_events =
     (case m of
        None \<Rightarrow> Inl ''ducknng: service not found''
      | Some m \<Rightarrow> events_snapshot_loop rows_ok copy_ok m after_seq max_events [0..<pipe_event_count m] [] 0)"

definition ducknng_service_pipe_states_snapshot ::
  "(nat \<Rightarrow> bool) \<Rightarrow> (nat \<Rightarrow> bool) \<Rightarrow> monitor option \<Rightarrow> string + pipe_state list" where
  "ducknng_service_pipe_states_snapshot rows_ok copy_ok m =
     (case m of
        None \<Rightarrow> Inl ''ducknng: service not found''
      | Some m \<Rightarrow>
          if pipe_states m = [] then Inr []
          else if \<not> rows_ok (length (pipe_states m)) then Inl ''ducknng: out of memory copying active pipe states''
          else if \<not> list_all copy_ok [0..<length (pipe_states m)]
          then Inl ''ducknng: out of memory copying active pipe state''
          else Inr (pipe_states m))"

section \<open>The pipe callback\<close>

fun ducknng_pipe_event_name :: "pipe_ev \<Rightarrow> string" where
  "ducknng_pipe_event_name EV_ADD_PRE = ''add_pre''"
| "ducknng_pipe_event_name EV_ADD_POST = ''add_post''"
| "ducknng_pipe_event_name EV_REM_POST = ''rem_post''"
| "ducknng_pipe_event_name EV_OTHER = ''unknown''"

text \<open>The new monitor, and whether the callback closes the pipe.\<close>

definition ducknng_service_pipe_event_cb ::
  "(sockaddr \<Rightarrow> string option) \<Rightarrow> (nat \<Rightarrow> bool) \<Rightarrow> u64 \<Rightarrow> admission_state \<Rightarrow> monitor \<Rightarrow> u64 \<Rightarrow> pipe_ev \<Rightarrow> cstring \<Rightarrow> sockaddr option \<Rightarrow>
   monitor \<times> bool" where
  "ducknng_service_pipe_event_cb ntop ok now svc m pipe_id ev identity remote_addr =
     (let admission_err = (if ev = EV_ADD_PRE
            then ducknng_service_network_admission_check (Some svc) identity remote_addr else None);
          full = (ev = EV_ADD_PRE \<and> admission_err = None \<and> max_active_pipes m > 0 \<and>
            length (pipe_states m) \<ge> unat (max_active_pipes m));
          reason = (if full then Some ''ducknng: max active pipes exceeded'' else admission_err);
          allowed = (if ev = EV_ADD_PRE then (if admission_err = None \<and> \<not> full then 1 else 0) else - 1)
      in (ducknng_service_pipe_event_append ntop ok now m pipe_id (Some (ducknng_pipe_event_name ev)) remote_addr identity
            allowed reason,
          ev = EV_ADD_PRE \<and> allowed = 0))"

section \<open>The ring holds the latest events\<close>

definition ring_log :: "monitor \<Rightarrow> pipe_event list" where
  "ring_log m = map (\<lambda>i. pipe_events m ! ((pipe_event_start m + i) mod pipe_event_cap m)) [0..<pipe_event_count m]"

definition events_recorded ::
  "(nat \<Rightarrow> bool) \<Rightarrow> monitor \<Rightarrow> cstring \<Rightarrow> cstring \<Rightarrow> bool" where
  "events_recorded ok m identity reason \<longleftrightarrow>
     ok 0 \<and> (nonempty reason \<longrightarrow> ok 1) \<and> (nonempty identity \<longrightarrow> ok 2) \<and> (pipe_events m = [] \<longrightarrow> ok 3)"

text \<open>
  The life of a monitor whose calls all have allocators in \<open>P\<close>, with the list of every event recorded so far.
\<close>

inductive monitor_run :: "((nat \<Rightarrow> bool) \<Rightarrow> bool) \<Rightarrow> pipe_event list \<Rightarrow> monitor \<Rightarrow> bool" for P where
  run_init: "pipe_events m = [] \<Longrightarrow> pipe_event_start m = 0 \<Longrightarrow> pipe_event_count m = 0 \<Longrightarrow> pipe_event_cap m = 0 \<Longrightarrow>
    pipe_event_dropped m = 0 \<Longrightarrow> next_pipe_event_seq m = 0 \<Longrightarrow> pipe_states m = [] \<Longrightarrow> pipe_state_cap m = 0 \<Longrightarrow> monitor_run P [] m"
| run_record: "monitor_run P hs m \<Longrightarrow> P ok \<Longrightarrow> events_recorded ok m identity reason \<Longrightarrow>
    monitor_run P
      (hs @ [(new_event ntop ok now pipe_id name remote_addr identity admitted reason)\<lparr>ev_seq := of_nat (length hs + 1)\<rparr>])
      (ducknng_service_pipe_event_append ntop ok now m pipe_id (Some name) remote_addr identity admitted reason)"
| run_lost: "monitor_run P hs m \<Longrightarrow> P ok \<Longrightarrow> \<not> events_recorded ok m identity reason \<Longrightarrow>
    monitor_run P hs (ducknng_service_pipe_event_append ntop ok now m pipe_id (Some name) remote_addr identity admitted reason)"

definition ring_inv :: "pipe_event list \<Rightarrow> monitor \<Rightarrow> bool" where
  "ring_inv hs m \<longleftrightarrow>
     next_pipe_event_seq m = of_nat (length hs) \<and> pipe_event_dropped m = of_nat (length hs - 1024) \<and>
     pipe_event_count m = min (length hs) 1024 \<and> (length hs \<le> 1024 \<longrightarrow> pipe_event_start m = 0) \<and>
     ring_log m = drop (length hs - 1024) hs \<and>
     (if pipe_events m = [] then hs = [] \<and> pipe_event_cap m = 0
      else length (pipe_events m) = 1024 \<and> pipe_event_cap m = 1024 \<and> pipe_event_start m < 1024)"

lemma pipe_state_ops_ring [simp]:
  "pipe_events (ducknng_service_pipe_state_add_locked ntop ok now m pid addr ident) = pipe_events m"
  "pipe_event_start (ducknng_service_pipe_state_add_locked ntop ok now m pid addr ident) = pipe_event_start m"
  "pipe_event_count (ducknng_service_pipe_state_add_locked ntop ok now m pid addr ident) = pipe_event_count m"
  "pipe_event_cap (ducknng_service_pipe_state_add_locked ntop ok now m pid addr ident) = pipe_event_cap m"
  "pipe_event_dropped (ducknng_service_pipe_state_add_locked ntop ok now m pid addr ident) = pipe_event_dropped m"
  "next_pipe_event_seq (ducknng_service_pipe_state_add_locked ntop ok now m pid addr ident) = next_pipe_event_seq m"
  "pipe_events (ducknng_service_pipe_state_remove_locked m pid) = pipe_events m"
  "pipe_event_start (ducknng_service_pipe_state_remove_locked m pid) = pipe_event_start m"
  "pipe_event_count (ducknng_service_pipe_state_remove_locked m pid) = pipe_event_count m"
  "pipe_event_cap (ducknng_service_pipe_state_remove_locked m pid) = pipe_event_cap m"
  "pipe_event_dropped (ducknng_service_pipe_state_remove_locked m pid) = pipe_event_dropped m"
  "next_pipe_event_seq (ducknng_service_pipe_state_remove_locked m pid) = next_pipe_event_seq m"
  by (simp_all add: ducknng_service_pipe_state_add_locked_def ducknng_service_pipe_state_remove_locked_def Let_def
    split: option.split)

lemma new_event_complete:
  "ev_event (new_event ntop ok now pid name addr ident adm reason) = None \<or>
    nonempty reason \<and> ev_reason (new_event ntop ok now pid name addr ident adm reason) = None \<or>
    nonempty ident \<and> ev_peer_identity (new_event ntop ok now pid name addr ident adm reason) = None \<longleftrightarrow>
   \<not> (ok 0 \<and> (nonempty reason \<longrightarrow> ok 1) \<and> (nonempty ident \<longrightarrow> ok 2))"
  by (cases reason; cases ident) (auto simp: new_event_def dup_def Let_def split: prod.split)

text \<open>What a recorded event does to the ring and to the table.\<close>

definition ring_ready :: "monitor \<Rightarrow> monitor" where
  "ring_ready m = (if pipe_events m = []
     then m\<lparr>pipe_events := replicate 1024 blank_event, pipe_event_cap := 1024\<rparr> else m)"

lemma append_recorded:
  assumes "events_recorded ok m ident reason"
  shows "ducknng_service_pipe_event_append ntop ok now m pid (Some name) addr ident adm reason =
    (let (m1, idx) = ring_store (ring_ready m);
         m2 = (if name = ''add_post'' then ducknng_service_pipe_state_add_locked ntop ok now m1 pid addr ident else m1);
         m3 = (if name = ''rem_post'' then ducknng_service_pipe_state_remove_locked m2 pid else m2);
         seq = next_pipe_event_seq m3 + 1
     in m3\<lparr>next_pipe_event_seq := seq,
           pipe_events := (pipe_events m3)[idx := (new_event ntop ok now pid name addr ident adm reason)\<lparr>ev_seq := seq\<rparr>]\<rparr>)"
proof -
  have c: "\<not> (ev_event (new_event ntop ok now pid name addr ident adm reason) = None \<or>
    nonempty reason \<and> ev_reason (new_event ntop ok now pid name addr ident adm reason) = None \<or>
    nonempty ident \<and> ev_peer_identity (new_event ntop ok now pid name addr ident adm reason) = None)"
    and r: "\<not> (pipe_events m = [] \<and> \<not> ok 3)"
    using assms unfolding new_event_complete by (auto simp: events_recorded_def)
  show ?thesis
    unfolding ducknng_service_pipe_event_append_def option.case Let_def ring_ready_def
    by (simp only: c r if_False)
qed

lemma append_not_recorded:
  assumes "\<not> events_recorded ok m ident reason"
  shows "ducknng_service_pipe_event_append ntop ok now m pid (Some name) addr ident adm reason =
    (if pipe_events m = [] \<and> ok 0 \<and> (nonempty reason \<longrightarrow> ok 1) \<and> (nonempty ident \<longrightarrow> ok 2) then m\<lparr>pipe_event_cap := 0\<rparr> else m)"
  using assms unfolding ducknng_service_pipe_event_append_def option.case Let_def new_event_complete
  by (auto simp: events_recorded_def)

lemma ring_inv_record:
  assumes inv: "ring_inv hs m" and rec: "events_recorded ok m ident reason"
  shows "ring_inv (hs @ [(new_event ntop ok now pid name addr ident adm reason)\<lparr>ev_seq := of_nat (length hs + 1)\<rparr>])
    (ducknng_service_pipe_event_append ntop ok now m pid (Some name) addr ident adm reason)"
proof -
  define e where "e = (new_event ntop ok now pid name addr ident adm reason)\<lparr>ev_seq := of_nat (length hs + 1)\<rparr>"
  define r where "r = ring_ready m"
  have r: "length (pipe_events r) = 1024" "pipe_event_cap r = 1024" "pipe_event_start r < 1024"
      "pipe_event_start r = pipe_event_start m" "pipe_event_count r = pipe_event_count m" "pipe_event_dropped r = pipe_event_dropped m"
      "next_pipe_event_seq r = of_nat (length hs)"
    using inv by (auto simp: r_def ring_ready_def ring_inv_def)
  have ne: "pipe_events r \<noteq> []" using r(1) by auto
  have log: "ring_log r = drop (length hs - 1024) hs"
  proof (cases "pipe_events m = []")
    case True
    then show ?thesis using inv by (simp add: r_def ring_ready_def ring_inv_def ring_log_def)
  next
    case False
    then show ?thesis using inv by (simp add: r_def ring_ready_def ring_inv_def)
  qed
  obtain m1 idx where st: "ring_store r = (m1, idx)" by (cases "ring_store r")
  define m' where "m' = ducknng_service_pipe_event_append ntop ok now m pid (Some name) addr ident adm reason"
  have seq: "next_pipe_event_seq m1 = of_nat (length hs)" using st r(7) by (auto simp: ring_store_def split: if_splits)
  have m': "pipe_events m' = (pipe_events m1)[idx := e]" "pipe_event_start m' = pipe_event_start m1"
      "pipe_event_count m' = pipe_event_count m1" "pipe_event_cap m' = pipe_event_cap m1"
      "pipe_event_dropped m' = pipe_event_dropped m1" "next_pipe_event_seq m' = of_nat (length hs + 1)"
    unfolding m'_def append_recorded [OF rec] r_def [symmetric] st prod.case Let_def e_def by (simp_all add: seq add.commute)
  have cnt: "pipe_event_count r = min (length hs) 1024" and start: "length hs \<le> 1024 \<Longrightarrow> pipe_event_start r = 0"
    and drp: "pipe_event_dropped r = of_nat (length hs - 1024)"
    using inv r(4-6) by (simp_all add: ring_inv_def)
  show ?thesis
  proof (cases "length hs < 1024")
    case True
    then have s0: "pipe_event_start r = 0" and c: "pipe_event_count r = length hs" using start cnt by simp_all
    have m1: "m1 = r\<lparr>pipe_event_count := length hs + 1\<rparr>" "idx = length hs"
      using st True s0 c r(2) by (auto simp: ring_store_def)
    have "map (\<lambda>i. pipe_events r ! (i mod 1024)) [0..<length hs] = hs"
      using log True s0 c r(2) by (simp add: ring_log_def)
    moreover have "map (\<lambda>i. (pipe_events r)[length hs := e] ! (i mod 1024)) [0..<length hs] =
        map (\<lambda>i. pipe_events r ! (i mod 1024)) [0..<length hs]"
      using True by (intro map_cong refl) auto
    ultimately have "ring_log m' = hs @ [e]"
      using True r(1,2) s0 by (simp add: ring_log_def m' m1)
    then show ?thesis
      unfolding m'_def [symmetric] e_def [symmetric] using True r s0 drp m' ne
      by (simp add: ring_inv_def m1)
  next
    case False
    then have c: "pipe_event_count r = 1024" using cnt by simp
    have m1: "m1 = r\<lparr>pipe_events := (pipe_events r)[pipe_event_start r := blank_event],
        pipe_event_start := (pipe_event_start r + 1) mod 1024, pipe_event_dropped := pipe_event_dropped r + 1\<rparr>"
        "idx = pipe_event_start r"
      using st c r(2) by (auto simp: ring_store_def)
    have "ring_log m' = tl (ring_log r) @ [e]"
      using ring_shift [OF r(3,1), of e] c r(2) by (simp add: ring_log_def m' m1)
    also have "tl (ring_log r) = drop (length (hs @ [e]) - 1024) hs"
    proof -
      have "Suc (length hs - 1024) = length hs - 1023" using False by simp
      then show ?thesis by (simp add: log drop_Suc [symmetric] tl_drop)
    qed
    finally have "ring_log m' = drop (length (hs @ [e]) - 1024) (hs @ [e])"
      using False by simp
    moreover have "pipe_event_dropped m' = of_nat (length (hs @ [e]) - 1024)"
      using False drp by (simp add: m' m1 Suc_diff_le)
    ultimately show ?thesis
      unfolding m'_def [symmetric] e_def [symmetric] using False r c m' ne
      by (simp add: ring_inv_def m1)
  qed
qed

lemma ring_inv_run: "monitor_run P hs m \<Longrightarrow> ring_inv hs m"
proof (induction rule: monitor_run.induct)
  case (run_init m)
  then show ?case by (simp add: ring_inv_def ring_log_def)
next
  case (run_record hs m ok identity reason ntop now pipe_id name remote_addr admitted)
  then show ?case by (intro ring_inv_record)
next
  case (run_lost hs m ok identity reason ntop now pipe_id name remote_addr admitted)
  then have "ring_inv (hs) (m\<lparr>pipe_event_cap := 0\<rparr>)" if "pipe_events m = []"
    using that by (simp add: ring_inv_def ring_log_def)
  with run_lost show ?case by (simp add: append_not_recorded)
qed

lemma run_sequence: "monitor_run P hs m \<Longrightarrow> map ev_seq hs = map of_nat [1..<length hs + 1]"
  by (induction rule: monitor_run.induct) simp_all

lemma events_snapshot_loop_ok:
  assumes "\<And>n. rows_ok n" "\<And>i. copy_ok i"
  shows "events_snapshot_loop rows_ok copy_ok m after_seq max_events is rows cap =
    (let new = filter (\<lambda>e. after_seq < ev_seq e) (map (\<lambda>i. pipe_events m ! ((pipe_event_start m + i) mod pipe_event_cap m)) is)
     in Inr (rows @ (if max_events > 0 then take (unat max_events - length rows) new else new)))"
proof (induction "is" arbitrary: rows cap)
  case (Cons i "is")
  let ?src = "pipe_events m ! ((pipe_event_start m + i) mod pipe_event_cap m)"
  show ?case
  proof (cases "ev_seq ?src \<le> after_seq")
    case True
    then show ?thesis using Cons.IH by (simp add: not_less [symmetric])
  next
    case False
    then have new: "after_seq < ev_seq ?src" by simp
    show ?thesis
    proof (cases "max_events > 0 \<and> length rows \<ge> unat max_events")
      case True
      then show ?thesis using new False by (simp add: Let_def)
    next
      case full: False
      have "max_events > 0 \<Longrightarrow> unat max_events - length rows = Suc (unat max_events - Suc (length rows))"
        using full by simp
      with full False new assms Cons.IH [of "rows @ [?src]"] show ?thesis
        by (auto simp: Let_def)
    qed
  qed
qed simp

text \<open>
  C25. The event ring never loses track: after any sequence of recorded events the ring holds exactly the latest
  1024 of them in order, events are numbered 1, 2, 3 and so on, the drop counter counts the overwritten ones, and a snapshot
  returns the retained events after the requested sequence number, oldest first, at most as many as asked for.
\<close>

theorem event_ring_exact:
  assumes "monitor_run P hs m" "\<forall>n. rows_ok n" "\<forall>i. copy_ok i"
  shows "ring_log m = drop (length hs - 1024) hs \<and> map ev_seq hs = map of_nat [1..<length hs + 1] \<and>
    pipe_event_dropped m = of_nat (length hs - 1024) \<and>
    ducknng_service_pipe_events_snapshot rows_ok copy_ok (Some m) after_seq max_events =
      Inr (let new = filter (\<lambda>e. after_seq < ev_seq e) (drop (length hs - 1024) hs)
           in if max_events > 0 then take (unat max_events) new else new)"
proof -
  have inv: "ring_inv hs m" using assms(1) by (rule ring_inv_run)
  then have log: "map (\<lambda>i. pipe_events m ! ((pipe_event_start m + i) mod pipe_event_cap m)) [0..<pipe_event_count m] =
      drop (length hs - 1024) hs"
    unfolding ring_inv_def ring_log_def by blast
  have "ducknng_service_pipe_events_snapshot rows_ok copy_ok (Some m) after_seq max_events =
      Inr (let new = filter (\<lambda>e. after_seq < ev_seq e) (drop (length hs - 1024) hs)
           in if max_events > 0 then take (unat max_events) new else new)"
    unfolding ducknng_service_pipe_events_snapshot_def option.case
    by (subst events_snapshot_loop_ok) (use assms(2,3) log in \<open>auto simp: Let_def\<close>)
  with inv run_sequence [OF assms(1)] show ?thesis by (simp add: ring_inv_def)
qed

definition fresh_monitor :: "u64 \<Rightarrow> monitor" where
  "fresh_monitor limit = \<lparr> pipe_events = [], pipe_event_start = 0, pipe_event_count = 0, pipe_event_cap = 0,
     pipe_event_dropped = 0, next_pipe_event_seq = 0, pipe_states = [], pipe_state_cap = 0, max_active_pipes = limit \<rparr>"

lemma fresh_run: "monitor_run P [] (fresh_monitor limit)"
  by (rule run_init) (simp_all add: fresh_monitor_def)

theorem event_ring_exact_witness:
  "\<exists>m e. monitor_run (\<lambda>_. True) [e] m \<and> ev_pipe_id e = 7 \<and>
     ducknng_service_pipe_events_snapshot (\<lambda>_. True) (\<lambda>_. True) (Some m) 0 10 = Inr [e]"
proof -
  let ?e = "(new_event (\<lambda>_. None) (\<lambda>_. True) 5 7 ''add_post'' None None 1 None)\<lparr>ev_seq := of_nat (length ([] :: pipe_event list) + 1)\<rparr>"
  let ?m = "ducknng_service_pipe_event_append (\<lambda>_. None) (\<lambda>_. True) 5 (fresh_monitor 0) 7 (Some ''add_post'') None None 1 None"
  have "monitor_run (\<lambda>_. True) ([] @ [?e]) ?m"
    by (rule run_record [OF fresh_run]) (simp_all add: events_recorded_def)
  then have r: "monitor_run (\<lambda>_. True) [?e] ?m" by simp
  have "ev_pipe_id ?e = 7" "ev_seq ?e = 1"
    by (simp_all add: new_event_def ducknng_sockaddr_addr_dup_def)
  moreover have "ducknng_service_pipe_events_snapshot (\<lambda>_. True) (\<lambda>_. True) (Some ?m) 0 10 = Inr [?e]"
    using event_ring_exact [OF r, of "\<lambda>_. True" "\<lambda>_. True" 0 10] \<open>ev_seq ?e = 1\<close> by (simp add: Let_def)
  ultimately show ?thesis using r by blast
qed

section \<open>The table of active pipes\<close>

text \<open>The pipes that are open after a list of events: added and not removed since.\<close>

definition replay :: "u64 set \<Rightarrow> pipe_event \<Rightarrow> u64 set" where
  "replay A e =
     (if ev_pipe_id e = 0 then A
      else if ev_event e = Some ''add_post'' then insert (ev_pipe_id e) A
      else if ev_event e = Some ''rem_post'' then A - {ev_pipe_id e} else A)"

abbreviation pipe_ids :: "monitor \<Rightarrow> u64 list" where
  "pipe_ids m \<equiv> map ps_pipe_id (pipe_states m)"

lemma new_pipe_state_id [simp]: "ps_pipe_id (new_pipe_state ntop ok now pid addr ident) = pid"
  by (simp add: new_pipe_state_def split: prod.split)

lemma pipe_find_None: "pid \<noteq> 0 \<Longrightarrow> ducknng_service_pipe_state_find_locked m pid = None \<longleftrightarrow> pid \<notin> set (pipe_ids m)"
  by (auto simp: ducknng_service_pipe_state_find_locked_def)

lemma pipe_find_Some:
  assumes "ducknng_service_pipe_state_find_locked m pid = Some i"
  shows "i < length (pipe_states m)" "ps_pipe_id (pipe_states m ! i) = pid" "pid \<noteq> 0"
  using assms find_idx_SomeD [of "\<lambda>s. ps_pipe_id s = pid" "pipe_states m" i]
  by (auto simp: ducknng_service_pipe_state_find_locked_def split: if_splits)

lemma pipe_state_add_ids:
  assumes "distinct (pipe_ids m)" "ok 4" "pid \<noteq> 0"
  shows "distinct (pipe_ids (ducknng_service_pipe_state_add_locked ntop ok now m pid addr ident)) \<and>
    set (pipe_ids (ducknng_service_pipe_state_add_locked ntop ok now m pid addr ident)) = insert pid (set (pipe_ids m))"
proof (cases "ducknng_service_pipe_state_find_locked m pid")
  case None
  then have "pid \<notin> set (pipe_ids m)" using pipe_find_None [OF assms(3), of m] by blast
  with None assms show ?thesis
    by (auto simp: ducknng_service_pipe_state_add_locked_def Let_def)
next
  case (Some i)
  note i = pipe_find_Some [OF Some]
  have "pipe_ids (ducknng_service_pipe_state_add_locked ntop ok now m pid addr ident) = (pipe_ids m)[i := pid]"
    using Some assms(3) by (simp add: ducknng_service_pipe_state_add_locked_def Let_def map_update)
  also have "\<dots> = pipe_ids m" using i by (simp add: list_update_same_conv)
  finally have eq: "pipe_ids (ducknng_service_pipe_state_add_locked ntop ok now m pid addr ident) = pipe_ids m" .
  have "pid \<in> set (pipe_ids m)" using i by (metis length_map nth_map nth_mem)
  then show ?thesis unfolding eq using assms(1) by (simp add: insert_absorb)
qed

lemma pipe_state_remove_ids:
  assumes "distinct (pipe_ids m)" "pid \<noteq> 0"
  shows "distinct (pipe_ids (ducknng_service_pipe_state_remove_locked m pid)) \<and>
    set (pipe_ids (ducknng_service_pipe_state_remove_locked m pid)) = set (pipe_ids m) - {pid}"
proof (cases "ducknng_service_pipe_state_find_locked m pid")
  case None
  then have "pid \<notin> set (pipe_ids m)" using pipe_find_None [OF assms(2), of m] by blast
  with None assms show ?thesis
    by (simp add: ducknng_service_pipe_state_remove_locked_def)
next
  case (Some i)
  note i = pipe_find_Some [OF Some]
  have "pipe_ids (ducknng_service_pipe_state_remove_locked m pid) = remove_nth i (pipe_ids m)"
    using Some by (simp add: ducknng_service_pipe_state_remove_locked_def map_remove_nth)
  then show ?thesis
    using set_remove_nth_distinct [OF assms(1), of i] distinct_remove_nth [OF assms(1), of i] i by simp
qed

lemma pipe_state_zero [simp]:
  "ducknng_service_pipe_state_add_locked ntop ok now m 0 addr ident = m"
  "ducknng_service_pipe_state_remove_locked m 0 = m"
  by (simp_all add: ducknng_service_pipe_state_add_locked_def ducknng_service_pipe_state_remove_locked_def
    ducknng_service_pipe_state_find_locked_def)

text \<open>The table after a recorded event.\<close>

lemma append_states:
  assumes "events_recorded ok m ident reason"
  shows "pipe_states (ducknng_service_pipe_event_append ntop ok now m pid (Some name) addr ident adm reason) =
    pipe_states (if name = ''add_post'' then ducknng_service_pipe_state_add_locked ntop ok now m pid addr ident
      else if name = ''rem_post'' then ducknng_service_pipe_state_remove_locked m pid else m)"
proof -
  obtain m1 idx where st: "ring_store (ring_ready m) = (m1, idx)" by (cases "ring_store (ring_ready m)")
  then have same: "pipe_states m1 = pipe_states m" "pipe_state_cap m1 = pipe_state_cap m"
    by (auto simp: ring_store_def ring_ready_def split: if_splits)
  have find: "ducknng_service_pipe_state_find_locked m1 pid = ducknng_service_pipe_state_find_locked m pid"
    by (simp add: ducknng_service_pipe_state_find_locked_def same)
  have "pipe_states (ducknng_service_pipe_state_add_locked ntop ok now m1 pid addr ident) =
      pipe_states (ducknng_service_pipe_state_add_locked ntop ok now m pid addr ident)"
    "pipe_states (ducknng_service_pipe_state_remove_locked m1 pid) = pipe_states (ducknng_service_pipe_state_remove_locked m pid)"
    by (simp_all add: ducknng_service_pipe_state_add_locked_def ducknng_service_pipe_state_remove_locked_def find same Let_def
      split: option.split)
  then show ?thesis
    unfolding append_recorded [OF assms] st prod.case Let_def by (simp add: same)
qed

lemma new_event_pipe_id [simp]: "ev_pipe_id (new_event ntop ok now pid name addr ident adm reason) = pid"
  by (simp add: new_event_def split: prod.split)

lemma run_active:
  "monitor_run (\<lambda>ok. \<forall>i. ok i) hs m \<Longrightarrow> distinct (pipe_ids m) \<and> set (pipe_ids m) = foldl replay {} hs"
proof (induction rule: monitor_run.induct)
  case (run_record hs m ok identity reason ntop now pid name addr admitted)
  let ?e = "new_event ntop ok now pid name addr identity admitted reason"
  have ev: "ev_event ?e = Some name"
    using run_record.hyps(2) by (simp add: new_event_def dup_def split: prod.split)
  have d: "distinct (pipe_ids m)" "set (pipe_ids m) = foldl replay {} hs" using run_record.IH by simp_all
  have ok: "ok 4" using run_record.hyps(2) by blast
  have rep: "foldl replay {} (hs @ [?e\<lparr>ev_seq := of_nat (length hs + 1)\<rparr>]) =
      (if pid = 0 then foldl replay {} hs else if name = ''add_post'' then insert pid (foldl replay {} hs)
       else if name = ''rem_post'' then foldl replay {} hs - {pid} else foldl replay {} hs)"
    using ev by (simp add: replay_def)
  show ?case
  proof (cases "pid = 0")
    case True
    then show ?thesis unfolding append_states [OF run_record.hyps(3)] rep using d by simp
  next
    case False
    note add = pipe_state_add_ids [of m ok pid ntop now addr identity, OF d(1) ok False, unfolded d(2)]
    note rem = pipe_state_remove_ids [OF d(1) False, unfolded d(2)]
    consider "name = ''add_post''" | "name = ''rem_post''" | "name \<noteq> ''add_post''" "name \<noteq> ''rem_post''" by blast
    then show ?thesis
    proof cases
      case 1
      then show ?thesis unfolding append_states [OF run_record.hyps(3)] rep using False add by simp
    next
      case 2
      then show ?thesis unfolding append_states [OF run_record.hyps(3)] rep using False rem by simp
    next
      case 3
      then show ?thesis unfolding append_states [OF run_record.hyps(3)] rep using False d by simp
    qed
  qed
next
  case (run_lost hs m ok identity reason ntop now pid name addr admitted)
  then show ?case by (simp add: append_not_recorded)
qed simp



end
