(* ===== verification/Routes.thy ===== *)
theory Routes
  imports Transport
begin

text \<open>
  HTTP routes of a service (\<open>ducknng_service.c\<close>): patterns and how they match a path, the route table, lookup, and the
  authentication of a single route (\<open>ducknng_http_compat.c\<close>).

  \<open>mem n\<close>: \<open>n\<close> bytes can be allocated; \<open>ok i\<close>: the \<open>i\<close>-th string copy (or table growth) of an operation succeeds.
  \<open>url_path\<close>: the path NNG parses from a URL. Services are not null, and their mutex makes every operation atomic.
\<close>

datatype match_kind = MATCH_EXACT | MATCH_PREFIX | MATCH_TEMPLATE
datatype route_response = RESPONSE_ONESHOT | RESPONSE_STREAM | RESPONSE_EVENTS

record http_route =
  route_id :: u64
  rt_kind :: match_kind
  rt_response :: route_response
  rt_method :: cstring
  rt_path :: cstring
  handler_sql :: cstring
  request_max_bytes :: u64
  static_dir_path :: cstring
  stream_content_type :: cstring
  event_heartbeat_ms :: u32
  auth_require_identity :: bool
  auth_allow_identities_json :: cstring

record router =
  listen_url :: cstring
  recv_max_bytes :: u64
  http_routes :: "http_route list"
  http_route_cap :: nat
  next_http_route_id :: u64

definition blank_route :: http_route where
  "blank_route = \<lparr> route_id = 0, rt_kind = MATCH_EXACT, rt_response = RESPONSE_ONESHOT, rt_method = None, rt_path = None,
     handler_sql = None, request_max_bytes = 0, static_dir_path = None, stream_content_type = None, event_heartbeat_ms = 0,
     auth_require_identity = False, auth_allow_identities_json = None \<rparr>"

definition ducknng_http_route_reset :: "http_route \<Rightarrow> http_route" where
  "ducknng_http_route_reset route = blank_route"

definition ducknng_http_route_copy :: "(nat \<Rightarrow> bool) \<Rightarrow> http_route \<Rightarrow> bool \<times> http_route" where
  "ducknng_http_route_copy ok src =
     (let dst = blank_route\<lparr>route_id := route_id src, rt_kind := rt_kind src, rt_response := rt_response src,
            request_max_bytes := request_max_bytes src, event_heartbeat_ms := event_heartbeat_ms src,
            auth_require_identity := auth_require_identity src,
            rt_method := dup ok 0 (rt_method src), rt_path := dup ok 1 (rt_path src),
            handler_sql := dup ok 2 (handler_sql src), static_dir_path := dup ok 3 (static_dir_path src),
            stream_content_type := dup ok 4 (stream_content_type src),
            auth_allow_identities_json := dup ok 5 (auth_allow_identities_json src)\<rparr>
      in if rt_method src \<noteq> None \<and> rt_method dst = None \<or> rt_path src \<noteq> None \<and> rt_path dst = None \<or>
            handler_sql src \<noteq> None \<and> handler_sql dst = None \<or>
            static_dir_path src \<noteq> None \<and> static_dir_path dst = None \<or>
            stream_content_type src \<noteq> None \<and> stream_content_type dst = None \<or>
            auth_allow_identities_json src \<noteq> None \<and> auth_allow_identities_json dst = None
         then (False, ducknng_http_route_reset dst) else (True, dst))"

fun ducknng_http_route_match_kind_name :: "match_kind \<Rightarrow> string" where
  "ducknng_http_route_match_kind_name MATCH_PREFIX = ''prefix''"
| "ducknng_http_route_match_kind_name MATCH_TEMPLATE = ''template''"
| "ducknng_http_route_match_kind_name MATCH_EXACT = ''exact''"

section \<open>Methods, paths and patterns\<close>

definition ducknng_http_route_method_normalize_dup :: "(nat \<Rightarrow> bool) \<Rightarrow> cstring \<Rightarrow> string + string" where
  "ducknng_http_route_method_normalize_dup mem m =
     (if \<not> nonempty m then Inl ''ducknng: HTTP route method is required''
      else if \<not> mem (length (deref m) + 1) then Inl ''ducknng: out of memory normalizing HTTP route method''
      else let out = map ascii_upper (deref m)
        in if \<not> ducknng_http_token_is_valid (Some out) then Inl ''ducknng: HTTP route method must be an HTTP token''
           else Inr out)"

definition ducknng_http_route_path_valid :: "string \<Rightarrow> bool" where
  "ducknng_http_route_path_valid path =
     (path \<noteq> [] \<and> hd path = CHR ''/'' \<and> list_all (\<lambda>c. c \<noteq> CHR ''?'' \<and> c \<noteq> CHR ''#'') path)"

definition ducknng_service_http_mount_path :: "(string \<Rightarrow> cstring) \<Rightarrow> router \<Rightarrow> cstring" where
  "ducknng_service_http_mount_path url_path svc =
     (case listen_url svc of
        None \<Rightarrow> None
      | Some url \<Rightarrow>
          (case url_path url of
             None \<Rightarrow> None
           | Some p \<Rightarrow> if p \<noteq> [] \<and> hd p = CHR ''/'' then Some (take 1023 p) else None))"

definition ducknng_http_route_match_kind_parse :: "cstring \<Rightarrow> string + match_kind" where
  "ducknng_http_route_match_kind_parse kind =
     (if \<not> nonempty kind \<or> ducknng_ascii_ieq kind (Some ''exact'') then Inr MATCH_EXACT
      else if ducknng_ascii_ieq kind (Some ''prefix'') then Inr MATCH_PREFIX
      else if ducknng_ascii_ieq kind (Some ''template'') then Inr MATCH_TEMPLATE
      else Inl ''ducknng: HTTP route match_kind must be exact, prefix, or template'')"

definition letter_or_underscore :: "char \<Rightarrow> bool" where
  "letter_or_underscore c = (97 \<le> code c \<and> code c \<le> 122 \<or> 65 \<le> code c \<and> code c \<le> 90 \<or> c = CHR ''_'')"

definition ducknng_http_route_template_param_name_valid :: "string \<Rightarrow> bool" where
  "ducknng_http_route_template_param_name_valid name =
     (case name of
        [] \<Rightarrow> False
      | c # cs \<Rightarrow> letter_or_underscore c \<and>
          list_all (\<lambda>c. letter_or_underscore c \<or> 48 \<le> code c \<and> code c \<le> 57) cs)"

abbreviation seg_of :: "string \<Rightarrow> string" where
  "seg_of s \<equiv> takeWhile (\<lambda>c. c \<noteq> CHR ''/'') s"

abbreviation after_seg :: "string \<Rightarrow> string" where
  "after_seg s \<equiv> dropWhile (\<lambda>c. c \<noteq> CHR ''/'') s"

lemma after_seg_length: "length (after_seg s) \<le> length s"
  by (rule length_dropWhile_le)

text \<open>The segments after the leading slash; \<open>saw\<close> records a placeholder.\<close>

function template_valid_loop :: "bool \<Rightarrow> string \<Rightarrow> string + bool" where
  "template_valid_loop saw seg =
     (let s = seg_of seg; slash = after_seg seg
      in if s = [] then (if slash = [] then Inr saw else template_valid_loop saw (tl slash))
         else if (hd s = CHR ''{'' \<or> last s = CHR ''}'') \<and>
                 (hd s \<noteq> CHR ''{'' \<or> last s \<noteq> CHR ''}'' \<or> length s < 3 \<or>
                  CHR ''}'' \<in> set (butlast s) \<or> CHR ''{'' \<in> set (butlast (tl s)))
         then Inl ''ducknng: HTTP route template segments must use {name} and occupy a whole path segment''
         else if hd s = CHR ''{'' \<and> \<not> ducknng_http_route_template_param_name_valid (butlast (tl s))
         then Inl ''ducknng: HTTP route template parameter names must match [A-Za-z_][A-Za-z0-9_]*''
         else let saw = (saw \<or> hd s = CHR ''{'')
           in if slash = [] then Inr saw else template_valid_loop saw (tl slash))"
  by pat_completeness auto
termination
proof (relation "measure (\<lambda>(saw, seg). length seg)", goal_cases)
  case 1
  then show ?case by simp
next
  case (2 saw seg)
  then show ?case using after_seg_length [of seg] by (cases "after_seg seg") auto
next
  case (3 saw seg)
  then show ?case using after_seg_length [of seg] by (cases "after_seg seg") auto
qed

declare template_valid_loop.simps [simp del]

definition ducknng_http_route_template_valid :: "string \<Rightarrow> cstring" where
  "ducknng_http_route_template_valid path =
     (case template_valid_loop False (tl path) of
        Inl err \<Rightarrow> Some err
      | Inr saw \<Rightarrow> if saw then None else Some ''ducknng: template routes must include at least one {name} segment'')"

text \<open>\<open>None\<close>: the pattern is valid.\<close>

definition ducknng_http_route_pattern_valid :: "match_kind \<Rightarrow> string \<Rightarrow> cstring" where
  "ducknng_http_route_pattern_valid kind path =
     (if \<not> ducknng_http_route_path_valid path
      then Some ''ducknng: HTTP route path must be an absolute path without query or fragment''
      else if kind = MATCH_TEMPLATE then ducknng_http_route_template_valid path
      else None)"

definition ducknng_http_route_prefix_matches :: "string \<Rightarrow> string \<Rightarrow> bool" where
  "ducknng_http_route_prefix_matches pattern path =
     (let len = length pattern
      in if len = 0 then False
         else if take len path \<noteq> pattern then False
         else if drop len path = [] then True
         else if last pattern = CHR ''/'' then True
         else hd (drop len path) = CHR ''/'')"

section \<open>Template matching\<close>

text \<open>A text buffer and its capacity; \<open>None\<close> is the null pointer.\<close>

type_synonym jsonbuf = "(string \<times> nat) option"

definition ducknng_http_route_json_buf_append :: "(nat \<Rightarrow> bool) \<Rightarrow> jsonbuf \<Rightarrow> string \<Rightarrow> jsonbuf option" where
  "ducknng_http_route_json_buf_append mem b src =
     (let (buf, cap) = (case b of None \<Rightarrow> ([], 0) | Some bc \<Rightarrow> bc);
          want = length buf + length src + 1;
          new_cap = double_until (if cap \<noteq> 0 then cap * 2 else 64) want
      in if want \<le> cap then Some (Some (buf @ src, cap))
         else if \<not> mem new_cap then None
         else Some (Some (buf @ src, new_cap)))"

definition route_escape :: "char \<Rightarrow> string" where
  "route_escape c =
     (if c = QUOTE then [BACKSLASH, QUOTE]
      else if c = BACKSLASH then [BACKSLASH, BACKSLASH]
      else if code c = 8 then [BACKSLASH, CHR ''b'']
      else if code c = 12 then [BACKSLASH, CHR ''f'']
      else if code c = 10 then [BACKSLASH, CHR ''n'']
      else if code c = 13 then [BACKSLASH, CHR ''r'']
      else if code c = 9 then [BACKSLASH, CHR ''t'']
      else if code c < 0x20 then BACKSLASH # CHR ''u'' # fmt_04x (code c)
      else [c])"

fun route_append_escaped :: "(nat \<Rightarrow> bool) \<Rightarrow> jsonbuf \<Rightarrow> string \<Rightarrow> jsonbuf option" where
  "route_append_escaped mem b [] = ducknng_http_route_json_buf_append mem b [QUOTE]"
| "route_append_escaped mem b (c # src) =
     ducknng_http_route_json_buf_append mem b (route_escape c) \<bind> (\<lambda>b. route_append_escaped mem b src)"

definition ducknng_http_route_json_append_string :: "(nat \<Rightarrow> bool) \<Rightarrow> jsonbuf \<Rightarrow> string \<Rightarrow> jsonbuf option" where
  "ducknng_http_route_json_append_string mem b src =
     ducknng_http_route_json_buf_append mem b [QUOTE] \<bind> (\<lambda>b. route_append_escaped mem b src)"

text \<open>The three results of a match: 0, -1 and 1.\<close>

datatype 'a matched = No_match | Match_error | Matched 'a

definition placeholder :: "string \<Rightarrow> bool" where
  "placeholder s = (s \<noteq> [] \<and> hd s = CHR ''{'' \<and> last s = CHR ''}'')"

text \<open>One parameter: the opening brace before the first, a comma before every other.\<close>

definition append_param :: "(nat \<Rightarrow> bool) \<Rightarrow> jsonbuf \<times> bool \<Rightarrow> string \<Rightarrow> string \<Rightarrow> (jsonbuf \<times> bool) option" where
  "append_param mem st name val = do {
     let (b, first) = st;
     b \<leftarrow> (if b = None then ducknng_http_route_json_buf_append mem b ''{'' else Some b);
     b \<leftarrow> (if \<not> first then ducknng_http_route_json_buf_append mem b '','' else Some b);
     b \<leftarrow> ducknng_http_route_json_append_string mem b name;
     b \<leftarrow> ducknng_http_route_json_buf_append mem b '':'';
     b \<leftarrow> ducknng_http_route_json_append_string mem b val;
     Some (b, False) }"

definition skip_slash :: "string \<Rightarrow> string" where
  "skip_slash s = (if s \<noteq> [] \<and> hd s = CHR ''/'' then tl s else s)"

lemma skip_slash_length: "length (skip_slash s) \<le> length s"
  by (simp add: skip_slash_def)

lemma after_seg_shorter: "seg_of s \<noteq> [] \<Longrightarrow> length (after_seg s) < length s"
  by (cases s) (auto simp: le_imp_less_Suc length_dropWhile_le split: if_splits)

lemma next_segment_shorter [termination_simp]:
  "seg_of (skip_slash s) \<noteq> [] \<Longrightarrow> length (after_seg (skip_slash s)) < length s"
  using after_seg_shorter [of "skip_slash s"] skip_slash_length [of s] by simp

function template_loop ::
  "(nat \<Rightarrow> bool) \<Rightarrow> jsonbuf \<times> bool \<Rightarrow> string \<Rightarrow> string \<Rightarrow> (jsonbuf \<times> bool) matched" where
  "template_loop mem st pat req =
     (let pat = skip_slash pat; req = skip_slash req; ps = seg_of pat; rs = seg_of req
      in if ps = [] \<and> rs = [] then Matched st
         else if ps = [] \<or> rs = [] then No_match
         else case (if placeholder ps then
                      (case append_param mem st (butlast (tl ps)) rs of None \<Rightarrow> Match_error | Some st \<Rightarrow> Matched st)
                    else if ps \<noteq> rs then No_match else Matched st) of
             No_match \<Rightarrow> No_match
           | Match_error \<Rightarrow> Match_error
           | Matched st \<Rightarrow>
               if after_seg pat = [] \<and> after_seg req = [] then Matched st
               else if after_seg pat = [] \<or> after_seg req = [] then No_match
               else template_loop mem st (after_seg pat) (after_seg req))"
  by pat_completeness auto
termination
  by (relation "measure (\<lambda>(mem, st, pat, req). length pat)") (auto intro: next_segment_shorter)

declare template_loop.simps [simp del]

definition ducknng_http_route_template_matches :: "(nat \<Rightarrow> bool) \<Rightarrow> string \<Rightarrow> string \<Rightarrow> cstring matched" where
  "ducknng_http_route_template_matches mem pattern path =
     (case template_loop mem (None, True) pattern path of
        No_match \<Rightarrow> No_match
      | Match_error \<Rightarrow> Match_error
      | Matched (None, first) \<Rightarrow> if mem 3 then Matched (Some ''{}'') else Match_error
      | Matched (b, first) \<Rightarrow>
          (case ducknng_http_route_json_buf_append mem b ''}'' of
             None \<Rightarrow> Match_error
           | Some b \<Rightarrow> Matched (map_option fst b)))"

definition ducknng_http_route_pattern_matches ::
  "(nat \<Rightarrow> bool) \<Rightarrow> match_kind \<Rightarrow> cstring \<Rightarrow> cstring \<Rightarrow> cstring matched" where
  "ducknng_http_route_pattern_matches mem kind pattern path =
     (if pattern = None \<or> path = None then No_match
      else case kind of
        MATCH_PREFIX \<Rightarrow>
          if ducknng_http_route_prefix_matches (the pattern) (the path) then Matched None else No_match
      | MATCH_TEMPLATE \<Rightarrow> ducknng_http_route_template_matches mem (the pattern) (the path)
      | MATCH_EXACT \<Rightarrow> if pattern = path then Matched None else No_match)"

section \<open>The route table\<close>

definition ducknng_service_http_routes_reserve :: "bool \<Rightarrow> router \<Rightarrow> nat \<Rightarrow> cstring \<times> router" where
  "ducknng_service_http_routes_reserve grow svc want =
     (let new_cap = (if http_route_cap svc \<noteq> 0 then http_route_cap svc * 2 else 4)
      in if http_route_cap svc \<ge> want then (None, svc)
         else if \<not> grow then (Some ''ducknng: out of memory growing HTTP route registry'', svc)
         else (None, svc\<lparr>http_route_cap := double_until new_cap want\<rparr>))"

definition same_route :: "match_kind \<Rightarrow> string \<Rightarrow> string \<Rightarrow> http_route \<Rightarrow> bool" where
  "same_route kind meth path r = (rt_kind r = kind \<and> rt_method r = Some meth \<and> rt_path r = Some path)"

text \<open>The checks before a route is built; \<open>Inr\<close> carries the normalized method.\<close>

definition route_checks ::
  "(string \<Rightarrow> cstring) \<Rightarrow> (nat \<Rightarrow> bool) \<Rightarrow> router \<Rightarrow> cstring \<Rightarrow> match_kind \<Rightarrow> cstring \<Rightarrow> cstring \<Rightarrow> u64 \<Rightarrow> string + string" where
  "route_checks url_path mem svc meth kind path sql max_bytes =
     (if meth = None \<or> path = None \<or> sql = None
      then Inl ''ducknng: HTTP route requires service, method, path, and handler_sql''
      else (case ducknng_transport_url_parse (listen_url svc) of
        Inl err \<Rightarrow> Inl err
      | Inr parsed \<Rightarrow>
          if \<not> ducknng_transport_url_is_http parsed
          then Inl ''ducknng: HTTP routes require an http:// or https:// service''
          else (case ducknng_http_route_pattern_valid kind (the path) of
            Some err \<Rightarrow> Inl err
          | None \<Rightarrow>
              (case ducknng_http_route_pattern_matches mem kind path (ducknng_service_http_mount_path url_path svc) of
                 Match_error \<Rightarrow> Inl ''ducknng: out of memory matching HTTP route pattern''
               | Matched _ \<Rightarrow> Inl ''ducknng: HTTP route path conflicts with the framed RPC mount''
               | No_match \<Rightarrow>
                   if recv_max_bytes svc < max_bytes
                   then Inl ''ducknng: HTTP route request_max_bytes cannot exceed the service recv_max_bytes''
                   else ducknng_http_route_method_normalize_dup mem meth))))"

definition ducknng_service_register_http_route_inner ::
  "(string \<Rightarrow> cstring) \<Rightarrow> (nat \<Rightarrow> bool) \<Rightarrow> (nat \<Rightarrow> bool) \<Rightarrow> router \<Rightarrow> cstring \<Rightarrow> match_kind \<Rightarrow> cstring \<Rightarrow> cstring \<Rightarrow> u64 \<Rightarrow>
   cstring \<times> router" where
  "ducknng_service_register_http_route_inner url_path mem ok svc meth kind path sql max_bytes =
     (case route_checks url_path mem svc meth kind path sql max_bytes of
        Inl err \<Rightarrow> (Some err, svc)
      | Inr norm \<Rightarrow>
          let route = blank_route\<lparr>route_id := next_http_route_id svc, rt_kind := kind,
                request_max_bytes := max_bytes, rt_method := Some norm, rt_path := dup ok 0 path,
                handler_sql := dup ok 1 sql\<rparr>;
              svc = svc\<lparr>next_http_route_id := next_http_route_id svc + 1\<rparr>
          in if rt_path route = None \<or> handler_sql route = None
             then (Some ''ducknng: out of memory registering HTTP route'', svc)
             else if list_ex (same_route kind norm (the path)) (http_routes svc)
             then (Some ''ducknng: HTTP route already registered'', svc)
             else (case ducknng_service_http_routes_reserve (ok 2) svc (length (http_routes svc) + 1) of
               (Some err, svc) \<Rightarrow> (Some err, svc)
             | (None, svc) \<Rightarrow> (None, svc\<lparr>http_routes := http_routes svc @ [route]\<rparr>)))"

definition ducknng_service_register_http_route ::
  "(string \<Rightarrow> cstring) \<Rightarrow> (nat \<Rightarrow> bool) \<Rightarrow> (nat \<Rightarrow> bool) \<Rightarrow> router \<Rightarrow> cstring \<Rightarrow> cstring \<Rightarrow> cstring \<Rightarrow> u64 \<Rightarrow>
   cstring \<times> router" where
  "ducknng_service_register_http_route url_path mem ok svc meth path sql max_bytes =
     ducknng_service_register_http_route_inner url_path mem ok svc meth MATCH_EXACT path sql max_bytes"

definition ducknng_service_register_http_route_pattern ::
  "(string \<Rightarrow> cstring) \<Rightarrow> (nat \<Rightarrow> bool) \<Rightarrow> (nat \<Rightarrow> bool) \<Rightarrow> router \<Rightarrow> cstring \<Rightarrow> cstring \<Rightarrow> cstring \<Rightarrow> cstring \<Rightarrow> u64 \<Rightarrow>
   cstring \<times> router" where
  "ducknng_service_register_http_route_pattern url_path mem ok svc meth kind path sql max_bytes =
     (case ducknng_http_route_match_kind_parse kind of
        Inl err \<Rightarrow> (Some err, svc)
      | Inr kind \<Rightarrow> ducknng_service_register_http_route_inner url_path mem ok svc meth kind path sql max_bytes)"

text \<open>Change the first route that satisfies \<open>P\<close>; the flag tells whether there is one.\<close>

definition update_route :: "(http_route \<Rightarrow> bool) \<Rightarrow> (http_route \<Rightarrow> http_route) \<Rightarrow> router \<Rightarrow> bool \<times> router" where
  "update_route P f svc =
     (case find_idx P (http_routes svc) of
        None \<Rightarrow> (False, svc)
      | Some i \<Rightarrow> (True, svc\<lparr>http_routes := (http_routes svc)[i := f (http_routes svc ! i)]\<rparr>))"

definition ducknng_service_register_http_event_route ::
  "(string \<Rightarrow> cstring) \<Rightarrow> (nat \<Rightarrow> bool) \<Rightarrow> (nat \<Rightarrow> bool) \<Rightarrow> router \<Rightarrow> cstring \<Rightarrow> cstring \<Rightarrow> u32 \<Rightarrow> cstring \<times> router" where
  "ducknng_service_register_http_event_route url_path mem ok svc path sql heartbeat =
     (if heartbeat < 100 \<or> heartbeat > 300000
      then (Some ''ducknng: event route heartbeat_ms must be between 100 and 300000'', svc)
      else case ducknng_service_register_http_route_inner url_path mem ok svc (Some ''GET'') MATCH_EXACT path sql 0 of
        (Some err, svc) \<Rightarrow> (Some err, svc)
      | (None, svc) \<Rightarrow>
          (case update_route (same_route MATCH_EXACT ''GET'' (the path))
                  (\<lambda>r. r\<lparr>rt_response := RESPONSE_EVENTS, event_heartbeat_ms := heartbeat\<rparr>) svc of
             (True, svc) \<Rightarrow> (None, svc)
           | (False, svc) \<Rightarrow> (Some ''ducknng: event route vanished during registration'', svc)))"


definition ducknng_service_unregister_http_route_inner ::
  "(nat \<Rightarrow> bool) \<Rightarrow> router \<Rightarrow> cstring \<Rightarrow> match_kind \<Rightarrow> cstring \<Rightarrow> (string + bool) \<times> router" where
  "ducknng_service_unregister_http_route_inner mem svc meth kind path =
     (if meth = None \<or> path = None
      then (Inl ''ducknng: HTTP route unregister requires service, method, and path'', svc)
      else case ducknng_http_route_method_normalize_dup mem meth of
        Inl err \<Rightarrow> (Inl err, svc)
      | Inr norm \<Rightarrow>
          (case find_idx (same_route kind norm (the path)) (http_routes svc) of
             None \<Rightarrow> (Inr False, svc)
           | Some i \<Rightarrow> (Inr True, svc\<lparr>http_routes := remove_nth i (http_routes svc)\<rparr>)))"

definition ducknng_service_unregister_http_route ::
  "(nat \<Rightarrow> bool) \<Rightarrow> router \<Rightarrow> cstring \<Rightarrow> cstring \<Rightarrow> (string + bool) \<times> router" where
  "ducknng_service_unregister_http_route mem svc meth path =
     ducknng_service_unregister_http_route_inner mem svc meth MATCH_EXACT path"

definition ducknng_service_unregister_http_route_pattern ::
  "(nat \<Rightarrow> bool) \<Rightarrow> router \<Rightarrow> cstring \<Rightarrow> cstring \<Rightarrow> cstring \<Rightarrow> (string + bool) \<times> router" where
  "ducknng_service_unregister_http_route_pattern mem svc meth kind path =
     (case ducknng_http_route_match_kind_parse kind of
        Inl err \<Rightarrow> (Inl err, svc)
      | Inr kind \<Rightarrow> ducknng_service_unregister_http_route_inner mem svc meth kind path)"

text \<open>The route is found again by the method as the caller wrote it, not by the stored, normalized one.\<close>

definition ducknng_service_register_http_stream_route ::
  "(string \<Rightarrow> cstring) \<Rightarrow> (nat \<Rightarrow> bool) \<Rightarrow> (nat \<Rightarrow> bool) \<Rightarrow> router \<Rightarrow> cstring \<Rightarrow> cstring \<Rightarrow> cstring \<Rightarrow> cstring \<Rightarrow> u64 \<Rightarrow>
   cstring \<times> router" where
  "ducknng_service_register_http_stream_route url_path mem ok svc meth path sql content_type max_bytes =
     (case ducknng_service_register_http_route_inner url_path mem ok svc meth MATCH_EXACT path sql max_bytes of
        (Some err, svc) \<Rightarrow> (Some err, svc)
      | (None, svc) \<Rightarrow>
          (case dup ok 3 (if nonempty content_type then content_type else Some ''text/event-stream; charset=utf-8'') of
             None \<Rightarrow>
               (Some ''ducknng: out of memory registering stream route content type'',
                snd (ducknng_service_unregister_http_route mem svc meth path))
           | Some ct \<Rightarrow>
               (None, snd (update_route (same_route MATCH_EXACT (the meth) (the path))
                  (\<lambda>r. r\<lparr>rt_response := RESPONSE_STREAM, stream_content_type := Some ct\<rparr>) svc))))"

definition ducknng_service_set_http_route_auth ::
  "(nat \<Rightarrow> bool) \<Rightarrow> router \<Rightarrow> cstring \<Rightarrow> cstring \<Rightarrow> bool \<Rightarrow> cstring \<Rightarrow> cstring \<times> router" where
  "ducknng_service_set_http_route_auth ok svc meth path require_id allow_json =
     (if meth = None \<or> path = None then (Some ''ducknng: service, method, and path are required'', svc)
      else case update_route (\<lambda>r. rt_method r = meth \<and> rt_path r = path)
             (\<lambda>r. r\<lparr>auth_require_identity := require_id,
                    auth_allow_identities_json := (if nonempty allow_json then dup ok 0 allow_json else None)\<rparr>) svc of
        (False, svc) \<Rightarrow> (Some ''ducknng: HTTP route not found'', svc)
      | (True, svc) \<Rightarrow>
          if nonempty allow_json \<and> dup ok 0 allow_json = None
          then (Some ''ducknng: out of memory for identities JSON'', svc)
          else (None, svc))"

text \<open>
  Registration of a static directory (\<open>ducknng_sql_http.c\<close>): one row of the SQL function, once the service is found.
  The two allocation oracles are those of its two calls.
\<close>

definition ducknng_register_http_static_scalar ::
  "(string \<Rightarrow> cstring) \<Rightarrow> (nat \<Rightarrow> bool) \<Rightarrow> (nat \<Rightarrow> bool) \<Rightarrow> (nat \<Rightarrow> bool) \<Rightarrow> router \<Rightarrow> string \<Rightarrow> string \<Rightarrow> cstring \<times> router" where
  "ducknng_register_http_static_scalar url_path mem ok ok' svc path_prefix dir_path =
     (case ducknng_service_register_http_route_pattern url_path mem ok svc (Some ''GET'') (Some ''prefix'')
             (Some path_prefix) (Some '''') 0 of
        (Some err, svc) \<Rightarrow> (Some err, svc)
      | (None, svc) \<Rightarrow>
          (case ducknng_service_set_http_route_auth ok' svc (Some ''GET'') (Some path_prefix) False None of
             (Some err, svc) \<Rightarrow> (None, svc)
           | (None, svc) \<Rightarrow>
               (None, snd (update_route (same_route MATCH_PREFIX ''GET'' path_prefix)
                  (\<lambda>r. r\<lparr>static_dir_path := Some dir_path\<rparr>) svc))))"

section \<open>Lookup\<close>

definition kind_rank :: "match_kind \<Rightarrow> nat" where
  "kind_rank kind = (case kind of MATCH_EXACT \<Rightarrow> 3 | MATCH_TEMPLATE \<Rightarrow> 2 | MATCH_PREFIX \<Rightarrow> 1)"

definition route_score :: "http_route \<Rightarrow> u64" where
  "route_score r = push_bit 32 (of_nat (kind_rank (rt_kind r))) + of_nat (length (deref (rt_path r)))"

text \<open>\<open>ok i j\<close>: the \<open>j\<close>-th string of route \<open>i\<close> can be copied. The best match so far is its copy and its path parameters.\<close>

fun lookup_loop ::
  "(nat \<Rightarrow> bool) \<Rightarrow> (nat \<Rightarrow> nat \<Rightarrow> bool) \<Rightarrow> string \<Rightarrow> string \<Rightarrow> nat \<Rightarrow> u64 \<Rightarrow> (http_route \<times> cstring) option \<Rightarrow> http_route list \<Rightarrow>
   string + (http_route \<times> cstring) option" where
  "lookup_loop mem ok norm path i best_score best [] = Inr best"
| "lookup_loop mem ok norm path i best_score best (r # rs) =
     (if rt_method r \<noteq> Some norm then lookup_loop mem ok norm path (Suc i) best_score best rs
      else case ducknng_http_route_pattern_matches mem (rt_kind r) (rt_path r) (Some path) of
        Match_error \<Rightarrow> Inl ''ducknng: out of memory matching HTTP route''
      | No_match \<Rightarrow> lookup_loop mem ok norm path (Suc i) best_score best rs
      | Matched params \<Rightarrow>
          if best_score \<le> route_score r then
            (case ducknng_http_route_copy (ok i) r of
               (False, _) \<Rightarrow> Inl ''ducknng: out of memory copying HTTP route''
             | (True, out) \<Rightarrow> lookup_loop mem ok norm path (Suc i) (route_score r) (Some (out, params)) rs)
          else lookup_loop mem ok norm path (Suc i) best_score best rs)"

definition ducknng_service_lookup_http_route ::
  "(nat \<Rightarrow> bool) \<Rightarrow> (nat \<Rightarrow> nat \<Rightarrow> bool) \<Rightarrow> router \<Rightarrow> cstring \<Rightarrow> cstring \<Rightarrow> string + (http_route \<times> cstring) option" where
  "ducknng_service_lookup_http_route mem ok svc meth path =
     (if meth = None \<or> path = None then Inl ''ducknng: missing HTTP route lookup arguments''
      else case ducknng_http_route_method_normalize_dup mem meth of
        Inl err \<Rightarrow> Inl err
      | Inr norm \<Rightarrow> lookup_loop mem ok norm (the path) 0 0 None (http_routes svc))"

definition ducknng_service_http_routes_snapshot :: "bool \<Rightarrow> (nat \<Rightarrow> nat \<Rightarrow> bool) \<Rightarrow> router \<Rightarrow> string + http_route list" where
  "ducknng_service_http_routes_snapshot room ok svc =
     (let routes = http_routes svc;
          copies = map (\<lambda>i. ducknng_http_route_copy (ok i) (routes ! i)) [0..<length routes]
      in if routes \<noteq> [] \<and> \<not> (room \<and> list_all fst copies) then Inl ''ducknng: out of memory copying HTTP routes''
         else Inr (map snd copies))"

section \<open>Authentication of a route\<close>

text \<open>The status that refuses a request before the route's handler runs; \<open>None\<close>: it may run.\<close>

definition route_auth_refusal :: "(nat \<Rightarrow> bool) \<Rightarrow> http_route \<Rightarrow> cstring \<Rightarrow> (nat \<times> string) option" where
  "route_auth_refusal mem route caller_identity =
     (if auth_require_identity route \<and> \<not> nonempty caller_identity
      then Some (401, ''ducknng: route requires caller identity'')
      else if nonempty (auth_allow_identities_json route) \<and> nonempty caller_identity then
        (case ducknng_json_string_array_contains mem (auth_allow_identities_json route) caller_identity of
           Inr (True, _) \<Rightarrow> None
         | _ \<Rightarrow> Some (403, ''ducknng: caller identity not allowed for this route''))
      else None)"

section \<open>Segments\<close>

fun pieces :: "(char \<Rightarrow> bool) \<Rightarrow> string \<Rightarrow> string list" where
  "pieces P [] = [[]]"
| "pieces P (c # s) = (if P c then [] # pieces P s else (c # hd (pieces P s)) # tl (pieces P s))"

lemma pieces_eq:
  "pieces P s = takeWhile (\<lambda>c. \<not> P c) s #
     (if dropWhile (\<lambda>c. \<not> P c) s = [] then [] else pieces P (tl (dropWhile (\<lambda>c. \<not> P c) s)))"
  by (induction s) auto

lemma pieces_not_Nil [simp]: "pieces P s \<noteq> []"
  by (subst pieces_eq) simp

abbreviation segments :: "string \<Rightarrow> string list" where
  "segments \<equiv> pieces (\<lambda>c. c = CHR ''/'')"

lemmas segments_eq = pieces_eq [of "\<lambda>c. c = CHR ''/''"]

lemma after_seg_slash: "after_seg s \<noteq> [] \<Longrightarrow> skip_slash (after_seg s) = tl (after_seg s)"
  using hd_dropWhile [of "\<lambda>c. c \<noteq> CHR ''/''" s] by (simp add: skip_slash_def)

text \<open>
  What a template binds, on the segments: the walk ends at an empty segment that both have; the routes below are
  about templates without empty segments.
\<close>

fun template_bind :: "string list \<Rightarrow> string list \<Rightarrow> (string \<times> string) list option" where
  "template_bind (p # ps) (r # rs) =
     (if p = [] \<and> r = [] then Some []
      else if p = [] \<or> r = [] \<or> \<not> placeholder p \<and> p \<noteq> r \<or> (ps = []) \<noteq> (rs = []) then None
      else map_option ((@) (if placeholder p then [(butlast (tl p), r)] else []))
             (if ps = [] then Some [] else template_bind ps rs))"
| "template_bind _ _ = None"

definition seg_matches :: "string \<Rightarrow> string \<Rightarrow> bool" where
  "seg_matches p r = (r \<noteq> [] \<and> (placeholder p \<or> p = r))"

definition bindings :: "string list \<Rightarrow> string list \<Rightarrow> (string \<times> string) list" where
  "bindings ps rs = map (\<lambda>(p, r). (butlast (tl p), r)) (filter (placeholder \<circ> fst) (zip ps rs))"

lemma template_bind_segments:
  assumes "[] \<notin> set ps" "ps \<noteq> []" "rs \<noteq> []"
  shows "template_bind ps rs = (if list_all2 seg_matches ps rs then Some (bindings ps rs) else None)"
  using assms
proof (induction ps rs rule: template_bind.induct)
  case (1 p ps r rs)
  show ?case
  proof (cases "ps = [] \<or> rs = []")
    case True
    with 1(2-) show ?thesis by (cases ps; cases rs) (auto simp: seg_matches_def bindings_def)
  next
    case False
    with 1 have "p \<noteq> []" "[] \<notin> set ps" by auto
    with 1(1) False 1(2-) show ?thesis by (auto simp: seg_matches_def bindings_def)
  qed
qed auto

text \<open>The buffer after the parameters \<open>kvs\<close>.\<close>

definition holds_params :: "jsonbuf \<times> bool \<Rightarrow> (string \<times> string) list \<Rightarrow> bool" where
  "holds_params st kvs \<longleftrightarrow>
     (if kvs = [] then st = (None, True)
      else \<exists>cap. st = (Some (CHR ''{'' # render_members route_escape kvs, cap), False))"

lemma json_buf_append_ok:
  assumes "\<forall>n. mem n"
  shows "\<exists>cap'. ducknng_http_route_json_buf_append mem (Some (buf, cap)) src = Some (Some (buf @ src, cap'))"
    "\<exists>cap'. ducknng_http_route_json_buf_append mem None src = Some (Some (src, cap'))"
  using assms by (auto simp: ducknng_http_route_json_buf_append_def Let_def)

lemma route_append_escaped_ok:
  assumes "\<forall>n. mem n"
  shows "\<exists>cap'. route_append_escaped mem (Some (buf, cap)) src =
    Some (Some (buf @ concat (map route_escape src) @ [QUOTE], cap'))"
proof (induction src arbitrary: buf cap)
  case Nil
  then show ?case using json_buf_append_ok(1) [OF assms] by simp
next
  case (Cons c src)
  obtain cap1 where "ducknng_http_route_json_buf_append mem (Some (buf, cap)) (route_escape c) = Some (Some (buf @ route_escape c, cap1))"
    using json_buf_append_ok(1) [OF assms] by blast
  with Cons [of "buf @ route_escape c" cap1] show ?case by simp
qed

lemma route_append_string_ok:
  assumes "\<forall>n. mem n"
  shows "\<exists>cap'. ducknng_http_route_json_append_string mem (Some (buf, cap)) src =
    Some (Some (buf @ json_quote route_escape src, cap'))"
proof -
  obtain cap1 where "ducknng_http_route_json_buf_append mem (Some (buf, cap)) [QUOTE] = Some (Some (buf @ [QUOTE], cap1))"
    using json_buf_append_ok(1) [OF assms] by blast
  with route_append_escaped_ok [OF assms, of "buf @ [QUOTE]" cap1 src] show ?thesis
    by (simp add: ducknng_http_route_json_append_string_def json_quote_def)
qed

lemma render_members_snoc:
  "render_members esc (kvs @ [kv]) = (if kvs = [] then render_member esc kv else render_members esc kvs @ CHR '','' # render_member esc kv)"
proof (induction kvs)
  case (Cons a kvs)
  then show ?case by (cases kvs) auto
qed simp

lemma append_param_ok:
  assumes mem: "\<forall>n. mem n" and st: "holds_params st kvs"
  shows "\<exists>st'. append_param mem st k v = Some st' \<and> holds_params st' (kvs @ [(k, v)])"
proof -
  define pre where "pre = (if kvs = [] then ''{'' else CHR ''{'' # render_members route_escape kvs @ '','')"
  have "\<exists>cap. append_param mem st k v = do {
      b \<leftarrow> ducknng_http_route_json_append_string mem (Some (pre, cap)) k;
      b \<leftarrow> ducknng_http_route_json_buf_append mem b '':'';
      b \<leftarrow> ducknng_http_route_json_append_string mem b v;
      Some (b, False) }"
  proof (cases "kvs = []")
    case True
    with st json_buf_append_ok(2) [OF mem, of "''{''"] show ?thesis
      by (auto simp: append_param_def holds_params_def pre_def)
  next
    case False
    then obtain cap where "st = (Some (CHR ''{'' # render_members route_escape kvs, cap), False)"
      using st by (auto simp: holds_params_def)
    with False json_buf_append_ok(1) [OF mem, of "CHR ''{'' # render_members route_escape kvs" cap "'',''"] show ?thesis
      by (auto simp: append_param_def pre_def)
  qed
  then obtain c0 where run: "append_param mem st k v = do {
      b \<leftarrow> ducknng_http_route_json_append_string mem (Some (pre, c0)) k;
      b \<leftarrow> ducknng_http_route_json_buf_append mem b '':'';
      b \<leftarrow> ducknng_http_route_json_append_string mem b v;
      Some (b, False) }" ..
  let ?k = "pre @ json_quote route_escape k"
  obtain c1 where 1: "ducknng_http_route_json_append_string mem (Some (pre, c0)) k = Some (Some (?k, c1))"
    using route_append_string_ok [OF mem] by blast
  obtain c2 where 2: "ducknng_http_route_json_buf_append mem (Some (?k, c1)) '':'' = Some (Some (?k @ '':'', c2))"
    using json_buf_append_ok(1) [OF mem] by blast
  obtain c3 where 3: "ducknng_http_route_json_append_string mem (Some (?k @ '':'', c2)) v =
      Some (Some ((?k @ '':'') @ json_quote route_escape v, c3))"
    using route_append_string_ok [OF mem] by blast
  show ?thesis
    unfolding run 1 2 3 bind.bind_lunit
    by (simp add: 2 3 holds_params_def pre_def render_members_snoc render_member_def)
qed

lemma segments_cases:
  "segments s = seg_of s # (if after_seg s = [] then [] else segments (skip_slash (after_seg s)))"
proof (cases "after_seg s = []")
  case True
  show ?thesis unfolding segments_eq [of s] if_P [OF True] ..
next
  case False
  show ?thesis unfolding segments_eq [of s] if_not_P [OF False] after_seg_slash [OF False] ..
qed

text \<open>One round of the walk, with the segments as plain values.\<close>

lemma template_loop_round:
  assumes "p = seg_of (skip_slash pat)" "p' = after_seg (skip_slash pat)" "r = seg_of (skip_slash req)" "r' = after_seg (skip_slash req)"
  shows "template_loop mem st pat req =
      (if p = [] \<and> r = [] then Matched st
       else if p = [] \<or> r = [] then No_match
       else case (if placeholder p then
                    (case append_param mem st (butlast (tl p)) r of None \<Rightarrow> Match_error | Some st \<Rightarrow> Matched st)
                  else if p \<noteq> r then No_match else Matched st) of
           No_match \<Rightarrow> No_match
         | Match_error \<Rightarrow> Match_error
         | Matched st \<Rightarrow>
             if p' = [] \<and> r' = [] then Matched st
             else if p' = [] \<or> r' = [] then No_match
             else template_loop mem st p' r')"
    and "template_bind (segments (skip_slash pat)) (segments (skip_slash req)) =
      template_bind (p # (if p' = [] then [] else segments (skip_slash p'))) (r # (if r' = [] then [] else segments (skip_slash r')))"
    and "p \<noteq> [] \<Longrightarrow> length p' < length pat"
  unfolding assms template_loop.simps [of mem st pat req] segments_cases [of "skip_slash pat"] segments_cases [of "skip_slash req"] Let_def
  by (rule refl, rule refl, rule next_segment_shorter)

lemma template_loop_bind:
  assumes mem: "\<forall>n. mem n" and "holds_params st kvs"
  shows "case template_bind (segments (skip_slash pat)) (segments (skip_slash req)) of
      None \<Rightarrow> template_loop mem st pat req = No_match
    | Some b \<Rightarrow> \<exists>st'. template_loop mem st pat req = Matched st' \<and> holds_params st' (kvs @ b)"
  using assms(2)
proof (induction "length pat" arbitrary: st kvs pat req rule: less_induct)
  case less
  obtain p p' r r' where eqs: "p = seg_of (skip_slash pat)" "p' = after_seg (skip_slash pat)"
    "r = seg_of (skip_slash req)" "r' = after_seg (skip_slash req)" by blast
  note step = template_loop_round [OF eqs]
  show ?case
  proof (cases "p = [] \<or> r = [] \<or> \<not> placeholder p \<and> p \<noteq> r")
    case True
    then show ?thesis using less.prems unfolding step(1,2) by (auto simp: placeholder_def)
  next
    case False
    define b where "b = (if placeholder p then [(butlast (tl p), r)] else [])"
    obtain st' where st': "(if placeholder p then
          (case append_param mem st (butlast (tl p)) r of None \<Rightarrow> Match_error | Some st \<Rightarrow> Matched st)
        else if p \<noteq> r then No_match else Matched st) = Matched st'" "holds_params st' (kvs @ b)"
    proof (cases "placeholder p")
      case True
      with append_param_ok [OF mem less.prems, of "butlast (tl p)" r] show ?thesis by (auto simp: b_def intro: that)
    qed (use less.prems False in \<open>auto simp: b_def intro: that\<close>)
    have loop: "template_loop mem st pat req = (if p' = [] \<and> r' = [] then Matched st'
        else if p' = [] \<or> r' = [] then No_match else template_loop mem st' p' r')"
      using False unfolding step(1) st'(1) by auto
    have bind: "template_bind (segments (skip_slash pat)) (segments (skip_slash req)) =
        (if (p' = []) \<noteq> (r' = []) then None else map_option ((@) b) (if p' = [] then Some []
           else template_bind (segments (skip_slash p')) (segments (skip_slash r'))))"
      using False unfolding step(2) by (auto simp: b_def)
    have IH: "case template_bind (segments (skip_slash p')) (segments (skip_slash r')) of
        None \<Rightarrow> template_loop mem st' p' r' = No_match
      | Some c \<Rightarrow> \<exists>st''. template_loop mem st' p' r' = Matched st'' \<and> holds_params st'' ((kvs @ b) @ c)"
      using less.hyps [of p' st' "kvs @ b" r'] step(3) st'(2) False by blast
    show ?thesis
      using IH st'(2) unfolding loop bind by (auto split: option.splits)
  qed
qed


lemma pieces_append: "P c \<Longrightarrow> pieces P (s @ c # t) = pieces P s @ pieces P t"
  by (induction s) auto

lemma pieces_part: "x \<in> set (pieces P s) \<Longrightarrow> set x \<subseteq> set s \<and> length x \<le> length s"
proof (induction s arbitrary: x)
  case (Cons c s)
  have "hd (pieces P s) \<in> set (pieces P s)" "set (tl (pieces P s)) \<subseteq> set (pieces P s)"
    by (simp, cases "pieces P s", auto)
  moreover from Cons.prems have "x \<in> set ([] # (c # hd (pieces P s)) # pieces P s)"
    using calculation(2) by (auto split: if_splits)
  ultimately show ?case using Cons.IH [of x] Cons.IH [of "hd (pieces P s)"] by auto
qed simp

lemma placeholder_name: "set (butlast (tl p)) \<subseteq> set p \<and> length (butlast (tl p)) \<le> length p"
  by (cases p) (auto dest: in_set_butlastD)

lemma members_ok_bindings:
  assumes "nul_free pattern" "nul_free path" "length pattern + 2 < 2 ^ 64" "length path + 2 < 2 ^ 64"
  shows "members_ok (bindings (segments pattern) (segments path))"
proof -
  have "nul_free (butlast (tl p)) \<and> nul_free r \<and> length (butlast (tl p)) + 2 < 2 ^ 64 \<and> length r + 2 < 2 ^ 64"
    if "p \<in> set (segments pattern)" "r \<in> set (segments path)" for p r
    using pieces_part [OF that(1)] pieces_part [OF that(2)] placeholder_name [of p] assms
    unfolding nul_free_def by fastforce
  then show ?thesis by (fastforce simp: members_ok_def bindings_def dest: set_zip_leftD set_zip_rightD)
qed

lemma template_bind_stops:
  assumes "[] \<notin> set ps" "list_all2 seg_matches ps rs"
  shows "template_bind (ps @ [[]]) (rs @ [] # extra) = Some (bindings ps rs)"
  using assms(2,1)
proof (induction rule: list_all2_induct)
  case (Cons p ps r rs)
  then show ?case by (cases ps; cases rs) (auto simp: seg_matches_def bindings_def)
qed (simp add: bindings_def)

interpretation params: json_escaper route_escape
proof unfold_locales
  fix c :: char and rest
  assume "code c \<noteq> 0"
  moreover have "x = c" if "code x = code c" for x
    using that by (simp add: of_char_eq_iff)
  note controls = this [of "CHR 8"] this [of "CHR 9"] this [of "CHR 10"] this [of "CHR 12"] this [of "CHR 13"]
  ultimately show "reads_char (route_escape c @ rest) c rest"
    by (auto simp: reads_char_def route_escape_def unicode_loop_04x intro: controls)
qed

lemma template_matches_bind:
  assumes "\<forall>n. mem n"
  shows "ducknng_http_route_template_matches mem pattern path =
    (case template_bind (segments (skip_slash pattern)) (segments (skip_slash path)) of
       None \<Rightarrow> No_match
     | Some b \<Rightarrow> Matched (Some (render_object route_escape b)))"
proof (cases "template_bind (segments (skip_slash pattern)) (segments (skip_slash path))")
  case None
  with template_loop_bind [OF assms, of "(None, True)" "[]" pattern path] show ?thesis
    by (simp add: holds_params_def ducknng_http_route_template_matches_def)
next
  case (Some b)
  with template_loop_bind [OF assms, of "(None, True)" "[]" pattern path] obtain st
    where st: "template_loop mem (None, True) pattern path = Matched st" "holds_params st b"
    by (auto simp: holds_params_def)
  show ?thesis
  proof (cases "b = []")
    case True
    moreover have "mem 3" using assms by blast
    ultimately show ?thesis using st Some by (simp add: holds_params_def ducknng_http_route_template_matches_def render_object_def)
  next
    case False
    then obtain cap where cap: "st = (Some (CHR ''{'' # render_members route_escape b, cap), False)"
      using st(2) by (auto simp: holds_params_def)
    obtain cap' where "ducknng_http_route_json_buf_append mem (Some (CHR ''{'' # render_members route_escape b, cap)) ''}'' =
        Some (Some ((CHR ''{'' # render_members route_escape b) @ ''}'', cap'))"
      using json_buf_append_ok(1) [OF assms] by blast
    with st(1) Some show ?thesis by (simp add: cap ducknng_http_route_template_matches_def render_object_def)
  qed
qed




section \<open>Which route answers\<close>

text \<open>Route \<open>r\<close> answers a request, with these path parameters; its rank is its kind and then the length of its pattern.\<close>

definition answers :: "string \<Rightarrow> string \<Rightarrow> http_route \<Rightarrow> cstring \<Rightarrow> bool" where
  "answers norm path r params \<longleftrightarrow> rt_method r = Some norm \<and>
     ducknng_http_route_pattern_matches (\<lambda>_. True) (rt_kind r) (rt_path r) (Some path) = Matched params"

definition route_rank :: "http_route \<Rightarrow> nat" where
  "route_rank r = kind_rank (rt_kind r) * 2 ^ 32 + length (deref (rt_path r))"

lemma unat_route_score:
  assumes "length (deref (rt_path r)) < 2 ^ 32"
  shows "unat (route_score r) = route_rank r"
proof -
  have "kind_rank (rt_kind r) \<le> 3" by (simp add: kind_rank_def split: match_kind.split)
  with assms have "route_rank r < 2 ^ 64" by (simp add: route_rank_def)
  moreover have "route_score r = of_nat (route_rank r)"
    by (simp add: route_score_def route_rank_def push_bit_eq_mult)
  ultimately show ?thesis by (simp add: unat_of_nat_u64)
qed

lemma route_copy_ok:
  assumes "\<forall>i. ok i"
  shows "ducknng_http_route_copy ok r = (True, r)"
proof -
  have "dup ok i x = x" for i x using assms by (simp add: dup_def split: option.split)
  then show ?thesis by (simp add: ducknng_http_route_copy_def blank_route_def Let_def del: not_None_eq)
qed

text \<open>The best of the routes already seen.\<close>

definition best_of :: "string \<Rightarrow> string \<Rightarrow> http_route list \<Rightarrow> nat \<Rightarrow> (http_route \<times> cstring) option \<Rightarrow> bool" where
  "best_of norm path seen score best \<longleftrightarrow>
     (case best of
        None \<Rightarrow> score = 0 \<and> (\<forall>r \<in> set seen. \<forall>p. \<not> answers norm path r p)
      | Some (r, params) \<Rightarrow> score = route_rank r \<and> answers norm path r params \<and>
          (\<exists>before after. seen = before @ r # after \<and>
             (\<forall>s \<in> set before. \<forall>p. answers norm path s p \<longrightarrow> route_rank s \<le> route_rank r) \<and>
             (\<forall>s \<in> set after. \<forall>p. answers norm path s p \<longrightarrow> route_rank s < route_rank r)))"

lemma best_of_Some:
  assumes "answers norm path r params"
    and "\<And>s p. s \<in> set xs \<Longrightarrow> answers norm path s p \<Longrightarrow> route_rank s \<le> route_rank r"
    and "\<And>s p. s \<in> set ys \<Longrightarrow> answers norm path s p \<Longrightarrow> route_rank s < route_rank r"
  shows "best_of norm path (xs @ r # ys) (route_rank r) (Some (r, params))"
  unfolding best_of_def option.case prod.case using assms by (intro conjI exI [of _ xs] exI [of _ ys]) blast+

lemma best_of_SomeE:
  assumes "best_of norm path seen score (Some (r, params))"
  obtains xs ys where "score = route_rank r" "answers norm path r params" "seen = xs @ r # ys"
    "\<And>s p. s \<in> set xs \<Longrightarrow> answers norm path s p \<Longrightarrow> route_rank s \<le> route_rank r"
    "\<And>s p. s \<in> set ys \<Longrightarrow> answers norm path s p \<Longrightarrow> route_rank s < route_rank r"
  using assms unfolding best_of_def option.case prod.case by blast

lemma best_of_skip:
  assumes "best_of norm path seen score best" "\<And>p. answers norm path r p \<Longrightarrow> route_rank r < score"
  shows "best_of norm path (seen @ [r]) score best"
proof (cases best)
  case None
  with assms show ?thesis by (auto simp: best_of_def)
next
  case (Some rp)
  obtain s q where rp: "rp = (s, q)" by (cases rp)
  obtain xs ys where b: "score = route_rank s" "answers norm path s q" "seen = xs @ s # ys"
      "\<And>t p. t \<in> set xs \<Longrightarrow> answers norm path t p \<Longrightarrow> route_rank t \<le> route_rank s"
      "\<And>t p. t \<in> set ys \<Longrightarrow> answers norm path t p \<Longrightarrow> route_rank t < route_rank s"
    by (rule best_of_SomeE [OF assms(1) [unfolded Some rp]]) (rule that)
  have "best_of norm path (xs @ s # (ys @ [r])) (route_rank s) (Some (s, q))"
    by (rule best_of_Some [OF b(2,4)]) (use b(1,5) assms(2) in auto)
  then show ?thesis by (simp add: Some rp b)
qed

lemma best_of_take:
  assumes "best_of norm path seen score best" "answers norm path r params" "score \<le> route_rank r"
  shows "best_of norm path (seen @ [r]) (route_rank r) (Some (r, params))"
proof (rule best_of_Some [OF assms(2)])
  fix s p
  assume s: "s \<in> set seen" "answers norm path s p"
  show "route_rank s \<le> route_rank r"
  proof (cases best)
    case None
    with assms(1) s show ?thesis by (auto simp: best_of_def)
  next
    case (Some tq)
    obtain t q where "tq = (t, q)" by (cases tq)
    with Some assms(1) have "best_of norm path seen score (Some (t, q))" by simp
    then have "route_rank s \<le> score"
      by (rule best_of_SomeE) (use s in \<open>auto simp: less_imp_le\<close>)
    with assms(3) show ?thesis by simp
  qed
qed simp

lemma lookup_loop_best:
  assumes "\<forall>n. mem n" "\<forall>i j. ok i j" "list_all (\<lambda>r. length (deref (rt_path r)) < 2 ^ 32) rs"
    and "best_of norm path seen (unat score) best"
  shows "\<exists>best' score'. lookup_loop mem ok norm path i score best rs = Inr best' \<and>
    best_of norm path (seen @ rs) score' best'"
  using assms(3,4)
proof (induction rs arbitrary: seen i score best)
  case Nil
  then show ?case by auto
next
  case (Cons r rs)
  have mem: "mem = (\<lambda>_. True)" using assms(1) by auto
  have rank: "unat (route_score r) = route_rank r" using Cons.prems(1) by (simp add: unat_route_score)
  have tail: "list_all (\<lambda>r. length (deref (rt_path r)) < 2 ^ 32) rs" using Cons.prems(1) by simp
  have skip: ?case if "\<And>p. answers norm path r p \<Longrightarrow> route_rank r < unat score"
      "lookup_loop mem ok norm path i score best (r # rs) = lookup_loop mem ok norm path (Suc i) score best rs"
  proof -
    have "best_of norm path (seen @ [r]) (unat score) best" by (rule best_of_skip [OF Cons.prems(2) that(1)])
    from Cons.IH [OF tail this, of "Suc i"] show ?thesis unfolding that(2) by simp
  qed
  show ?case
  proof (cases "\<exists>params. answers norm path r params")
    case False
    have "ducknng_http_route_pattern_matches (\<lambda>_. True) (rt_kind r) (rt_path r) (Some path) \<noteq> Match_error"
      using template_matches_bind [of "\<lambda>_. True"]
      by (auto simp: ducknng_http_route_pattern_matches_def split: match_kind.split option.split)
    with False show ?thesis
      by (intro skip) (auto simp: answers_def mem split: matched.split)
  next
    case True
    then obtain params where params: "answers norm path r params" by blast
    then have m: "rt_method r = Some norm"
      "ducknng_http_route_pattern_matches mem (rt_kind r) (rt_path r) (Some path) = Matched params"
      by (simp_all add: answers_def mem)
    have copy: "ducknng_http_route_copy (ok i) r = (True, r)" using assms(2) by (simp add: route_copy_ok)
    show ?thesis
    proof (cases "score \<le> route_score r")
      case True
      then have "unat score \<le> route_rank r" by (simp add: word_le_nat_alt rank)
      from best_of_take [OF Cons.prems(2) params this]
      have "best_of norm path (seen @ [r]) (unat (route_score r)) (Some (r, params))" by (simp add: rank)
      from Cons.IH [OF tail this, of "Suc i"] show ?thesis using True by (simp add: m copy)
    next
      case False
      then have "route_rank r < unat score" by (simp add: word_le_nat_alt rank not_le)
      with False show ?thesis by (intro skip) (simp_all add: m)
    qed
  qed
qed


lemma method_normalize_Inr:
  assumes "ducknng_http_route_method_normalize_dup mem meth = Inr norm"
  obtains m where "meth = Some m" "norm = map ascii_upper m" "ducknng_http_token_is_valid (Some norm)"
  using assms by (cases meth) (auto simp: ducknng_http_route_method_normalize_dup_def Let_def split: if_splits)

text \<open>Kinds first (exact, template, prefix), then the longer pattern.\<close>

definition outranked :: "http_route \<Rightarrow> http_route \<Rightarrow> bool" where
  "outranked s r \<longleftrightarrow> kind_rank (rt_kind s) < kind_rank (rt_kind r) \<or>
     kind_rank (rt_kind s) = kind_rank (rt_kind r) \<and> length (deref (rt_path s)) < length (deref (rt_path r))"

lemma route_rank_less:
  assumes "length (deref (rt_path s)) < 2 ^ 32" "length (deref (rt_path r)) < 2 ^ 32"
  shows "route_rank s < route_rank r \<longleftrightarrow> outranked s r"
  using assms by (cases "rt_kind s"; cases "rt_kind r") (simp_all add: route_rank_def outranked_def kind_rank_def)


definition sample_route :: "match_kind \<Rightarrow> string \<Rightarrow> http_route" where
  "sample_route kind path = blank_route\<lparr>rt_kind := kind, rt_method := Some ''GET'', rt_path := Some path, handler_sql := Some ''q''\<rparr>"

definition sample_router :: router where
  "sample_router = \<lparr> listen_url = Some ''http://h:80/rpc'', recv_max_bytes = 1000,
     http_routes = [sample_route MATCH_EXACT ''/a/b'', sample_route MATCH_TEMPLATE ''/a/{x}''],
     http_route_cap = 4, next_http_route_id = 3 \<rparr>"



section \<open>The invariant of the route table\<close>

text \<open>What does not depend on the memory: a match that ends without an allocation failure.\<close>

lemma json_buf_append_mono:
  "ducknng_http_route_json_buf_append mem b src = Some b' \<Longrightarrow> ducknng_http_route_json_buf_append (\<lambda>_. True) b src = Some b'"
  by (auto simp: ducknng_http_route_json_buf_append_def Let_def split: option.splits prod.splits if_splits)

lemma route_append_escaped_mono:
  "route_append_escaped mem b src = Some b' \<Longrightarrow> route_append_escaped (\<lambda>_. True) b src = Some b'"
proof (induction src arbitrary: b)
  case Nil
  then show ?case by (simp add: json_buf_append_mono)
next
  case (Cons c src)
  then obtain b1 where "ducknng_http_route_json_buf_append mem b (route_escape c) = Some b1" "route_append_escaped mem b1 src = Some b'"
    by (auto simp: bind_eq_Some_conv)
  with Cons.IH show ?case by (simp add: json_buf_append_mono)
qed

lemma route_append_string_mono:
  assumes "ducknng_http_route_json_append_string mem b src = Some b'"
  shows "ducknng_http_route_json_append_string (\<lambda>_. True) b src = Some b'"
proof -
  from assms obtain b1 where "ducknng_http_route_json_buf_append mem b [QUOTE] = Some b1" "route_append_escaped mem b1 src = Some b'"
    by (auto simp: ducknng_http_route_json_append_string_def bind_eq_Some_conv)
  then show ?thesis
    by (simp add: ducknng_http_route_json_append_string_def json_buf_append_mono route_append_escaped_mono)
qed

lemma opt_append_mono:
  "(if P then ducknng_http_route_json_buf_append mem b src else Some b) = Some b' \<Longrightarrow>
   (if P then ducknng_http_route_json_buf_append (\<lambda>_. True) b src else Some b) = Some b'"
  by (cases P) (simp_all add: json_buf_append_mono)

lemma append_param_mono:
  assumes "append_param mem st k v = Some st'"
  shows "append_param (\<lambda>_. True) st k v = Some st'"
proof -
  obtain b first where st: "st = (b, first)" by (cases st)
  with assms obtain b1 b2 b3 b4 b5 where
    "(if b = None then ducknng_http_route_json_buf_append mem b ''{'' else Some b) = Some b1"
    "(if \<not> first then ducknng_http_route_json_buf_append mem b1 '','' else Some b1) = Some b2"
    "ducknng_http_route_json_append_string mem b2 k = Some b3" "ducknng_http_route_json_buf_append mem b3 '':'' = Some b4"
    "ducknng_http_route_json_append_string mem b4 v = Some b5" "st' = (b5, False)"
    unfolding append_param_def Let_def st prod.case bind_eq_Some_conv option.inject by blast
  note parts = this
  show ?thesis
    unfolding append_param_def Let_def st prod.case bind_eq_Some_conv
    using opt_append_mono [OF parts(1)] opt_append_mono [OF parts(2)] route_append_string_mono [OF parts(3)]
      json_buf_append_mono [OF parts(4)] route_append_string_mono [OF parts(5)] parts(6) by blast
qed

lemma template_loop_mono:
  assumes "template_loop mem st pat req \<noteq> Match_error"
  shows "template_loop (\<lambda>_. True) st pat req = template_loop mem st pat req"
  using assms
proof (induction "length pat" arbitrary: st pat req rule: less_induct)
  case less
  obtain p p' r r' where eqs: "p = seg_of (skip_slash pat)" "p' = after_seg (skip_slash pat)"
    "r = seg_of (skip_slash req)" "r' = after_seg (skip_slash req)" by blast
  note step = template_loop_round(1) [OF eqs] and shorter = template_loop_round(3) [OF eqs]
  have IH: "template_loop (\<lambda>_. True) st' p' r' = template_loop mem st' p' r'"
    if "p \<noteq> []" "template_loop mem st' p' r' \<noteq> Match_error" for st'
    using less.hyps [OF shorter [OF that(1)] that(2)] .
  show ?case
  proof (cases "append_param mem st (butlast (tl p)) r")
    case None
    with less.prems IH show ?thesis unfolding step by (auto split: if_splits)
  next
    case (Some st')
    with less.prems IH append_param_mono [OF Some] show ?thesis unfolding step by (auto split: if_splits)
  qed
qed

lemma pattern_matches_mono:
  assumes "ducknng_http_route_pattern_matches mem kind pattern path = No_match"
  shows "ducknng_http_route_pattern_matches (\<lambda>_. True) kind pattern path = No_match"
proof (cases "kind = MATCH_TEMPLATE \<and> pattern \<noteq> None \<and> path \<noteq> None")
  case True
  then have "ducknng_http_route_template_matches mem (the pattern) (the path) = No_match"
    using assms by (simp add: ducknng_http_route_pattern_matches_def del: not_None_eq)
  then have "template_loop mem (None, True) (the pattern) (the path) = No_match"
    by (auto simp: ducknng_http_route_template_matches_def split: matched.splits option.splits prod.splits if_splits)
  with template_loop_mono [of mem "(None, True)" "the pattern" "the path"]
  have "ducknng_http_route_template_matches (\<lambda>_. True) (the pattern) (the path) = No_match"
    by (simp add: ducknng_http_route_template_matches_def)
  with True show ?thesis by (simp add: ducknng_http_route_pattern_matches_def del: not_None_eq)
next
  case False
  with assms show ?thesis
    by (cases kind; cases pattern; cases path) (simp_all add: ducknng_http_route_pattern_matches_def)
qed


abbreviation route_key :: "http_route \<Rightarrow> match_kind \<times> cstring \<times> cstring" where
  "route_key r \<equiv> (rt_kind r, rt_method r, rt_path r)"

definition route_ok :: "(string \<Rightarrow> cstring) \<Rightarrow> router \<Rightarrow> http_route \<Rightarrow> bool" where
  "route_ok url_path svc r \<longleftrightarrow>
     rt_method r \<noteq> None \<and> map ascii_upper (deref (rt_method r)) = deref (rt_method r) \<and> ducknng_http_token_is_valid (rt_method r) \<and>
     rt_path r \<noteq> None \<and> ducknng_http_route_pattern_valid (rt_kind r) (deref (rt_path r)) = None \<and>
     ducknng_http_route_pattern_matches (\<lambda>_. True) (rt_kind r) (rt_path r) (ducknng_service_http_mount_path url_path svc) = No_match \<and>
     handler_sql r \<noteq> None \<and> request_max_bytes r \<le> recv_max_bytes svc \<and>
     (rt_response r = RESPONSE_EVENTS \<longrightarrow>
        rt_kind r = MATCH_EXACT \<and> rt_method r = Some ''GET'' \<and> 100 \<le> event_heartbeat_ms r \<and> event_heartbeat_ms r \<le> 300000) \<and>
     (rt_response r = RESPONSE_STREAM \<longrightarrow> rt_kind r = MATCH_EXACT \<and> nonempty (stream_content_type r)) \<and>
     (static_dir_path r \<noteq> None \<longrightarrow> rt_kind r = MATCH_PREFIX \<and> rt_method r = Some ''GET'')"

definition router_inv :: "(string \<Rightarrow> cstring) \<Rightarrow> router \<Rightarrow> bool" where
  "router_inv url_path svc \<longleftrightarrow> distinct (map route_key (http_routes svc)) \<and>
     list_all (route_ok url_path svc) (http_routes svc) \<and> length (http_routes svc) \<le> http_route_cap svc"

inductive router_step :: "(string \<Rightarrow> cstring) \<Rightarrow> router \<Rightarrow> router \<Rightarrow> bool" for url_path where
  step_register: "ducknng_service_register_http_route url_path mem ok s meth path sql max_bytes = (res, t) \<Longrightarrow> router_step url_path s t"
| step_register_pattern:
    "ducknng_service_register_http_route_pattern url_path mem ok s meth kind path sql max_bytes = (res, t) \<Longrightarrow> router_step url_path s t"
| step_register_event:
    "ducknng_service_register_http_event_route url_path mem ok s path sql heartbeat = (res, t) \<Longrightarrow> router_step url_path s t"
| step_register_stream:
    "ducknng_service_register_http_stream_route url_path mem ok s meth path sql ct max_bytes = (res, t) \<Longrightarrow> router_step url_path s t"
| step_register_static:
    "ducknng_register_http_static_scalar url_path mem ok ok' s path_prefix dir_path = (res, t) \<Longrightarrow> router_step url_path s t"
| step_unregister: "ducknng_service_unregister_http_route mem s meth path = (gone, t) \<Longrightarrow> router_step url_path s t"
| step_unregister_pattern:
    "ducknng_service_unregister_http_route_pattern mem s meth kind path = (gone, t) \<Longrightarrow> router_step url_path s t"
| step_set_auth: "ducknng_service_set_http_route_auth ok s meth path req allow = (res, t) \<Longrightarrow> router_step url_path s t"

definition router_init :: "router \<Rightarrow> bool" where
  "router_init svc \<longleftrightarrow> http_routes svc = []"

lemma route_ok_cong:
  assumes "listen_url s = listen_url t" "recv_max_bytes s = recv_max_bytes t"
  shows "route_ok url_path s = route_ok url_path t"
  using assms by (simp add: fun_eq_iff route_ok_def ducknng_service_http_mount_path_def)

text \<open>What registration does: it fails and leaves the routes, or appends one new route.\<close>

definition registered :: "u64 \<Rightarrow> match_kind \<Rightarrow> u64 \<Rightarrow> string \<Rightarrow> cstring \<Rightarrow> cstring \<Rightarrow> http_route" where
  "registered rid kind max_bytes norm path sql =
     blank_route\<lparr>route_id := rid, rt_kind := kind, request_max_bytes := max_bytes, rt_method := Some norm,
       rt_path := path, handler_sql := sql\<rparr>"

lemma dup_None_iff: "dup ok i x \<noteq> None \<Longrightarrow> dup ok i x = x"
  by (auto simp: dup_def split: option.splits if_splits)

lemma route_checks_Inr:
  assumes "route_checks url_path mem svc meth kind path sql max_bytes = Inr norm"
  obtains m p where "meth = Some m" "path = Some p" "sql \<noteq> None" "norm = map ascii_upper m" "ducknng_http_token_is_valid (Some norm)"
    "ducknng_http_route_pattern_valid kind p = None" "max_bytes \<le> recv_max_bytes svc"
    "ducknng_http_route_pattern_matches (\<lambda>_. True) kind path (ducknng_service_http_mount_path url_path svc) = No_match"
proof -
  obtain m p where some: "meth = Some m" "path = Some p" "sql \<noteq> None"
    using assms by (cases meth; cases path; cases sql) (simp_all add: route_checks_def)
  with assms have "ducknng_http_route_pattern_valid kind p = None" "max_bytes \<le> recv_max_bytes svc"
    "ducknng_http_route_pattern_matches mem kind path (ducknng_service_http_mount_path url_path svc) = No_match"
    "ducknng_http_route_method_normalize_dup mem meth = Inr norm"
    by (auto simp: route_checks_def split: sum.splits if_splits option.splits matched.splits)
  moreover from this(4) have "norm = map ascii_upper m" "ducknng_http_token_is_valid (Some norm)"
    by (rule method_normalize_Inr; use some in simp)+
  ultimately show ?thesis using some by (intro that) (auto intro: pattern_matches_mono)
qed

lemma routes_reserve_cases:
  obtains (full) err where "ducknng_service_http_routes_reserve g svc want = (Some err, svc)"
  | (room) cap where "ducknng_service_http_routes_reserve g svc want = (None, svc\<lparr>http_route_cap := cap\<rparr>)" "want \<le> cap"
proof (cases "want \<le> http_route_cap svc")
  case True
  moreover have "svc\<lparr>http_route_cap := http_route_cap svc\<rparr> = svc" by (cases svc) simp
  ultimately show ?thesis by (intro room [of "http_route_cap svc"]) (simp_all add: ducknng_service_http_routes_reserve_def)
next
  case False
  with full room double_until_ge [of "if http_route_cap svc \<noteq> 0 then http_route_cap svc * 2 else 4" want] show ?thesis
    by (cases g) (simp_all add: ducknng_service_http_routes_reserve_def Let_def split: if_splits)
qed

lemma register_inner_cases:
  assumes "ducknng_service_register_http_route_inner url_path mem ok svc meth kind path sql max_bytes = (res, t)"
  obtains (fails) err nid where "res = Some err" "t = svc\<lparr>next_http_route_id := nid\<rparr>"
  | (registers) norm cap where "res = None" "route_checks url_path mem svc meth kind path sql max_bytes = Inr norm"
      "\<not> list_ex (same_route kind norm (the path)) (http_routes svc)" "length (http_routes svc) < cap"
      "t = svc\<lparr>next_http_route_id := next_http_route_id svc + 1, http_route_cap := cap,
         http_routes := http_routes svc @ [registered (next_http_route_id svc) kind max_bytes norm path sql]\<rparr>"
proof (cases "route_checks url_path mem svc meth kind path sql max_bytes")
  case (Inl err)
  with assms show ?thesis by (intro fails [of err "next_http_route_id svc"]) (simp_all add: ducknng_service_register_http_route_inner_def)
next
  case (Inr norm)
  note reg = ducknng_service_register_http_route_inner_def [of url_path mem ok svc meth kind path sql max_bytes, unfolded Inr sum.case Let_def]
  let ?n = "next_http_route_id svc"
  have fail: thesis if "(Some err, svc\<lparr>next_http_route_id := ?n + 1\<rparr>) = (res, t)" for err
    using that by (intro fails [of err "?n + 1"]) auto
  show ?thesis
  proof (cases "dup ok 0 path = None \<or> dup ok 1 sql = None \<or> list_ex (same_route kind norm (the path)) (http_routes svc)")
    case True
    with assms show ?thesis unfolding reg by (auto split: if_splits intro: fail)
  next
    case False
    then have dups: "dup ok 0 path = path" "dup ok 1 sql = sql" by (auto intro: dup_None_iff)
    show ?thesis
    proof (rule routes_reserve_cases [of "ok 2" "svc\<lparr>next_http_route_id := ?n + 1\<rparr>" "length (http_routes svc) + 1"])
      fix err
      assume "ducknng_service_http_routes_reserve (ok 2) (svc\<lparr>next_http_route_id := ?n + 1\<rparr>) (length (http_routes svc) + 1) =
        (Some err, svc\<lparr>next_http_route_id := ?n + 1\<rparr>)"
      with assms False show ?thesis unfolding reg by (intro fail [of err]) auto
    next
      fix cap
      assume "ducknng_service_http_routes_reserve (ok 2) (svc\<lparr>next_http_route_id := ?n + 1\<rparr>) (length (http_routes svc) + 1) =
        (None, svc\<lparr>next_http_route_id := ?n + 1, http_route_cap := cap\<rparr>)" "length (http_routes svc) + 1 \<le> cap"
      with assms False dups Inr show ?thesis unfolding reg by (intro registers [of norm cap]) (auto simp: registered_def)
    qed
  qed
qed


lemma registered_ok:
  assumes "route_checks url_path mem svc meth kind path sql max_bytes = Inr norm"
  shows "route_ok url_path svc (registered rid kind max_bytes norm path sql)"
  by (rule route_checks_Inr [OF assms])
    (simp add: route_ok_def registered_def blank_route_def ascii_upper_idem)

lemma router_inv_next: "router_inv url_path (svc\<lparr>next_http_route_id := n\<rparr>) = router_inv url_path svc"
  unfolding router_inv_def using route_ok_cong [of "svc\<lparr>next_http_route_id := n\<rparr>" svc url_path] by simp

lemma router_inv_register_inner:
  assumes inv: "router_inv url_path svc"
    and reg: "ducknng_service_register_http_route_inner url_path mem ok svc meth kind path sql max_bytes = (res, t)"
  shows "router_inv url_path t"
  using reg
proof (cases rule: register_inner_cases)
  case (fails err nid)
  then show ?thesis using inv by (simp add: router_inv_next)
next
  case (registers norm cap)
  let ?r = "registered (next_http_route_id svc) kind max_bytes norm path sql"
  have eq: "listen_url svc = listen_url t" "recv_max_bytes svc = recv_max_bytes t" by (simp_all add: registers(5))
  obtain p where p: "path = Some p" by (rule route_checks_Inr [OF registers(2)])
  have "route_ok url_path t ?r" using registered_ok [OF registers(2)] route_ok_cong [OF eq, of url_path] by simp
  moreover have "list_all (route_ok url_path t) (http_routes svc)"
    using inv route_ok_cong [OF eq, of url_path] by (simp add: router_inv_def)
  moreover have "route_key ?r \<notin> set (map route_key (http_routes svc))"
    using registers(3) by (auto simp: p registered_def same_route_def list_ex_iff)
  ultimately show ?thesis
    using inv registers(4) by (auto simp: router_inv_def registers(5))
qed

lemma router_inv_update:
  assumes inv: "router_inv url_path svc" and upd: "update_route P f svc = (found, t)"
    and keep: "\<And>r. P r \<Longrightarrow> route_ok url_path svc r \<Longrightarrow> route_ok url_path svc (f r) \<and> route_key (f r) = route_key r"
  shows "router_inv url_path t"
proof (cases "find_idx P (http_routes svc)")
  case None
  with upd inv show ?thesis by (simp add: update_route_def del: find_idx_None)
next
  case (Some i)
  note i = find_idx_SomeD [OF Some]
  let ?r = "http_routes svc ! i"
  have t: "t = svc\<lparr>http_routes := (http_routes svc)[i := f ?r]\<rparr>" using upd Some by (simp add: update_route_def)
  have "route_ok url_path svc ?r" using inv i(3) by (simp add: router_inv_def list_all_iff)
  note k = keep [OF i(2) this]
  have cong: "route_ok url_path t = route_ok url_path svc" by (rule route_ok_cong) (simp_all add: t)
  have "map route_key (http_routes t) = map route_key (http_routes svc)"
    using i(1) k by (simp add: t map_update list_update_same_conv)
  moreover have "list_all (route_ok url_path svc) (http_routes t)"
    using inv k by (auto simp: t router_inv_def list_all_iff dest: subsetD [OF set_update_subset_insert])
  ultimately show ?thesis using inv by (simp add: router_inv_def cong) (simp add: t)
qed

lemma router_inv_unregister_inner:
  assumes inv: "router_inv url_path svc" and "ducknng_service_unregister_http_route_inner mem svc meth kind path = (gone, t)"
  shows "router_inv url_path t"
proof -
  obtain i where t: "t = svc \<or> t = svc\<lparr>http_routes := remove_nth i (http_routes svc)\<rparr> \<and> i < length (http_routes svc)"
    using assms(2) by (auto simp: ducknng_service_unregister_http_route_inner_def dest: find_idx_SomeD split: if_splits sum.splits option.splits)
  show ?thesis
  proof (cases "t = svc")
    case False
    with t have t: "t = svc\<lparr>http_routes := remove_nth i (http_routes svc)\<rparr>" "i < length (http_routes svc)" by blast+
    have cong: "route_ok url_path t = route_ok url_path svc" by (rule route_ok_cong) (simp_all add: t)
    have "list_all (route_ok url_path svc) (remove_nth i (http_routes svc))"
      using inv set_remove_nth_subset [of i "http_routes svc"] by (auto simp: router_inv_def list_all_iff)
    with inv show ?thesis
      using length_remove_nth [OF t(2)] unfolding router_inv_def cong
      by (simp add: t(1) map_remove_nth distinct_remove_nth)
  qed (use inv in simp)
qed

lemma router_inv_auth:
  assumes "router_inv url_path svc" "ducknng_service_set_http_route_auth ok svc meth path req allow = (res, t)"
  shows "router_inv url_path t"
proof (cases "meth = None \<or> path = None")
  case True
  with assms show ?thesis by (auto simp: ducknng_service_set_http_route_auth_def)
next
  case False
  define f where "f r = r\<lparr>auth_require_identity := req,
    auth_allow_identities_json := (if nonempty allow then dup ok 0 allow else None)\<rparr>" for r :: http_route
  obtain found u where u: "update_route (\<lambda>r. rt_method r = meth \<and> rt_path r = path) f svc = (found, u)"
    by (cases "update_route (\<lambda>r. rt_method r = meth \<and> rt_path r = path) f svc")
  from assms(2) False u have "t = u"
    by (auto simp: ducknng_service_set_http_route_auth_def f_def [abs_def] split: bool.splits if_splits)
  moreover have "router_inv url_path u"
    by (rule router_inv_update [OF assms(1) u]) (simp add: f_def route_ok_def)
  ultimately show ?thesis by simp
qed


lemma router_inv_event:
  assumes "router_inv url_path svc" "ducknng_service_register_http_event_route url_path mem ok svc path sql heartbeat = (res, t)"
  shows "router_inv url_path t"
proof (cases "heartbeat < 100 \<or> heartbeat > 300000")
  case True
  with assms show ?thesis by (auto simp: ducknng_service_register_http_event_route_def)
next
  case False
  obtain r u where reg: "ducknng_service_register_http_route_inner url_path mem ok svc (Some ''GET'') MATCH_EXACT path sql 0 = (r, u)"
    by (cases "ducknng_service_register_http_route_inner url_path mem ok svc (Some ''GET'') MATCH_EXACT path sql 0")
  note inv = router_inv_register_inner [OF assms(1) reg]
  define f where "f r = r\<lparr>rt_response := RESPONSE_EVENTS, event_heartbeat_ms := heartbeat\<rparr>" for r :: http_route
  obtain found v where upd: "update_route (same_route MATCH_EXACT ''GET'' (the path)) f u = (found, v)"
    by (cases "update_route (same_route MATCH_EXACT ''GET'' (the path)) f u")
  have "router_inv url_path v"
    by (rule router_inv_update [OF inv upd]) (use False in \<open>auto simp: f_def route_ok_def same_route_def not_less\<close>)
  moreover have "t = u \<or> t = v"
    using assms(2) False reg upd
    by (auto simp: ducknng_service_register_http_event_route_def f_def [abs_def] split: option.splits bool.splits)
  ultimately show ?thesis using inv by blast
qed

lemma router_inv_stream:
  assumes "router_inv url_path svc"
    and "ducknng_service_register_http_stream_route url_path mem ok svc meth path sql ct max_bytes = (res, t)"
  shows "router_inv url_path t"
proof -
  obtain r u where reg: "ducknng_service_register_http_route_inner url_path mem ok svc meth MATCH_EXACT path sql max_bytes = (r, u)"
    by (cases "ducknng_service_register_http_route_inner url_path mem ok svc meth MATCH_EXACT path sql max_bytes")
  note inv = router_inv_register_inner [OF assms(1) reg]
  let ?ct = "if nonempty ct then ct else Some ''text/event-stream; charset=utf-8''"
  have ne: "nonempty ?ct" by simp
  obtain gone w where un: "ducknng_service_unregister_http_route_inner mem u meth MATCH_EXACT path = (gone, w)"
    by (cases "ducknng_service_unregister_http_route_inner mem u meth MATCH_EXACT path")
  note inv' = router_inv_unregister_inner [OF inv un]
  show ?thesis
  proof (cases "r = None \<and> dup ok 3 ?ct \<noteq> None")
    case False
    then have "t = u \<or> t = w"
      using assms(2) reg un
      by (auto simp: ducknng_service_register_http_stream_route_def ducknng_service_unregister_http_route_def split: option.splits)
    then show ?thesis using inv inv' by blast
  next
    case True
    define f where "f r = r\<lparr>rt_response := RESPONSE_STREAM, stream_content_type := ?ct\<rparr>" for r :: http_route
    obtain found v where upd: "update_route (same_route MATCH_EXACT (the meth) (the path)) f u = (found, v)"
      by (cases "update_route (same_route MATCH_EXACT (the meth) (the path)) f u")
    have "t = v"
      using assms(2) reg upd True dup_None_iff [of ok 3 ?ct]
      by (auto simp: ducknng_service_register_http_stream_route_def f_def [abs_def] split: option.splits)
    moreover have "router_inv url_path v"
      by (rule router_inv_update [OF inv upd]) (use ne in \<open>auto simp: f_def route_ok_def same_route_def\<close>)
    ultimately show ?thesis by simp
  qed
qed

lemma router_inv_static:
  assumes "router_inv url_path svc"
    and "ducknng_register_http_static_scalar url_path mem ok ok' svc path_prefix dir_path = (res, t)"
  shows "router_inv url_path t"
proof -
  have kind: "ducknng_http_route_match_kind_parse (Some ''prefix'') = Inr MATCH_PREFIX" by code_simp
  obtain r u where reg: "ducknng_service_register_http_route_inner url_path mem ok svc (Some ''GET'') MATCH_PREFIX (Some path_prefix) (Some '''') 0 = (r, u)"
    by (cases "ducknng_service_register_http_route_inner url_path mem ok svc (Some ''GET'') MATCH_PREFIX (Some path_prefix) (Some '''') 0")
  note inv = router_inv_register_inner [OF assms(1) reg]
  obtain a v where auth: "ducknng_service_set_http_route_auth ok' u (Some ''GET'') (Some path_prefix) False None = (a, v)"
    by (cases "ducknng_service_set_http_route_auth ok' u (Some ''GET'') (Some path_prefix) False None")
  note inv' = router_inv_auth [OF inv auth]
  define f where "f r = r\<lparr>static_dir_path := Some dir_path\<rparr>" for r :: http_route
  obtain found w where upd: "update_route (same_route MATCH_PREFIX ''GET'' path_prefix) f v = (found, w)"
    by (cases "update_route (same_route MATCH_PREFIX ''GET'' path_prefix) f v")
  have "router_inv url_path w"
    by (rule router_inv_update [OF inv' upd]) (auto simp: f_def route_ok_def same_route_def)
  moreover have "t = u \<or> t = v \<or> t = w"
    using assms(2) reg auth upd
    by (auto simp: ducknng_register_http_static_scalar_def ducknng_service_register_http_route_pattern_def kind f_def [abs_def]
        split: option.splits)
  ultimately show ?thesis using inv inv' by blast
qed

lemmas router_inv_ops = router_inv_register_inner router_inv_unregister_inner router_inv_auth router_inv_event router_inv_stream
  router_inv_static

interpretation routing: machine router_init "router_step url_path" "router_inv url_path" for url_path
proof unfold_locales
  fix s
  assume "router_init s"
  then show "router_inv url_path s" by (simp add: router_init_def router_inv_def)
next
  fix s t
  assume "router_inv url_path s" "router_step url_path s t"
  from this(2,1) show "router_inv url_path t"
    by cases (auto simp: ducknng_service_register_http_route_def ducknng_service_register_http_route_pattern_def
        ducknng_service_unregister_http_route_def ducknng_service_unregister_http_route_pattern_def
        split: sum.splits intro: router_inv_ops)
qed



definition sample_mount :: "string \<Rightarrow> cstring" where
  "sample_mount url = Some ''/rpc''"

definition sample_empty :: router where
  "sample_empty = sample_router\<lparr>http_routes := [], http_route_cap := 0, next_http_route_id := 1\<rparr>"


section \<open>Modes and authentication of a route\<close>

lemma find_idx_new:
  assumes "\<not> list_ex P xs" "P x"
  shows "find_idx P (xs @ [x]) = Some (length xs)"
  using assms by (auto simp: find_idx_append_None list_ex_iff)

text \<open>
  C31. The mode of a stream route. A successful registration of a stream route appends one route. It answers as a stream, with
  the requested content type or the default, exactly when the caller wrote the method in upper case; for any other spelling,
  which registration accepts, the route is an ordinary one-shot route and the success is reported all the same.
\<close>

theorem stream_route_mode:
  assumes "reachable router_init (router_step url_path) svc"
    and "ducknng_service_register_http_stream_route url_path mem ok svc (Some m) (Some p) sql ct max_bytes = (None, t)"
  shows "\<exists>r. http_routes t = http_routes svc @ [r] \<and> rt_method r = Some (map ascii_upper m) \<and> rt_path r = Some p \<and>
    (if map ascii_upper m = m
     then rt_response r = RESPONSE_STREAM \<and>
       stream_content_type r = (if nonempty ct then ct else Some ''text/event-stream; charset=utf-8'')
     else rt_response r = RESPONSE_ONESHOT \<and> stream_content_type r = None)"
proof -
  obtain res u where reg: "ducknng_service_register_http_route_inner url_path mem ok svc (Some m) MATCH_EXACT (Some p) sql max_bytes = (res, u)"
    by (cases "ducknng_service_register_http_route_inner url_path mem ok svc (Some m) MATCH_EXACT (Some p) sql max_bytes")
  let ?ct = "if nonempty ct then ct else Some ''text/event-stream; charset=utf-8''"
  let ?P = "same_route MATCH_EXACT m p" and ?f = "\<lambda>r. r\<lparr>rt_response := RESPONSE_STREAM, stream_content_type := ?ct\<rparr>"
  have ct: "dup ok 3 ?ct \<noteq> None" and res: "res = None"
    using assms(2) reg by (auto simp: ducknng_service_register_http_stream_route_def split: option.splits)
  then have t: "t = snd (update_route ?P ?f u)"
    using assms(2) reg dup_None_iff [OF ct]
    by (auto simp: ducknng_service_register_http_stream_route_def split: option.splits)
  from reg res obtain norm cap where r: "route_checks url_path mem svc (Some m) MATCH_EXACT (Some p) sql max_bytes = Inr norm"
    "\<not> list_ex (same_route MATCH_EXACT norm p) (http_routes svc)"
    "http_routes u = http_routes svc @ [registered (next_http_route_id svc) MATCH_EXACT max_bytes norm (Some p) sql]"
    by (cases rule: register_inner_cases) auto
  let ?r = "registered (next_http_route_id svc) MATCH_EXACT max_bytes norm (Some p) sql"
  have norm: "norm = map ascii_upper m" by (rule route_checks_Inr [OF r(1)]) simp
  have fields: "rt_method ?r = Some norm" "rt_path ?r = Some p" "rt_response ?r = RESPONSE_ONESHOT" "stream_content_type ?r = None"
    "rt_kind ?r = MATCH_EXACT"
    by (simp_all add: registered_def blank_route_def)
  show ?thesis
  proof (cases "map ascii_upper m = m")
    case True
    then have "?P ?r" "\<not> list_ex ?P (http_routes svc)" using r(2) norm fields by (simp_all add: same_route_def)
    from find_idx_new [OF this(2,1)] have "http_routes t = http_routes svc @ [?f ?r]"
      by (simp add: t update_route_def r(3))
    with True norm fields show ?thesis by simp
  next
    case False
    have "\<not> ?P x" if "x \<in> set (http_routes u)" for x
    proof -
      have "router_inv url_path u"
        by (rule router_inv_register_inner [OF routing.reachable_inv [OF assms(1)] reg])
      with that have "map ascii_upper (deref (rt_method x)) = deref (rt_method x)"
        by (simp add: router_inv_def list_all_iff route_ok_def)
      with False show ?thesis by (auto simp: same_route_def)
    qed
    then have "find_idx ?P (http_routes u) = None" by simp
    then have "http_routes t = http_routes svc @ [?r]" by (simp add: t update_route_def r(3) del: find_idx_None)
    with False norm fields show ?thesis by simp
  qed
qed

theorem stream_route_mode_witness:
  "\<exists>t r. ducknng_service_register_http_stream_route sample_mount (\<lambda>_. True) (\<lambda>_. True) sample_empty (Some ''get'') (Some ''/a'')
      (Some ''q'') None 5 = (None, t) \<and> http_routes t = [r] \<and> rt_method r = Some ''GET'' \<and> rt_response r = RESPONSE_ONESHOT"
proof -
  obtain res t where t: "ducknng_service_register_http_stream_route sample_mount (\<lambda>_. True) (\<lambda>_. True) sample_empty (Some ''get'') (Some ''/a'')
      (Some ''q'') None 5 = (res, t)"
    by (cases "ducknng_service_register_http_stream_route sample_mount (\<lambda>_. True) (\<lambda>_. True) sample_empty (Some ''get'') (Some ''/a'')
      (Some ''q'') None 5")
  have "fst (ducknng_service_register_http_stream_route sample_mount (\<lambda>_. True) (\<lambda>_. True) sample_empty (Some ''get'') (Some ''/a'')
      (Some ''q'') None 5) = None" by code_simp
  with t have t: "ducknng_service_register_http_stream_route sample_mount (\<lambda>_. True) (\<lambda>_. True) sample_empty (Some ''get'') (Some ''/a'')
      (Some ''q'') None 5 = (None, t)" by simp
  have init: "reachable router_init (router_step sample_mount) sample_empty"
    by (rule reach_init) (simp add: router_init_def sample_empty_def)
  have up: "map ascii_upper ''get'' = ''GET''" by code_simp
  have none: "http_routes sample_empty = []" by (simp add: sample_empty_def)
  from stream_route_mode [OF init t, unfolded up none] t show ?thesis by auto
qed


definition auth_target :: "router \<Rightarrow> string \<Rightarrow> string \<Rightarrow> nat option" where
  "auth_target svc m p = find_idx (\<lambda>r. rt_method r = Some m \<and> rt_path r = Some p) (http_routes svc)"

lemma set_auth_found:
  assumes "auth_target svc m p = Some i"
  shows "ducknng_service_set_http_route_auth ok svc (Some m) (Some p) req allow =
    (if nonempty allow \<and> dup ok 0 allow = None then Some ''ducknng: out of memory for identities JSON'' else None,
     svc\<lparr>http_routes := (http_routes svc)[i := (http_routes svc ! i)\<lparr>auth_require_identity := req,
       auth_allow_identities_json := (if nonempty allow then dup ok 0 allow else None)\<rparr>]\<rparr>)"
  using assms by (simp add: auth_target_def ducknng_service_set_http_route_auth_def update_route_def)

lemma auth_refusal_open:
  "auth_allow_identities_json r = None \<Longrightarrow> route_auth_refusal mem r who =
    (if auth_require_identity r \<and> \<not> nonempty who then Some (401, ''ducknng: route requires caller identity'') else None)"
  by (simp add: route_auth_refusal_def)

lemma static_keeps_auth:
  assumes "i < length (http_routes v)"
  shows "auth_require_identity (http_routes (snd (update_route P (\<lambda>r. r\<lparr>static_dir_path := d\<rparr>) v)) ! i) = auth_require_identity (http_routes v ! i)"
    "auth_allow_identities_json (http_routes (snd (update_route P (\<lambda>r. r\<lparr>static_dir_path := d\<rparr>) v)) ! i) = auth_allow_identities_json (http_routes v ! i)"
  using assms by (auto simp: update_route_def nth_list_update dest!: find_idx_SomeD(1) split: option.split if_splits)

lemma static_clears_auth:
  assumes target: "auth_target t ''GET'' p = Some i"
    and static: "ducknng_register_http_static_scalar url_path mem ok1 ok2 t p d = (None, u)"
  shows "route_auth_refusal mem (http_routes u ! i) who = None"
proof -
  have kind: "ducknng_http_route_match_kind_parse (Some ''prefix'') = Inr MATCH_PREFIX" by code_simp
  obtain r1 v where reg: "ducknng_service_register_http_route_inner url_path mem ok1 t (Some ''GET'') MATCH_PREFIX (Some p) (Some '''') 0 = (r1, v)"
    by (cases "ducknng_service_register_http_route_inner url_path mem ok1 t (Some ''GET'') MATCH_PREFIX (Some p) (Some '''') 0")
  have r1: "r1 = None" using static reg
    by (auto simp: ducknng_register_http_static_scalar_def ducknng_service_register_http_route_pattern_def kind split: option.splits)
  from reg r1 obtain new where new: "http_routes v = http_routes t @ [new]" by (cases rule: register_inner_cases) auto
  have "auth_target v ''GET'' p = Some i"
    using target by (simp add: auth_target_def new find_idx_append_Some)
  note set_auth = set_auth_found [OF this, of ok2 False None]
  let ?w = "v\<lparr>http_routes := (http_routes v)[i := (http_routes v ! i)\<lparr>auth_require_identity := False, auth_allow_identities_json := None\<rparr>]\<rparr>"
  have u: "u = snd (update_route (same_route MATCH_PREFIX ''GET'' p) (\<lambda>r. r\<lparr>static_dir_path := Some d\<rparr>) ?w)"
    using static reg r1 set_auth
    by (simp add: ducknng_register_http_static_scalar_def ducknng_service_register_http_route_pattern_def kind)
  have "i < length (http_routes v)" using target by (auto simp: auth_target_def new dest!: find_idx_SomeD(1))
  then show ?thesis
    using static_keeps_auth [of i ?w] by (simp add: u auth_refusal_open)
qed




end
