(* ===== verification/StaticFiles.thy ===== *)
theory StaticFiles
  imports Routes
begin

text \<open>
  Static files (\<open>ducknng_service.c\<close>): the relative path of a request under a route that serves a directory, the traversal
  check, the content type, and the reply. The file system is a parameter.
\<close>

definition ducknng_static_mime_for_ext :: "cstring \<Rightarrow> string" where
  "ducknng_static_mime_for_ext ext =
     (if ext = None then ''application/octet-stream''
      else if the ext \<in> {''html'', ''htm''} then ''text/html''
      else if the ext = ''css'' then ''text/css''
      else if the ext = ''js'' then ''application/javascript''
      else if the ext = ''json'' then ''application/json''
      else if the ext = ''txt'' then ''text/plain''
      else if the ext = ''png'' then ''image/png''
      else if the ext \<in> {''jpg'', ''jpeg''} then ''image/jpeg''
      else if the ext = ''gif'' then ''image/gif''
      else if the ext = ''svg'' then ''image/svg+xml''
      else if the ext = ''ico'' then ''image/x-icon''
      else if the ext = ''wasm'' then ''application/wasm''
      else if the ext = ''xml'' then ''application/xml''
      else ''application/octet-stream'')"

definition is_sep :: "char \<Rightarrow> bool" where
  "is_sep c = (c = CHR ''/'' \<or> c = BACKSLASH)"

lemma tl_dropWhile_shorter: "p \<noteq> [] \<Longrightarrow> length (tl (dropWhile P p)) < length p"
  using length_dropWhile_le [of P p] by (cases p; cases "dropWhile P p") simp_all

definition dots_ahead :: "string \<Rightarrow> bool" where
  "dots_ahead p = (take 2 p = ''..'' \<and> (drop 2 p = [] \<or> is_sep (hd (drop 2 p))))"

function ducknng_path_has_traversal :: "string \<Rightarrow> bool" where
  "ducknng_path_has_traversal p =
     (if p = [] then False
      else if dots_ahead p then True
      else ducknng_path_has_traversal (tl (dropWhile (\<lambda>c. \<not> is_sep c) p)))"
  by pat_completeness auto
termination
  by (relation "measure length") (simp, simp only: in_measure, rule tl_dropWhile_shorter)

declare ducknng_path_has_traversal.simps [simp del]

record static_reply =
  st_status :: nat
  st_text :: cstring
  st_type :: cstring
  st_body :: bytes

text \<open>The text after the last dot of the whole path.\<close>

fun extension :: "cstring \<Rightarrow> string \<Rightarrow> cstring" where
  "extension dot [] = dot"
| "extension dot (c # p) = extension (if c = CHR ''.'' then Some p else dot) p"

definition static_relative :: "cstring \<Rightarrow> string \<Rightarrow> string" where
  "static_relative route_prefix request_path =
     (let rel = (if nonempty route_prefix \<and> take (length (deref route_prefix)) request_path = deref route_prefix
                 then drop (length (deref route_prefix)) request_path else request_path);
          rel = dropWhile is_sep rel
      in if rel = [] then ''index.html'' else rel)"

text \<open>
  \<open>fopen\<close> gives, for a file that can be opened, the size \<open>ftell\<close> reports (\<open>None\<close>: it fails) and the bytes that can be read.
  The last component of the result is the path that was opened.
\<close>

definition ducknng_serve_static_file ::
  "(nat \<Rightarrow> bool) \<Rightarrow> (nat \<Rightarrow> bool) \<Rightarrow> (string \<Rightarrow> (nat option \<times> bytes) option) \<Rightarrow> string \<Rightarrow> cstring \<Rightarrow> string \<Rightarrow>
   (string + static_reply) \<times> cstring" where
  "ducknng_serve_static_file mem ok fopen static_dir route_prefix request_path =
     (let rel = static_relative route_prefix request_path;
          full_path = static_dir @ CHR ''/'' # rel
      in if ducknng_path_has_traversal rel
         then (Inr \<lparr> st_status = 403, st_text = dup ok 0 (Some ''ducknng: path traversal not permitted''), st_type = None, st_body = [] \<rparr>, None)
         else if \<not> mem (length full_path + 1) then (Inl ''ducknng: out of memory building static path'', None)
         else (case fopen full_path of
           None \<Rightarrow> (Inr \<lparr> st_status = 404, st_text = dup ok 0 (Some ''Not Found''), st_type = None, st_body = [] \<rparr>, Some full_path)
         | Some (None, contents) \<Rightarrow>
             (Inr \<lparr> st_status = 500, st_text = dup ok 0 (Some ''ducknng: failed to stat static file''), st_type = None, st_body = [] \<rparr>,
              Some full_path)
         | Some (Some file_size, contents) \<Rightarrow>
             if \<not> mem (file_size + 1) then (Inl ''ducknng: out of memory reading static file'', Some full_path)
             else (Inr \<lparr> st_status = 200, st_text = None,
                     st_type = dup ok 0 (Some (ducknng_static_mime_for_ext (extension None full_path))),
                     st_body = take file_size contents \<rparr>,
                   Some full_path)))"

section \<open>Static files stay in their directory\<close>

abbreviation components :: "string \<Rightarrow> string list" where
  "components \<equiv> pieces is_sep"

text \<open>Lexical resolution of a path from a directory, the innermost name first.\<close>

fun resolve :: "string list \<Rightarrow> string list \<Rightarrow> string list" where
  "resolve dir [] = dir"
| "resolve dir (c # cs) = resolve (if c = [] \<or> c = ''.'' then dir else if c = ''..'' then tl dir else c # dir) cs"

lemma resolve_below:
  assumes "''..'' \<notin> set cs"
  obtains names where "resolve dir cs = names @ dir"
  using assms
proof (induction cs arbitrary: dir thesis)
  case (Cons c cs)
  define top where "top = (if c = [] \<or> c = ''.'' then [] else [c])"
  obtain names where "resolve (top @ dir) cs = names @ top @ dir"
    using Cons.IH [of "top @ dir"] Cons.prems(2) by auto
  moreover have "resolve dir (c # cs) = resolve (top @ dir) cs" using Cons.prems(2) by (auto simp: top_def)
  ultimately show ?case by (intro Cons.prems(1) [of "names @ top"]) (simp only: append_assoc)
qed simp

lemma resolve_append: "resolve dir (xs @ ys) = resolve (resolve dir xs) ys"
  by (induction xs arbitrary: dir) simp_all

lemma takeWhile_dots:
  assumes "\<not> P CHR ''.''"
  shows "takeWhile (\<lambda>c. \<not> P c) p = ''..'' \<longleftrightarrow> take 2 p = ''..'' \<and> (drop 2 p = [] \<or> P (hd (drop 2 p)))"
proof (cases p)
  case (Cons a q)
  show ?thesis
  proof (cases q)
    case (Cons b r)
    with assms \<open>p = a # q\<close> show ?thesis by (cases r) auto
  qed (use Cons assms in auto)
qed simp

lemma has_traversal_components: "ducknng_path_has_traversal p \<longleftrightarrow> ''..'' \<in> set (components p)"
proof (induction p rule: ducknng_path_has_traversal.induct)
  case (1 p)
  have dots: "takeWhile (\<lambda>c. \<not> is_sep c) p = ''..'' \<longleftrightarrow> dots_ahead p"
    unfolding dots_ahead_def by (rule takeWhile_dots) (simp add: is_sep_def)
  show ?case
  proof (cases "p = [] \<or> dots_ahead p")
    case True
    then show ?thesis
      unfolding ducknng_path_has_traversal.simps [of p] pieces_eq [of is_sep p] using dots by auto
  next
    case False
    then have "ducknng_path_has_traversal p \<longleftrightarrow> ''..'' \<in> set (components (tl (dropWhile (\<lambda>c. \<not> is_sep c) p)))"
      using 1 unfolding ducknng_path_has_traversal.simps [of p] by auto
    moreover have "''..'' \<in> set (components p) \<longleftrightarrow> ''..'' \<in> set (components (tl (dropWhile (\<lambda>c. \<not> is_sep c) p)))"
    proof (cases "dropWhile (\<lambda>c. \<not> is_sep c) p = []")
      case True
      then show ?thesis using False dots unfolding pieces_eq [of is_sep p] by (simp only: True) auto
    qed (use False dots in \<open>auto simp: pieces_eq [of is_sep p]\<close>)
    ultimately show ?thesis by simp
  qed
qed


text \<open>
  C33. Static files stay in their directory. A request opens a file only when no component of its relative path, at either kind
  of separator, is \<open>..\<close>; the path opened is then the directory followed by the relative path, it resolves to a place at or
  below the directory, and a reply with status 200 carries the bytes of that file. A path with such a component is answered
  with 403 and opens nothing; otherwise nothing is opened only when memory is exhausted.
\<close>

theorem static_file_confined:
  assumes "ducknng_serve_static_file mem ok fopen dir route_prefix request_path = (res, opened)"
    and "rel = static_relative route_prefix request_path"
  shows "(''..'' \<in> set (components rel) \<longrightarrow> opened = None \<and> (\<exists>reply. res = Inr reply \<and> st_status reply = 403)) \<and>
    (''..'' \<notin> set (components rel) \<and> opened = None \<longrightarrow> res = Inl ''ducknng: out of memory building static path'') \<and>
    (\<forall>f. opened = Some f \<longrightarrow> ''..'' \<notin> set (components rel) \<and> f = dir @ ''/'' @ rel \<and>
      (\<exists>names. resolve base (components f) = names @ resolve base (components dir))) \<and>
    (\<forall>reply. res = Inr reply \<and> st_status reply = 200 \<longrightarrow>
      (\<exists>file_size contents. fopen (dir @ ''/'' @ rel) = Some (Some file_size, contents) \<and> st_body reply = take file_size contents))"
proof -
  have "\<exists>names. resolve base (components (dir @ ''/'' @ rel)) = names @ resolve base (components dir)"
    if "''..'' \<notin> set (components rel)"
  proof -
    have "components (dir @ ''/'' @ rel) = components dir @ components rel"
      using pieces_append [of is_sep "CHR ''/''" dir rel] by (simp add: is_sep_def)
    then show ?thesis
      using resolve_below [OF that, of "resolve base (components dir)"] by (metis resolve_append)
  qed
  then show ?thesis
    using assms unfolding ducknng_serve_static_file_def Let_def has_traversal_components
    by (auto split: if_splits option.splits)
qed

theorem static_file_confined_witness:
  "\<exists>reply. ducknng_serve_static_file (\<lambda>_. True) (\<lambda>_. True) (\<lambda>f. if f = ''/srv/a.css'' then Some (Some 2, [7, 8, 9]) else None)
      ''/srv'' (Some ''/static'') ''/static/a.css'' = (Inr reply, Some ''/srv/a.css'') \<and>
     st_body reply = [7, 8] \<and> ''..'' \<notin> set (components ''a.css'') \<and>
     (\<exists>names. resolve [] (components ''/srv/a.css'') = names @ resolve [] (components ''/srv'')) \<and>
     snd (ducknng_serve_static_file (\<lambda>_. True) (\<lambda>_. True) (\<lambda>f. None) ''/srv'' (Some ''/static'') ''/static/../a.css'') = None"
proof -
  let ?fs = "\<lambda>f. if f = ''/srv/a.css'' then Some (Some 2, [7, 8, 9 :: u8]) else None"
  have rel: "static_relative (Some ''/static'') ''/static/a.css'' = ''a.css''"
    "static_relative (Some ''/static'') ''/static/../a.css'' = ''../a.css''" by code_simp+
  have dots: "''..'' \<in> set (components ''../a.css'')" by code_simp
  obtain res opened where run: "ducknng_serve_static_file (\<lambda>_. True) (\<lambda>_. True) ?fs ''/srv'' (Some ''/static'') ''/static/a.css'' = (res, opened)"
    by (cases "ducknng_serve_static_file (\<lambda>_. True) (\<lambda>_. True) ?fs ''/srv'' (Some ''/static'') ''/static/a.css''")
  obtain res' opened' where run': "ducknng_serve_static_file (\<lambda>_. True) (\<lambda>_. True) (\<lambda>f. None) ''/srv'' (Some ''/static'') ''/static/../a.css'' = (res', opened')"
    by (cases "ducknng_serve_static_file (\<lambda>_. True) (\<lambda>_. True) (\<lambda>f. None) ''/srv'' (Some ''/static'') ''/static/../a.css''")
  have "opened = Some ''/srv/a.css''" "\<exists>reply. res = Inr reply \<and> st_status reply = 200"
    using run by (auto simp: ducknng_serve_static_file_def rel has_traversal_components is_sep_def)
  then show ?thesis
    using static_file_confined [OF run rel(1) [symmetric], of "[]"] static_file_confined [OF run' rel(2) [symmetric]] run run' dots
    by auto
qed

end
