(* ===== verification/Runtime.thy ===== *)
theory Runtime
  imports Util Interfaces
begin

text \<open>
  The shared runtime (\<open>ducknng_runtime.c\<close>): the tables of services, client sockets, asynchronous operations, client streams
  and TLS configurations, the registry of user codecs, the subjects bound to connections and threads, the size of the
  execution pool, and the ring of log entries.

  Objects are their addresses (\<open>ptr\<close>). \<open>room\<close>: the array of a full table can be grown; \<open>mem n\<close>: \<open>n\<close> bytes can be allocated;
  \<open>ok i\<close>: the \<open>i\<close>-th string copy succeeds. The runtime is not null, and its mutex makes every operation atomic.
\<close>

type_synonym ptr = nat

section \<open>Tables of handles\<close>

record handle_table =
  ht_rows :: "(u64 \<times> ptr) list"
  ht_cap :: nat
  ht_next :: u64

definition handle_table_init :: handle_table where
  "handle_table_init = \<lparr> ht_rows = [], ht_cap = 0, ht_next = 1 \<rparr>"

definition grown :: "nat \<Rightarrow> nat" where
  "grown cap = (if cap \<noteq> 0 then cap * 2 else 4)"

definition handle_add :: "bool \<Rightarrow> ptr \<Rightarrow> handle_table \<Rightarrow> (string + u64) \<times> handle_table" where
  "handle_add room p t =
     (if length (ht_rows t) = ht_cap t \<and> \<not> room then (Inl ''out of memory'', t)
      else (Inr (ht_next t),
        t\<lparr>ht_cap := (if length (ht_rows t) = ht_cap t then grown (ht_cap t) else ht_cap t),
          ht_rows := ht_rows t @ [(ht_next t, p)], ht_next := ht_next t + 1\<rparr>))"

definition handle_find :: "handle_table \<Rightarrow> u64 \<Rightarrow> ptr option" where
  "handle_find t k = (if k = 0 then None else map_option snd (find (\<lambda>r. fst r = k) (ht_rows t)))"

definition handle_remove :: "handle_table \<Rightarrow> u64 \<Rightarrow> ptr option \<times> handle_table" where
  "handle_remove t k =
     (if k = 0 then (None, t)
      else case find_idx (\<lambda>r. fst r = k) (ht_rows t) of
        None \<Rightarrow> (None, t)
      | Some i \<Rightarrow> (Some (snd (ht_rows t ! i)), t\<lparr>ht_rows := remove_nth i (ht_rows t)\<rparr>))"

text \<open>A table of named services; the identifiers are those of the rows.\<close>

record service_row =
  sr_name :: string
  sr_id :: u64
  sr_ptr :: ptr

section \<open>Tables keyed by strings or connections\<close>

record ('k, 'v) assoc =
  as_rows :: "('k \<times> 'v) list"
  as_cap :: nat

definition assoc_put :: "bool \<Rightarrow> 'k \<Rightarrow> 'v \<Rightarrow> ('k, 'v) assoc \<Rightarrow> bool \<times> ('k, 'v) assoc" where
  "assoc_put room k v t =
     (case find_idx (\<lambda>r. fst r = k) (as_rows t) of
        Some i \<Rightarrow> (True, t\<lparr>as_rows := (as_rows t)[i := (k, v)]\<rparr>)
      | None \<Rightarrow>
          if length (as_rows t) = as_cap t \<and> \<not> room then (False, t)
          else (True, t\<lparr>as_cap := (if length (as_rows t) = as_cap t then grown (as_cap t) else as_cap t),
                  as_rows := as_rows t @ [(k, v)]\<rparr>))"

definition assoc_del :: "'k \<Rightarrow> ('k, 'v) assoc \<Rightarrow> bool \<times> ('k, 'v) assoc" where
  "assoc_del k t =
     (case find_idx (\<lambda>r. fst r = k) (as_rows t) of
        None \<Rightarrow> (False, t)
      | Some i \<Rightarrow> (True, t\<lparr>as_rows := remove_nth i (as_rows t)\<rparr>))"

definition assoc_get :: "('k, 'v) assoc \<Rightarrow> 'k \<Rightarrow> ('k \<times> 'v) option" where
  "assoc_get t k = find (\<lambda>r. fst r = k) (as_rows t)"

section \<open>The runtime\<close>

record runtime =
  rt_services :: "service_row list"
  rt_service_cap :: nat
  rt_next_service_id :: u64
  rt_client_sockets :: handle_table
  rt_client_aios :: handle_table
  rt_http_client_streams :: handle_table
  rt_tls_configs :: handle_table
  rt_user_codecs :: "(string, string) assoc"
  rt_subject_bindings :: "(u64, string) assoc"
  rt_execution_pool_capacity :: size_t
  rt_execution_pool_max :: size_t

definition ducknng_runtime_find_service :: "runtime \<Rightarrow> cstring \<Rightarrow> ptr option" where
  "ducknng_runtime_find_service rt name =
     (case name of None \<Rightarrow> None | Some n \<Rightarrow> map_option sr_ptr (find (\<lambda>r. sr_name r = n) (rt_services rt)))"

definition ducknng_runtime_add_service :: "bool \<Rightarrow> runtime \<Rightarrow> string \<Rightarrow> ptr \<Rightarrow> (string + u64) \<times> runtime" where
  "ducknng_runtime_add_service room rt name p =
     (if list_ex (\<lambda>r. sr_name r = name) (rt_services rt) then (Inl ''service already exists'', rt)
      else if length (rt_services rt) = rt_service_cap rt \<and> \<not> room then (Inl ''out of memory'', rt)
      else (Inr (rt_next_service_id rt),
        rt\<lparr>rt_service_cap := (if length (rt_services rt) = rt_service_cap rt then grown (rt_service_cap rt) else rt_service_cap rt),
           rt_services := rt_services rt @ [\<lparr> sr_name = name, sr_id = rt_next_service_id rt, sr_ptr = p \<rparr>],
           rt_next_service_id := rt_next_service_id rt + 1\<rparr>))"

definition ducknng_runtime_remove_service :: "runtime \<Rightarrow> cstring \<Rightarrow> ptr option \<times> runtime" where
  "ducknng_runtime_remove_service rt name =
     (case name of
        None \<Rightarrow> (None, rt)
      | Some n \<Rightarrow>
          (case find_idx (\<lambda>r. sr_name r = n) (rt_services rt) of
             None \<Rightarrow> (None, rt)
           | Some i \<Rightarrow> (Some (sr_ptr (rt_services rt ! i)), rt\<lparr>rt_services := remove_nth i (rt_services rt)\<rparr>)))"

definition ducknng_runtime_find_client_socket :: "runtime \<Rightarrow> u64 \<Rightarrow> ptr option" where
  "ducknng_runtime_find_client_socket rt k = handle_find (rt_client_sockets rt) k"

definition ducknng_runtime_add_client_socket :: "bool \<Rightarrow> runtime \<Rightarrow> ptr \<Rightarrow> (string + u64) \<times> runtime" where
  "ducknng_runtime_add_client_socket room rt p =
     (case handle_add room p (rt_client_sockets rt) of (r, t) \<Rightarrow> (r, rt\<lparr>rt_client_sockets := t\<rparr>))"

definition ducknng_runtime_remove_client_socket :: "runtime \<Rightarrow> u64 \<Rightarrow> ptr option \<times> runtime" where
  "ducknng_runtime_remove_client_socket rt k =
     (case handle_remove (rt_client_sockets rt) k of (r, t) \<Rightarrow> (r, rt\<lparr>rt_client_sockets := t\<rparr>))"

definition ducknng_runtime_add_client_aio :: "bool \<Rightarrow> runtime \<Rightarrow> ptr \<Rightarrow> (string + u64) \<times> runtime" where
  "ducknng_runtime_add_client_aio room rt p =
     (case handle_add room p (rt_client_aios rt) of (r, t) \<Rightarrow> (r, rt\<lparr>rt_client_aios := t\<rparr>))"

definition ducknng_runtime_remove_client_aio :: "runtime \<Rightarrow> u64 \<Rightarrow> ptr option \<times> runtime" where
  "ducknng_runtime_remove_client_aio rt k =
     (case handle_remove (rt_client_aios rt) k of (r, t) \<Rightarrow> (r, rt\<lparr>rt_client_aios := t\<rparr>))"

definition ducknng_runtime_add_http_client_stream :: "bool \<Rightarrow> runtime \<Rightarrow> ptr \<Rightarrow> (string + u64) \<times> runtime" where
  "ducknng_runtime_add_http_client_stream room rt p =
     (case handle_add room p (rt_http_client_streams rt) of (r, t) \<Rightarrow> (r, rt\<lparr>rt_http_client_streams := t\<rparr>))"

definition ducknng_runtime_find_http_client_stream_locked :: "runtime \<Rightarrow> u64 \<Rightarrow> ptr option" where
  "ducknng_runtime_find_http_client_stream_locked rt k = handle_find (rt_http_client_streams rt) k"

definition ducknng_runtime_remove_http_client_stream :: "runtime \<Rightarrow> u64 \<Rightarrow> ptr option \<times> runtime" where
  "ducknng_runtime_remove_http_client_stream rt k =
     (case handle_remove (rt_http_client_streams rt) k of (r, t) \<Rightarrow> (r, rt\<lparr>rt_http_client_streams := t\<rparr>))"

definition ducknng_runtime_find_tls_config :: "runtime \<Rightarrow> u64 \<Rightarrow> ptr option" where
  "ducknng_runtime_find_tls_config rt k = handle_find (rt_tls_configs rt) k"

definition ducknng_runtime_add_tls_config :: "bool \<Rightarrow> runtime \<Rightarrow> ptr \<Rightarrow> (string + u64) \<times> runtime" where
  "ducknng_runtime_add_tls_config room rt p =
     (case handle_add room p (rt_tls_configs rt) of (r, t) \<Rightarrow> (r, rt\<lparr>rt_tls_configs := t\<rparr>))"

definition ducknng_runtime_remove_tls_config :: "runtime \<Rightarrow> u64 \<Rightarrow> ptr option \<times> runtime" where
  "ducknng_runtime_remove_tls_config rt k =
     (case handle_remove (rt_tls_configs rt) k of (r, t) \<Rightarrow> (r, rt\<lparr>rt_tls_configs := t\<rparr>))"

definition ducknng_runtime_set_execution_pool_max :: "runtime \<Rightarrow> u64 \<Rightarrow> u64 \<times> runtime" where
  "ducknng_runtime_set_execution_pool_max rt requested =
     (let effective = (if requested < 1 then 1
            else if requested > rt_execution_pool_capacity rt then rt_execution_pool_capacity rt else requested)
      in (effective, rt\<lparr>rt_execution_pool_max := effective\<rparr>))"

section \<open>User codecs\<close>

definition blank :: "char \<Rightarrow> bool" where
  "blank c = (c = CHR '' '' \<or> code c = 9)"

definition ducknng_codec_normalize :: "(nat \<Rightarrow> bool) \<Rightarrow> cstring \<Rightarrow> cstring" where
  "ducknng_codec_normalize mem content_type =
     (case content_type of
        None \<Rightarrow> None
      | Some s \<Rightarrow>
          let body = rev (dropWhile blank (rev (dropWhile blank s)))
          in if body = [] \<or> \<not> mem (length body + 1) then None else Some (map ascii_lower body))"

text \<open>\<open>None\<close>: the registration succeeds.\<close>

definition ducknng_runtime_register_user_codec ::
  "(nat \<Rightarrow> bool) \<Rightarrow> (nat \<Rightarrow> bool) \<Rightarrow> bool \<Rightarrow> runtime \<Rightarrow> cstring \<Rightarrow> cstring \<Rightarrow> cstring \<times> runtime" where
  "ducknng_runtime_register_user_codec mem ok room rt content_type function_name =
     (if \<not> nonempty function_name then (Some ''ducknng: codec function name must be a non-empty identifier'', rt)
      else case ducknng_codec_normalize mem content_type of
        None \<Rightarrow> (Some ''ducknng: codec content_type must be a non-empty media type'', rt)
      | Some key \<Rightarrow>
          (case dup ok 0 function_name of
             None \<Rightarrow> (Some ''ducknng: out of memory registering codec'', rt)
           | Some fn \<Rightarrow>
               (case assoc_put room key fn (rt_user_codecs rt) of
                  (True, t) \<Rightarrow> (None, rt\<lparr>rt_user_codecs := t\<rparr>)
                | (False, t) \<Rightarrow> (Some ''ducknng: out of memory growing codec registry'', rt))))"

definition ducknng_runtime_unregister_user_codec :: "(nat \<Rightarrow> bool) \<Rightarrow> runtime \<Rightarrow> cstring \<Rightarrow> bool \<times> runtime" where
  "ducknng_runtime_unregister_user_codec mem rt content_type =
     (case ducknng_codec_normalize mem content_type of
        None \<Rightarrow> (False, rt)
      | Some key \<Rightarrow> (case assoc_del key (rt_user_codecs rt) of (removed, t) \<Rightarrow> (removed, rt\<lparr>rt_user_codecs := t\<rparr>)))"

definition ducknng_runtime_find_user_codec :: "(nat \<Rightarrow> bool) \<Rightarrow> (nat \<Rightarrow> bool) \<Rightarrow> runtime \<Rightarrow> cstring \<Rightarrow> cstring" where
  "ducknng_runtime_find_user_codec mem ok rt content_type =
     (case ducknng_codec_normalize mem content_type of
        None \<Rightarrow> None
      | Some key \<Rightarrow> dup ok 0 (map_option snd (assoc_get (rt_user_codecs rt) key)))"

section \<open>Subjects\<close>

definition ducknng_runtime_execution_subject_bind_connection ::
  "(nat \<Rightarrow> bool) \<Rightarrow> bool \<Rightarrow> runtime \<Rightarrow> u64 \<Rightarrow> cstring \<Rightarrow> bool \<times> runtime" where
  "ducknng_runtime_execution_subject_bind_connection ok room rt con subject =
     (if \<not> nonempty subject then (False, rt)
      else case dup ok 0 subject of
        None \<Rightarrow> (False, rt)
      | Some s \<Rightarrow> (case assoc_put room con s (rt_subject_bindings rt) of (done, t) \<Rightarrow> (done, rt\<lparr>rt_subject_bindings := t\<rparr>)))"

definition ducknng_runtime_execution_subject_unbind_connection :: "runtime \<Rightarrow> u64 \<Rightarrow> runtime" where
  "ducknng_runtime_execution_subject_unbind_connection rt con =
     rt\<lparr>rt_subject_bindings := snd (assoc_del con (rt_subject_bindings rt))\<rparr>"

definition ducknng_runtime_execution_subject_for_connection_dup :: "(nat \<Rightarrow> bool) \<Rightarrow> runtime \<Rightarrow> u64 \<Rightarrow> cstring" where
  "ducknng_runtime_execution_subject_for_connection_dup ok rt con =
     dup ok 0 (map_option snd (assoc_get (rt_subject_bindings rt) con))"

text \<open>The subject of a thread: the runtime it was set for and the subject, both thread-local.\<close>

type_synonym thread_subject = "(ptr \<times> cstring) option"

definition ducknng_runtime_current_execution_subject_set :: "thread_subject \<Rightarrow> ptr \<Rightarrow> cstring option \<Rightarrow> thread_subject" where
  "ducknng_runtime_current_execution_subject_set g rt ctx =
     (case ctx of
        Some subject \<Rightarrow> Some (rt, subject)
      | None \<Rightarrow> (case g of Some (owner, s) \<Rightarrow> if owner = rt then None else g | None \<Rightarrow> None))"

definition ducknng_runtime_current_thread_execution_subject_get :: "thread_subject \<Rightarrow> ptr \<Rightarrow> cstring option" where
  "ducknng_runtime_current_thread_execution_subject_get g rt =
     (case g of Some (owner, s) \<Rightarrow> if owner = rt then Some s else None | None \<Rightarrow> None)"

section \<open>The log ring\<close>

record log_entry =
  le_ts :: u64
  le_level :: cstring
  le_type :: cstring
  le_message :: cstring

record log_ring =
  lr_entries :: "log_entry list"
  lr_head :: nat
  lr_count :: nat
  lr_mu :: bool

definition DUCKNNG_LOG_RING_CAP :: nat where
  "DUCKNNG_LOG_RING_CAP = 512"

definition blank_log :: log_entry where
  "blank_log = \<lparr> le_ts = 0, le_level = None, le_type = None, le_message = None \<rparr>"

definition ducknng_log_ring_init :: "bool \<Rightarrow> log_ring" where
  "ducknng_log_ring_init mutex_ok =
     \<lparr> lr_entries = replicate DUCKNNG_LOG_RING_CAP blank_log, lr_head = 0, lr_count = 0, lr_mu = mutex_ok \<rparr>"

definition log_copy :: "(nat \<Rightarrow> bool) \<Rightarrow> u64 option \<Rightarrow> cstring \<Rightarrow> cstring \<Rightarrow> cstring \<Rightarrow> log_entry" where
  "log_copy ok ts level log_type message =
     \<lparr> le_ts = (case ts of Some t \<Rightarrow> t | None \<Rightarrow> 0), le_level = dup ok 0 level, le_type = dup ok 1 log_type,
       le_message = dup ok 2 message \<rparr>"

definition ducknng_log_ring_append ::
  "(nat \<Rightarrow> bool) \<Rightarrow> log_ring \<Rightarrow> u64 option \<Rightarrow> cstring \<Rightarrow> cstring \<Rightarrow> cstring \<Rightarrow> log_ring" where
  "ducknng_log_ring_append ok ring ts level log_type message =
     (if \<not> lr_mu ring then ring
      else if lr_count ring < DUCKNNG_LOG_RING_CAP
      then ring\<lparr>lr_count := lr_count ring + 1,
             lr_entries := (lr_entries ring)[(lr_head ring + lr_count ring) mod DUCKNNG_LOG_RING_CAP := log_copy ok ts level log_type message]\<rparr>
      else ring\<lparr>lr_head := (lr_head ring + 1) mod DUCKNNG_LOG_RING_CAP,
             lr_entries := (lr_entries ring)[lr_head ring := log_copy ok ts level log_type message]\<rparr>)"

definition ducknng_log_ring_snapshot :: "(nat \<Rightarrow> nat \<Rightarrow> bool) \<Rightarrow> log_ring \<Rightarrow> log_entry list" where
  "ducknng_log_ring_snapshot ok ring =
     (if \<not> lr_mu ring then []
      else map (\<lambda>i. let e = lr_entries ring ! ((lr_head ring + i) mod DUCKNNG_LOG_RING_CAP)
                    in log_copy (ok i) (Some (le_ts e)) (le_level e) (le_type e) (le_message e)) [0..<lr_count ring])"


section \<open>Handles are never reused\<close>

text \<open>The life of a table, with every handle it has given out and the object it was given for.\<close>

inductive handle_run :: "(u64 \<times> ptr) list \<Rightarrow> handle_table \<Rightarrow> bool" where
  run_init: "handle_run [] handle_table_init"
| run_add: "handle_run h t \<Longrightarrow> length h + 2 < 2 ^ 64 \<Longrightarrow> handle_add room p t = (Inr k, t') \<Longrightarrow> handle_run (h @ [(k, p)]) t'"
| run_full: "handle_run h t \<Longrightarrow> handle_add room p t = (Inl err, t') \<Longrightarrow> handle_run h t'"
| run_remove: "handle_run h t \<Longrightarrow> handle_remove t k = (r, t') \<Longrightarrow> handle_run h t'"

definition handle_inv :: "(u64 \<times> ptr) list \<Rightarrow> handle_table \<Rightarrow> bool" where
  "handle_inv h t \<longleftrightarrow> map fst h = map of_nat [1..<length h + 1] \<and> ht_next t = of_nat (length h + 1) \<and> length h + 1 < 2 ^ 64 \<and>
     distinct (map fst (ht_rows t)) \<and> set (ht_rows t) \<subseteq> set h"

lemma issued_distinct:
  assumes "handle_inv h t"
  shows "distinct (map fst h)" "0 \<notin> set (map fst h)" "ht_next t \<notin> set (map fst h)"
proof -
  have inj: "inj_on (of_nat :: nat \<Rightarrow> u64) {..<2 ^ 64}"
    by (rule inj_onI) (metis lessThan_iff unat_of_nat_u64)
  have h: "map fst h = map of_nat [1..<length h + 1]" "ht_next t = of_nat (length h + 1)" "length h + 1 < 2 ^ 64"
    using assms by (simp_all add: handle_inv_def)
  have "set [1..<length h + 1] \<subseteq> {..<2 ^ 64}" using h(3) by auto
  then have "inj_on (of_nat :: nat \<Rightarrow> u64) (set [1..<length h + 1])" by (rule inj_on_subset [OF inj])
  then show "distinct (map fst h)" unfolding h(1) by (simp add: distinct_map)
  have fresh: "(of_nat n :: u64) \<notin> set (map of_nat [1..<length h + 1])" if "n < 2 ^ 64" "n = 0 \<or> length h < n" for n
  proof
    assume "(of_nat n :: u64) \<in> set (map of_nat [1..<length h + 1])"
    then obtain m where m: "(of_nat n :: u64) = of_nat m" "1 \<le> m" "m < length h + 1"
      unfolding set_map set_upt by (elim imageE) (rule that, simp_all only: atLeastLessThan_iff, simp_all)
    then have "n = m" using inj_onD [OF inj, of n m] that(1) h(3) by simp
    with m that(2) show False by simp
  qed
  from fresh [of 0] show "0 \<notin> set (map fst h)" unfolding h(1) by simp
  from fresh [of "length h + 1"] show "ht_next t \<notin> set (map fst h)" unfolding h(1,2) using h(3) by simp
qed

lemma handle_remove_cases:
  obtains (absent) "handle_remove t k = (None, t)" "handle_find t k = None"
  | (present) i where "i < length (ht_rows t)" "fst (ht_rows t ! i) = k" "k \<noteq> 0"
      "handle_remove t k = (Some (snd (ht_rows t ! i)), t\<lparr>ht_rows := remove_nth i (ht_rows t)\<rparr>)"
proof (cases "k = 0")
  case True
  then show ?thesis by (intro absent) (simp_all add: handle_remove_def handle_find_def)
next
  case False
  show ?thesis
  proof (cases "find_idx (\<lambda>r. fst r = k) (ht_rows t)")
    case None
    with False show ?thesis
      by (intro absent) (auto simp: handle_remove_def handle_find_def find_None_iff split: option.split)
  next
    case (Some i)
    with False find_idx_SomeD [OF Some] show ?thesis by (intro present [of i]) (simp_all add: handle_remove_def)
  qed
qed

lemma handle_run_inv: "handle_run h t \<Longrightarrow> handle_inv h t"
proof (induction rule: handle_run.induct)
  case run_init
  then show ?case by (simp add: handle_inv_def handle_table_init_def)
next
  case (run_add h t room p k t')
  have k: "k = ht_next t" "ht_rows t' = ht_rows t @ [(k, p)]" "ht_next t' = ht_next t + 1"
    using run_add.hyps(3) by (auto simp: handle_add_def split: if_splits)
  have "ht_next t \<notin> fst ` set (ht_rows t)"
    using issued_distinct(3) [OF run_add.IH] run_add.IH by (auto simp: handle_inv_def image_iff)
  with run_add.IH run_add.hyps(2) k show ?case by (auto simp: handle_inv_def)
next
  case (run_full h t room p err t')
  then show ?case by (auto simp: handle_add_def split: if_splits)
next
  case (run_remove h t k r t')
  show ?case
  proof (cases rule: handle_remove_cases [of t k])
    case absent
    with run_remove show ?thesis by simp
  next
    case (present i)
    with run_remove set_remove_nth_subset [of i "ht_rows t"] show ?thesis
      by (auto simp: handle_inv_def map_remove_nth distinct_remove_nth)
  qed
qed

lemma handle_find_iff:
  assumes "distinct (map fst (ht_rows t))" "k \<noteq> 0"
  shows "handle_find t k = Some p \<longleftrightarrow> (k, p) \<in> set (ht_rows t)"
proof -
  have "find (\<lambda>r. fst r = k) rows = Some r \<longleftrightarrow> r \<in> set rows \<and> fst r = k" if "distinct (map fst rows)" for rows and r :: "u64 \<times> ptr"
    using that by (induction rows) (auto simp: image_iff)
  from this [OF assms(1)] show ?thesis using assms(2) by (auto simp: handle_find_def)
qed




section \<open>Keyed tables and codecs\<close>

definition assoc_inv :: "('k, 'v) assoc \<Rightarrow> bool" where
  "assoc_inv t \<longleftrightarrow> distinct (map fst (as_rows t)) \<and> length (as_rows t) \<le> as_cap t"

lemma grown_greater: "cap < grown cap"
  by (simp add: grown_def)

lemma assoc_put_new:
  assumes "k \<notin> fst ` set (as_rows t)"
  shows "assoc_put room k v t =
    (if length (as_rows t) = as_cap t \<and> \<not> room then (False, t)
     else (True, t\<lparr>as_cap := (if length (as_rows t) = as_cap t then grown (as_cap t) else as_cap t), as_rows := as_rows t @ [(k, v)]\<rparr>))"
proof -
  have "find_idx (\<lambda>r. fst r = k) (as_rows t) = None" using assms by force
  then show ?thesis by (simp add: assoc_put_def del: find_idx_None)
qed

lemma assoc_del_rows:
  assumes "assoc_inv t"
  shows "as_rows (snd (assoc_del k t)) = filter (\<lambda>r. fst r \<noteq> k) (as_rows t) \<and> as_cap (snd (assoc_del k t)) = as_cap t"
proof (cases "find_idx (\<lambda>r. fst r = k) (as_rows t)")
  case None
  then have "filter (\<lambda>r. fst r \<noteq> k) (as_rows t) = as_rows t" by (auto intro: filter_True)
  with None show ?thesis by (simp add: assoc_del_def del: find_idx_None)
next
  case (Some i)
  with filter_key_remove_nth [of fst "as_rows t" i] find_idx_SomeD [OF Some] assms show ?thesis
    by (simp add: assoc_del_def assoc_inv_def)
qed

interpretation assocs: keyed_table as_rows fst assoc_get "\<lambda>r t. snd (assoc_put True (fst r) (snd r) t)" "\<lambda>k t. snd (assoc_del k t)"
  assoc_inv "\<lambda>_. True" "\<lambda>_. True"
proof unfold_locales
  fix t :: "('k, 'v) assoc" and r :: "'k \<times> 'v" and k
  assume inv: "assoc_inv t"
  show "distinct (map fst (as_rows t))" using inv by (simp add: assoc_inv_def)
  show "assoc_get t k = find (\<lambda>r. fst r = k) (as_rows t)" by (simp add: assoc_get_def)
  show "as_rows (snd (assoc_del k t)) = filter (\<lambda>r. fst r \<noteq> k) (as_rows t)" using assoc_del_rows [OF inv] by simp
  show "assoc_inv (snd (assoc_del k t))"
    using assoc_del_rows [OF inv, of k] inv
    by (auto simp: assoc_inv_def distinct_map_filter intro: le_trans [OF length_filter_le])
  assume new: "fst r \<notin> fst ` set (as_rows t)"
  show "as_rows (snd (assoc_put True (fst r) (snd r) t)) = as_rows t @ [r]" by (simp add: assoc_put_new [OF new])
  show "assoc_inv (snd (assoc_put True (fst r) (snd r) t))"
    using inv new grown_greater [of "as_cap t"] by (auto simp: assoc_put_new [OF new] assoc_inv_def)
qed

text \<open>What a successful insertion does to lookups, whether or not the key was there.\<close>

lemma assoc_put_get:
  assumes inv: "assoc_inv t" and put: "assoc_put room k v t = (True, t')"
  shows "assoc_inv t' \<and> (\<forall>j. assoc_get t' j = (if j = k then Some (k, v) else assoc_get t j))"
proof (cases "find_idx (\<lambda>r. fst r = k) (as_rows t)")
  case None
  then have new: "k \<notin> fst ` set (as_rows t)" by auto
  then have "t' = snd (assoc_put True k v t)" using put by (auto simp: assoc_put_new split: if_splits)
  then show ?thesis
    using assocs.invar_add [OF inv, of "(k, v)"] assocs.lookup_add [OF inv, of "(k, v)"] new by auto
next
  case (Some i)
  note i = find_idx_SomeD [OF Some]
  have t': "t' = t\<lparr>as_rows := (as_rows t)[i := (k, v)]\<rparr>" using put Some by (simp add: assoc_put_def)
  have keys: "map fst (as_rows t') = map fst (as_rows t)"
    using i by (simp add: t' map_update list_update_same_conv)
  have inv': "assoc_inv t'" using inv keys by (simp add: assoc_inv_def) (simp add: t')
  have "assoc_get t' j = (if j = k then Some (k, v) else assoc_get t j)" for j
  proof (cases "j = k")
    case True
    have "(k, v) \<in> set (as_rows t')" using i(1) by (simp add: t' set_update_memI)
    with True show ?thesis using assocs.lookup_Some [OF inv'] by simp
  next
    case False
    have "find (\<lambda>r. fst r = j) (xs[i := (k, v)]) = find (\<lambda>r. fst r = j) xs" if "i < length xs" "fst (xs ! i) = k" for xs :: "('a \<times> 'b) list"
      using that False by (induction xs arbitrary: i) (auto split: nat.splits)
    from this [OF i(1,2)] False show ?thesis by (simp add: assoc_get_def t')
  qed
  with inv' show ?thesis by blast
qed

lemma assoc_del_get:
  assumes "assoc_inv t"
  shows "assoc_inv (snd (assoc_del k t)) \<and> (\<forall>j. assoc_get (snd (assoc_del k t)) j = (if j = k then None else assoc_get t j)) \<and>
    fst (assoc_del k t) = (assoc_get t k \<noteq> None)"
proof -
  have "fst (assoc_del k t) = (assoc_get t k \<noteq> None)"
  proof (cases "find_idx (\<lambda>r. fst r = k) (as_rows t)")
    case None
    then have "k \<notin> fst ` set (as_rows t)" by auto
    then have "assoc_get t k = None" using assocs.lookup_None [OF assms] by simp
    with None show ?thesis by (simp add: assoc_del_def del: find_idx_None)
  next
    case (Some i)
    with find_idx_SomeD [OF Some] have "k \<in> fst ` set (as_rows t)" by (metis image_eqI)
    then have "assoc_get t k \<noteq> None" using assocs.lookup_None [OF assms] by simp
    with Some show ?thesis by (simp add: assoc_del_def)
  qed
  with assocs.invar_del [OF assms] assocs.lookup_del [OF assms] show ?thesis by simp
qed

text \<open>The sequence of codec operations on a runtime.\<close>

inductive codec_step :: "runtime \<Rightarrow> runtime \<Rightarrow> bool" where
  step_register_codec: "ducknng_runtime_register_user_codec mem ok room s ct fn = (res, t) \<Longrightarrow> codec_step s t"
| step_unregister_codec: "ducknng_runtime_unregister_user_codec mem s ct = (gone, t) \<Longrightarrow> codec_step s t"

definition codec_init :: "runtime \<Rightarrow> bool" where
  "codec_init rt \<longleftrightarrow> as_rows (rt_user_codecs rt) = []"

interpretation codecs: machine codec_init codec_step "\<lambda>rt. assoc_inv (rt_user_codecs rt)"
proof unfold_locales
  fix s
  assume "codec_init s"
  then show "assoc_inv (rt_user_codecs s)" by (simp add: codec_init_def assoc_inv_def)
next
  fix s t
  assume inv: "assoc_inv (rt_user_codecs s)" and "codec_step s t"
  from this(2) show "assoc_inv (rt_user_codecs t)"
  proof cases
    case (step_register_codec mem ok room ct fn res)
    then show ?thesis using inv assoc_put_get [OF inv]
      by (auto simp: ducknng_runtime_register_user_codec_def split: if_splits option.splits prod.splits bool.splits)
  next
    case (step_unregister_codec mem ct gone)
    then show ?thesis using inv assoc_del_get [OF inv]
      by (auto simp: ducknng_runtime_unregister_user_codec_def split: option.splits prod.splits) (metis snd_conv)
  qed
qed


text \<open>The key of a content type: lower case, without blanks at the ends.\<close>

definition codec_key :: "string \<Rightarrow> string" where
  "codec_key s = map ascii_lower (rev (dropWhile blank (rev (dropWhile blank s))))"

definition codec_of :: "runtime \<Rightarrow> string \<Rightarrow> cstring" where
  "codec_of rt s = map_option snd (assoc_get (rt_user_codecs rt) (codec_key s))"

lemma codec_normalize_key:
  assumes "\<forall>n. mem n" "codec_key s \<noteq> []"
  shows "ducknng_codec_normalize mem (Some s) = Some (codec_key s)"
proof -
  let ?body = "rev (dropWhile blank (rev (dropWhile blank s)))"
  have "?body \<noteq> []" "mem (length ?body + 1)" using assms by (auto simp: codec_key_def)
  then show ?thesis unfolding ducknng_codec_normalize_def option.case Let_def codec_key_def by argo
qed

text \<open>
  C35. The registry of user codecs is a map from content types, up to case and blanks at the ends, to function names. In every
  reachable state and with memory available, a registration makes its type, and every spelling of it, find the function and
  leaves all other types alone; an unregistration does the same with nothing; and it reports whether there was an entry.
\<close>

theorem codec_registry_map:
  assumes "reachable codec_init codec_step rt" "\<forall>n. mem n" "\<forall>i. ok i" "codec_key ct \<noteq> []" "codec_key s \<noteq> []" "fn \<noteq> []"
    and "ducknng_runtime_register_user_codec mem ok True rt (Some ct) (Some fn) = (res, t)"
    and "ducknng_runtime_unregister_user_codec mem rt (Some ct) = (removed, u)"
  shows "res = None \<and>
    ducknng_runtime_find_user_codec mem ok rt (Some s) = codec_of rt s \<and>
    ducknng_runtime_find_user_codec mem ok t (Some s) = (if codec_key s = codec_key ct then Some fn else codec_of rt s) \<and>
    ducknng_runtime_find_user_codec mem ok u (Some s) = (if codec_key s = codec_key ct then None else codec_of rt s) \<and>
    removed = (codec_of rt ct \<noteq> None)"
proof -
  have inv: "assoc_inv (rt_user_codecs rt)" by (rule codecs.reachable_inv [OF assms(1)])
  have dup: "dup ok i x = x" for i x using assms(3) by (simp add: dup_def split: option.split)
  note norm = codec_normalize_key [OF assms(2)]
  have find: "ducknng_runtime_find_user_codec mem ok r (Some s) = codec_of r s" for r
    by (simp add: ducknng_runtime_find_user_codec_def norm [OF assms(5)] dup codec_of_def)
  obtain t' where put: "assoc_put True (codec_key ct) fn (rt_user_codecs rt) = (True, t')"
    by (cases "assoc_put True (codec_key ct) fn (rt_user_codecs rt)") (auto simp: assoc_put_def split: option.splits)
  have t: "res = None" "t = rt\<lparr>rt_user_codecs := t'\<rparr>"
    using assms(6,7) by (auto simp: ducknng_runtime_register_user_codec_def norm [OF assms(4)] dup put)
  have u: "removed = fst (assoc_del (codec_key ct) (rt_user_codecs rt))"
    "u = rt\<lparr>rt_user_codecs := snd (assoc_del (codec_key ct) (rt_user_codecs rt))\<rparr>"
    using assms(8) by (auto simp: ducknng_runtime_unregister_user_codec_def norm [OF assms(4)] split: prod.splits)
  show ?thesis
    using assoc_put_get [OF inv put] assoc_del_get [OF inv, of "codec_key ct"] unfolding find t u
    by (auto simp: codec_of_def)
qed

definition sample_runtime :: runtime where
  "sample_runtime = \<lparr> rt_services = [], rt_service_cap = 0, rt_next_service_id = 1, rt_client_sockets = handle_table_init,
     rt_client_aios = handle_table_init, rt_http_client_streams = handle_table_init, rt_tls_configs = handle_table_init,
     rt_user_codecs = \<lparr> as_rows = [], as_cap = 0 \<rparr>, rt_subject_bindings = \<lparr> as_rows = [], as_cap = 0 \<rparr>,
     rt_execution_pool_capacity = 4, rt_execution_pool_max = 4 \<rparr>"

theorem codec_registry_map_witness:
  "\<exists>t. ducknng_runtime_register_user_codec (\<lambda>_. True) (\<lambda>_. True) True sample_runtime (Some '' Text/CSV'') (Some ''parse'') = (None, t) \<and>
     ducknng_runtime_find_user_codec (\<lambda>_. True) (\<lambda>_. True) t (Some ''text/csv '') = Some ''parse'' \<and>
     ducknng_runtime_find_user_codec (\<lambda>_. True) (\<lambda>_. True) sample_runtime (Some ''text/csv '') = codec_of sample_runtime ''text/csv ''"
proof -
  obtain res t where t: "ducknng_runtime_register_user_codec (\<lambda>_. True) (\<lambda>_. True) True sample_runtime (Some '' Text/CSV'') (Some ''parse'') = (res, t)"
    by (cases "ducknng_runtime_register_user_codec (\<lambda>_. True) (\<lambda>_. True) True sample_runtime (Some '' Text/CSV'') (Some ''parse'')")
  obtain gone u where u: "ducknng_runtime_unregister_user_codec (\<lambda>_. True) sample_runtime (Some '' Text/CSV'') = (gone, u)"
    by (cases "ducknng_runtime_unregister_user_codec (\<lambda>_. True) sample_runtime (Some '' Text/CSV'')")
  have keys: "codec_key '' Text/CSV'' = ''text/csv''" "codec_key ''text/csv '' = ''text/csv''" by code_simp+
  have "reachable codec_init codec_step sample_runtime"
    by (rule reach_init) (simp add: codec_init_def sample_runtime_def)
  from codec_registry_map [OF this _ _ _ _ _ t u, of "''text/csv ''"] t show ?thesis by (simp add: keys)
qed

section \<open>The log ring holds the latest entries\<close>

definition ring_entries :: "log_ring \<Rightarrow> log_entry list" where
  "ring_entries r = map (\<lambda>i. lr_entries r ! ((lr_head r + i) mod DUCKNNG_LOG_RING_CAP)) [0..<lr_count r]"

inductive log_run :: "log_entry list \<Rightarrow> log_ring \<Rightarrow> bool" where
  log_init: "log_run [] (ducknng_log_ring_init True)"
| log_append: "log_run es r \<Longrightarrow> log_run (es @ [log_copy ok ts level kind msg]) (ducknng_log_ring_append ok r ts level kind msg)"

lemma log_run_inv:
  "log_run es r \<Longrightarrow> lr_mu r \<and> length (lr_entries r) = 512 \<and> lr_head r < 512 \<and> lr_count r = min (length es) 512 \<and>
     (length es \<le> 512 \<longrightarrow> lr_head r = 0) \<and> ring_entries r = drop (length es - 512) es"
proof (induction rule: log_run.induct)
  case log_init
  then show ?case by (simp add: ducknng_log_ring_init_def ring_entries_def DUCKNNG_LOG_RING_CAP_def)
next
  case (log_append es r ok ts level kind msg)
  let ?e = "log_copy ok ts level kind msg"
  show ?case
  proof (cases "length es < 512")
    case True
    with log_append.IH have r: "lr_mu r" "lr_head r = 0" "lr_count r = length es" "length (lr_entries r) = 512" "ring_entries r = es"
      by simp_all
    from True r have app: "ducknng_log_ring_append ok r ts level kind msg =
        r\<lparr>lr_count := length es + 1, lr_entries := (lr_entries r)[length es := ?e]\<rparr>"
      by (simp add: ducknng_log_ring_append_def DUCKNNG_LOG_RING_CAP_def)
    have "map (\<lambda>i. (lr_entries r)[length es := ?e] ! (i mod 512)) [0..<length es] = map (\<lambda>i. lr_entries r ! (i mod 512)) [0..<length es]"
      using True by (auto intro!: map_cong)
    with r(2,3,5) have "map (\<lambda>i. (lr_entries r)[length es := ?e] ! (i mod 512)) [0..<length es] = es"
      by (simp add: ring_entries_def DUCKNNG_LOG_RING_CAP_def)
    then show ?thesis using r True by (simp add: app ring_entries_def DUCKNNG_LOG_RING_CAP_def)
  next
    case False
    with log_append.IH have r: "lr_mu r" "lr_count r = 512" "length (lr_entries r) = 512" "lr_head r < 512"
      "ring_entries r = drop (length es - 512) es" by simp_all
    have app: "ducknng_log_ring_append ok r ts level kind msg =
        r\<lparr>lr_head := (lr_head r + 1) mod 512, lr_entries := (lr_entries r)[lr_head r := ?e]\<rparr>"
      using r by (simp add: ducknng_log_ring_append_def DUCKNNG_LOG_RING_CAP_def)
    have "ring_entries (ducknng_log_ring_append ok r ts level kind msg) = tl (ring_entries r) @ [?e]"
      using ring_shift [OF r(4,3), of ?e] r(2) by (simp add: app ring_entries_def DUCKNNG_LOG_RING_CAP_def)
    also have "tl (ring_entries r) = drop (length (es @ [?e]) - 512) es"
    proof -
      have "length (es @ [?e]) - 512 = Suc (length es - 512)" using False by simp
      then show ?thesis unfolding r(5) by (simp only: drop_Suc tl_drop)
    qed
    finally show ?thesis using False r by (simp add: app not_less)
  qed
qed

text \<open>
  C36. The log ring. After any sequence of log calls a snapshot returns the last 512 entries, oldest first, each as it was
  recorded (a text whose copy could not be allocated is missing).
\<close>

theorem log_ring_exact:
  assumes "log_run es r" "\<forall>i j. ok i j"
  shows "ducknng_log_ring_snapshot ok r = drop (length es - 512) es"
proof -
  have dup: "dup (ok i) j x = x" for i j x using assms(2) by (simp add: dup_def split: option.split)
  have "log_copy (ok i) (Some (le_ts e)) (le_level e) (le_type e) (le_message e) = e" for i e
    by (simp add: log_copy_def dup)
  then have "ducknng_log_ring_snapshot ok r = (if lr_mu r then ring_entries r else [])"
    by (simp add: ducknng_log_ring_snapshot_def ring_entries_def Let_def)
  with log_run_inv [OF assms(1)] show ?thesis by simp
qed


theorem log_ring_exact_witness:
  "ducknng_log_ring_snapshot (\<lambda>_ _. True)
     (ducknng_log_ring_append (\<lambda>_. True) (ducknng_log_ring_append (\<lambda>_. True) (ducknng_log_ring_init True) (Some 1) None None (Some ''a''))
        (Some 2) None None (Some ''b'')) =
   [log_copy (\<lambda>_. True) (Some 1) None None (Some ''a''), log_copy (\<lambda>_. True) (Some 2) None None (Some ''b'')]"
proof -
  have "log_run (([] @ [log_copy (\<lambda>_. True) (Some 1) None None (Some ''a'')]) @ [log_copy (\<lambda>_. True) (Some 2) None None (Some ''b'')])
     (ducknng_log_ring_append (\<lambda>_. True) (ducknng_log_ring_append (\<lambda>_. True) (ducknng_log_ring_init True) (Some 1) None None (Some ''a''))
        (Some 2) None None (Some ''b''))"
    by (intro log_run.intros)
  from log_ring_exact [OF this, of "\<lambda>_ _. True"] show ?thesis by simp
qed

end
