(* ===== verification/JsonLocality.thy ===== *)
theory JsonLocality
  imports Util
begin

text \<open>
  Two facts about the JSON readers of \<open>ducknng_util.c\<close> that hold of every text they accept. They are local: what a reader makes
  of a text depends only on the part it consumes, so that the rest can be exchanged. They are monotone in memory: what they read
  with some allocations failing, they also read when none fails.
\<close>

section \<open>Locality\<close>

lemma skip_ws_local:
  assumes "ducknng_json_skip_ws p = c # q"
  obtains u where "p = u @ c # q" "list_all json_ws u" "\<not> json_ws c" "\<And>q'. ducknng_json_skip_ws (u @ c # q') = c # q'"
proof -
  let ?u = "takeWhile json_ws p"
  have d: "dropWhile json_ws p = c # q" using assms by (simp add: ducknng_json_skip_ws_def)
  then have c: "\<not> json_ws c" by (metis hd_dropWhile list.discI list.sel(1))
  have u: "list_all json_ws ?u" by (auto simp: list_all_iff dest: set_takeWhileD)
  have "dropWhile json_ws (?u @ c # q') = c # q'" for q'
    using u c by (simp add: list_all_iff dropWhile_append)
  with u c d show ?thesis
    by (intro that [of ?u]) (simp_all add: ducknng_json_skip_ws_def flip: d)
qed

lemma unicode_loop_local:
  assumes "unicode_loop n v p = Inr (w, q)"
  shows "\<exists>u. p = u @ q \<and> (\<forall>q'. unicode_loop n v (u @ q') = Inr (w, q'))"
  using assms
proof (induction n v p rule: unicode_loop.induct)
  case (3 n v h p)
  then obtain d where d: "ducknng_hex_value h = Some d" "unicode_loop n (v * 16 + d) p = Inr (w, q)"
    by (auto split: option.splits)
  from 3(1) [OF d] obtain u where "p = u @ q" "\<forall>q'. unicode_loop n (v * 16 + d) (u @ q') = Inr (w, q')" by blast
  with d(1) show ?case by (intro exI [of _ "h # u"]) simp
qed auto

lemma json_escape_local:
  assumes "json_escape p = Inr (c, q)"
  shows "\<exists>u. p = u @ q \<and> (\<forall>q'. json_escape (u @ q') = Inr (c, q'))"
proof (cases p)
  case (Cons e r)
  show ?thesis
  proof (cases "e = CHR ''u''")
    case True
    then obtain v where v: "unicode_loop 4 0 r = Inr (v, q)" "v \<noteq> 0" "\<not> v > 0x7f" "c = char_of v"
      using assms by (auto simp: Cons split: sum.splits prod.splits if_splits)
    from unicode_loop_local [OF v(1)] obtain u where "r = u @ q" "\<forall>q'. unicode_loop 4 0 (u @ q') = Inr (v, q')" by blast
    with True v show ?thesis by (intro exI [of _ "e # u"]) (simp add: Cons)
  next
    case False
    with assms show ?thesis by (intro exI [of _ "[e]"]) (auto simp: Cons split: if_splits)
  qed
qed (use assms in simp)

lemma json_string_loop_local:
  assumes "json_string_loop mem b p = Inr (s, q)"
  shows "\<exists>u. p = u @ q \<and> (\<forall>q'. json_string_loop mem b (u @ q') = Inr (s, q'))"
  using assms
proof (induction "length p" arbitrary: b p rule: less_induct)
  case less
  then obtain c r where p: "p = c # r" by (cases p) auto
  show ?case
  proof (cases "c = QUOTE")
    case True
    with less.prems show ?thesis
      by (intro exI [of _ "[c]"]) (auto simp: p json_string_loop.simps(2) split: if_splits)
  next
    case False
    then have c: "\<not> code c < 0x20" using less.prems by (auto simp: p json_string_loop.simps(2) split: if_splits)
    from json_string_loop_step [OF less.prems [unfolded p]] False obtain d r' b' where
      s: "(if c = BACKSLASH then json_escape r else Inr (c, r)) = Inr (d, r')" "length r' \<le> length r"
        "ducknng_buf_append mem b [d] = Some b'" "json_string_loop mem b' r' = Inr (s, q)" by blast
    obtain v where v: "r = v @ r'" "\<And>q'. (if c = BACKSLASH then json_escape (v @ q') else Inr (c, v @ q')) = Inr (d, q')"
      using s(1) json_escape_local [of r d r'] by (cases "c = BACKSLASH") auto
    from less.hyps [OF _ s(4)] s(2) p obtain u where u: "r' = u @ q" "\<forall>q'. json_string_loop mem b' (u @ q') = Inr (s, q')"
      by fastforce
    have "json_string_loop mem b (c # v @ u @ q') = Inr (s, q')" for q'
      unfolding json_string_loop.simps(2) v(2) using False c s(3) u(2) by simp
    with v(1) u(1) show ?thesis by (intro exI [of _ "c # v @ u"]) (simp add: p)
  qed
qed

lemma parse_string_local:
  assumes "ducknng_json_parse_string_dup mem p = Inr (s, q)"
  shows "\<exists>u. p = u @ q \<and> (\<forall>q'. ducknng_json_parse_string_dup mem (u @ q') = Inr (s, q'))"
proof -
  obtain r where p: "p = QUOTE # r" "json_string_loop mem sb_empty r = Inr (s, q)"
    using assms by (auto simp: ducknng_json_parse_string_dup_def split: list.splits if_splits)
  from json_string_loop_local [OF p(2)] obtain u where "r = u @ q" "\<forall>q'. json_string_loop mem sb_empty (u @ q') = Inr (s, q')"
    by blast
  with p(1) show ?thesis by (intro exI [of _ "QUOTE # u"]) (simp add: ducknng_json_parse_string_dup_def)
qed

text \<open>The same after leading blanks.\<close>

lemma parse_string_ws_local:
  assumes "ducknng_json_parse_string_dup mem (ducknng_json_skip_ws p) = Inr (s, q)"
  obtains u where "p = u @ q" "\<And>q'. ducknng_json_parse_string_dup mem (ducknng_json_skip_ws (u @ q')) = Inr (s, q')"
proof -
  obtain r where r: "ducknng_json_skip_ws p = QUOTE # r"
    using assms by (auto simp: ducknng_json_parse_string_dup_def split: list.splits if_splits)
  obtain u where u: "p = u @ QUOTE # r" "\<And>q'. ducknng_json_skip_ws (u @ QUOTE # q') = QUOTE # q'"
    by (rule skip_ws_local [OF r]) (rule that)
  obtain v where v: "QUOTE # r = v @ q" "\<forall>q'. ducknng_json_parse_string_dup mem (v @ q') = Inr (s, q')"
    using parse_string_local [OF assms [unfolded r]] by blast
  have "length q < length (QUOTE # r)" using parse_string_length [OF assms [unfolded r]] .
  then obtain w where w: "v = QUOTE # w" using v(1) by (cases v) auto
  show ?thesis
  proof (rule that [of "u @ v"])
    show "p = (u @ v) @ q" using u(1) v(1) by simp
    show "ducknng_json_parse_string_dup mem (ducknng_json_skip_ws ((u @ v) @ q')) = Inr (s, q')" for q'
      using u(2) v(2) by (simp add: w)
  qed
qed

text \<open>One field of a header object, by the pieces of its text.\<close>

lemma header_fields_pieces:
  assumes "ducknng_json_parse_string_dup mem (ducknng_json_skip_ws p) = Inr (k, p1)" "ducknng_json_skip_ws p1 = CHR '':'' # p2"
    and "ducknng_json_parse_string_dup mem (ducknng_json_skip_ws p2) = Inr (v, p3)" "ducknng_json_skip_ws p3 = d # p4"
    and "k = ''name'' \<and> name = None \<or> k = ''value'' \<and> hval = None"
  shows "header_fields mem n fr name hval p =
    (let name' = (if k = ''name'' then Some (n + 1, v) else name);
         hval' = (if k = ''name'' then hval else Some (n + 1, v))
     in if d = CHR '','' then header_fields mem (n + 2) (fr @ [n]) name' hval' p4
        else if d = CHR ''}'' then (Inr (name', hval', p4), n + 2, fr @ [n])
        else (Inl ''ducknng: expected ',' or '}' in headers_json'', n + 2, (fr @ [n]) @ free_vars [name', hval']))"
  unfolding header_fields.simps [of mem n fr name hval p] assms(1-4) sum.case prod.case list.case Let_def fst_conv
  using assms(5) by (auto simp del: not_None_eq)

lemma header_fields_success:
  assumes "header_fields mem n fr name hval p = (Inr (a, b, q), m, fr')"
  obtains k p1 p2 v p3 d p4 where
    "ducknng_json_parse_string_dup mem (ducknng_json_skip_ws p) = Inr (k, p1)" "ducknng_json_skip_ws p1 = CHR '':'' # p2"
    "ducknng_json_parse_string_dup mem (ducknng_json_skip_ws p2) = Inr (v, p3)" "ducknng_json_skip_ws p3 = d # p4"
    "k = ''name'' \<and> name = None \<or> k = ''value'' \<and> hval = None" "d = CHR '','' \<or> d = CHR ''}''"
  using assms
  by (auto simp: header_fields.simps [of mem n fr name hval p] Let_def simp del: not_None_eq
      split: sum.splits prod.splits list.splits if_splits)

lemma header_fields_local:
  assumes "header_fields mem n fr name hval p = (Inr (a, b, q), m, fr')"
  shows "\<exists>u. p = u @ q \<and> (\<forall>q'. header_fields mem n fr name hval (u @ q') = (Inr (a, b, q'), m, fr'))"
  using assms
proof (induction "length p" arbitrary: n fr name hval p rule: less_induct)
  case less
  obtain k p1 p2 v p3 d p4 where
      s: "ducknng_json_parse_string_dup mem (ducknng_json_skip_ws p) = Inr (k, p1)" "ducknng_json_skip_ws p1 = CHR '':'' # p2"
        "ducknng_json_parse_string_dup mem (ducknng_json_skip_ws p2) = Inr (v, p3)" "ducknng_json_skip_ws p3 = d # p4"
    and k: "k = ''name'' \<and> name = None \<or> k = ''value'' \<and> hval = None" and d: "d = CHR '','' \<or> d = CHR ''}''"
    by (rule header_fields_success [OF less.prems])
  obtain u1 where u1: "p = u1 @ p1" "\<And>q'. ducknng_json_parse_string_dup mem (ducknng_json_skip_ws (u1 @ q')) = Inr (k, q')"
    by (rule parse_string_ws_local [OF s(1)]) (rule that)
  obtain u2 where u2: "p1 = u2 @ CHR '':'' # p2" "\<And>q'. ducknng_json_skip_ws (u2 @ CHR '':'' # q') = CHR '':'' # q'"
    by (rule skip_ws_local [OF s(2)]) (rule that)
  obtain u3 where u3: "p2 = u3 @ p3" "\<And>q'. ducknng_json_parse_string_dup mem (ducknng_json_skip_ws (u3 @ q')) = Inr (v, q')"
    by (rule parse_string_ws_local [OF s(3)]) (rule that)
  obtain u4 where u4: "p3 = u4 @ d # p4" "\<And>q'. ducknng_json_skip_ws (u4 @ d # q') = d # q'"
    by (rule skip_ws_local [OF s(4)]) (rule that)
  let ?u = "u1 @ u2 @ CHR '':'' # u3 @ u4 @ [d]"
  let ?name = "if k = ''name'' then Some (n + 1, v) else name" and ?hval = "if k = ''name'' then hval else Some (n + 1, v)"
  have step: "header_fields mem n fr name hval (?u @ q') =
      (if d = CHR '','' then header_fields mem (n + 2) (fr @ [n]) ?name ?hval q' else (Inr (?name, ?hval, q'), n + 2, fr @ [n]))" for q'
  proof -
    have t: "?u @ q' = u1 @ (u2 @ CHR '':'' # u3 @ u4 @ d # q')" by simp
    show ?thesis
      unfolding t header_fields_pieces [OF u1(2) u2(2) u3(2) u4(2) k] Let_def using d by auto
  qed
  have p: "p = ?u @ p4" using u1(1) u2(1) u3(1) u4(1) by simp
  show ?case
  proof (cases "d = CHR '',''")
    case True
    then have "header_fields mem (n + 2) (fr @ [n]) ?name ?hval p4 = (Inr (a, b, q), m, fr')"
      using less.prems step [of p4] p by simp
    from less.hyps [OF _ this] obtain u where
      u: "p4 = u @ q" "\<forall>q'. header_fields mem (n + 2) (fr @ [n]) ?name ?hval (u @ q') = (Inr (a, b, q'), m, fr')"
      using p by auto
    have "header_fields mem n fr name hval ((?u @ u) @ q') = (Inr (a, b, q'), m, fr')" for q'
      using step [of "u @ q'"] u(2) True by simp
    then show ?thesis using p u(1) by (intro exI [of _ "?u @ u"]) simp
  next
    case False
    then show ?thesis using less.prems step p by (intro exI [of _ ?u]) auto
  qed
qed

text \<open>
  The list: up to its closing bracket the text can be followed by anything, and with a comma instead of the bracket reading goes
  on where it had stopped.
\<close>

lemma header_list_local:
  assumes "header_list_loop mem w reject found n fr p = (Inr (f, q), m, fr')"
  shows "\<exists>u. p = u @ CHR '']'' # q \<and> \<not> list_all json_ws u \<and>
    (\<forall>q'. header_list_loop mem w reject found n fr (u @ CHR '']'' # q') = (Inr (f, q'), m, fr')) \<and>
    (\<forall>q'. header_list_loop mem w reject found n fr (u @ CHR '','' # q') = header_list_loop mem w reject f m fr' q')"
  using assms
proof (induction "length p" arbitrary: found n fr p rule: less_induct)
  case less
  obtain p1 name hval p2 n1 fr1 d p3 where
      s: "ducknng_json_skip_ws p = CHR ''{'' # p1" "header_fields mem n fr None None p1 = (Inr (name, hval, p2), n1, fr1)"
        "ducknng_json_skip_ws p2 = d # p3" and d: "d = CHR '','' \<or> d = CHR '']''"
    using less.prems
    by (auto simp: header_list_loop.simps [of mem w reject found n fr p] Let_def simp del: not_None_eq
        split: sum.splits prod.splits list.splits if_splits)
  obtain u1 where u1: "p = u1 @ CHR ''{'' # p1" "\<And>q'. ducknng_json_skip_ws (u1 @ CHR ''{'' # q') = CHR ''{'' # q'"
    by (rule skip_ws_local [OF s(1)]) (rule that)
  obtain u2 where u2: "p1 = u2 @ p2" "\<And>q'. header_fields mem n fr None None (u2 @ q') = (Inr (name, hval, q'), n1, fr1)"
    using header_fields_local [OF s(2)] by blast
  obtain u3 where u3: "p2 = u3 @ d # p3" "\<not> json_ws d" "\<And>q'. ducknng_json_skip_ws (u3 @ d # q') = d # q'" "list_all json_ws u3"
    by (rule skip_ws_local [OF s(3)]) (rule that)
  have u3': "ducknng_json_skip_ws (u3 @ e # q') = e # q'" if "\<not> json_ws e" for e q'
    using u3(4) that by (simp add: ducknng_json_skip_ws_def list_all_iff dropWhile_append)
  let ?u = "u1 @ CHR ''{'' # u2 @ u3"
  let ?hit = "ducknng_ascii_ieq (map_option snd name) (Some w)"
  let ?fr = "(if ?hit then fr1 @ free_vars [found] else fr1) @ free_vars [name, hval]"
  let ?found = "if ?hit then Some (n1, snd (the hval)) else found" and ?n = "if ?hit then n1 + 1 else n1"
  have sep: "\<not> json_ws (CHR '','')" "\<not> json_ws (CHR '']'')" by (simp_all add: json_ws_def)
  have p: "p = ?u @ d # p3" using u1(1) u2(1) u3(1) by simp
  have whole: "?u @ e # q' = u1 @ CHR ''{'' # u2 @ (u3 @ e # q')" for e q' by simp
  have good: "nonempty (map_option snd name)" "hval \<noteq> None" "ducknng_http_header_value_is_valid (map_option snd hval)"
      "\<not> (?hit \<and> found \<noteq> None \<and> reject)" "\<not> (?hit \<and> \<not> mem (length (snd (the hval)) + 1))"
    using less.prems s
    by (auto simp: header_list_loop.simps [of mem w reject found n fr p] Let_def simp del: not_None_eq split: if_splits)
  have step: "header_list_loop mem w reject found n fr (?u @ e # q') =
      (if e = CHR '','' then header_list_loop mem w reject ?found ?n ?fr q' else (Inr (?found, q'), ?n, ?fr))"
    if e: "e = CHR '','' \<or> e = CHR '']''" for e q'
  proof -
    have ws: "\<not> json_ws e" using e sep by auto
    show ?thesis
      unfolding whole header_list_loop.simps [of mem w reject found n fr] u1(2) list.case u2(2) prod.case sum.case u3' [OF ws] Let_def
      using good e by (auto simp del: not_None_eq)
  qed
  have brace: "\<not> list_all json_ws ?u" by (simp add: json_ws_def)
  show ?case
  proof (cases "d = CHR '',''")
    case True
    then have "header_list_loop mem w reject ?found ?n ?fr p3 = (Inr (f, q), m, fr')"
      using less.prems step [OF d, of p3] p by simp
    from less.hyps [OF _ this] obtain u where
      u: "p3 = u @ CHR '']'' # q" "\<forall>q'. header_list_loop mem w reject ?found ?n ?fr (u @ CHR '']'' # q') = (Inr (f, q'), m, fr')"
        "\<forall>q'. header_list_loop mem w reject ?found ?n ?fr (u @ CHR '','' # q') = header_list_loop mem w reject f m fr' q'"
      using p by auto
    have "header_list_loop mem w reject found n fr ((?u @ d # u) @ q') = header_list_loop mem w reject ?found ?n ?fr (u @ q')" for q'
      using step [OF d, of "u @ q'"] True by simp
    with u brace p show ?thesis by (intro exI [of _ "?u @ d # u"]) auto
  next
    case False
    with d have d': "d = CHR '']''" by blast
    with less.prems step [OF d, of p3] p have r: "f = ?found" "q = p3" "m = ?n" "fr' = ?fr" by simp_all
    show ?thesis using p d' brace step [of "CHR '']''"] step [of "CHR '',''"] unfolding r by (intro exI [of _ ?u]) simp
  qed
qed

section \<open>Monotonicity in memory\<close>

abbreviation all_mem :: "nat \<Rightarrow> bool" where
  "all_mem \<equiv> \<lambda>_. True"

lemma buf_append_mono: "ducknng_buf_append mem b s = Some b' \<Longrightarrow> ducknng_buf_append all_mem b s = Some b'"
  by (auto simp: ducknng_buf_append_def Let_def split: Option.bind_splits if_splits)

lemma json_string_loop_mono: "json_string_loop mem b p = Inr r \<Longrightarrow> json_string_loop all_mem b p = Inr r"
proof (induction "length p" arbitrary: b p rule: less_induct)
  case less
  obtain c q where p: "p = c # q" using less.prems by (cases p) auto
  show ?case
  proof (cases "c = QUOTE")
    case True
    with less.prems show ?thesis by (auto simp: p json_string_loop.simps(2) split: if_splits)
  next
    case False
    obtain s t where r: "r = (s, t)" by (cases r)
    have c: "\<not> code c < 0x20" using less.prems False by (auto simp: p json_string_loop.simps(2) split: if_splits)
    from json_string_loop_step [OF less.prems [unfolded p r]] False obtain d q' b' where
      s: "(if c = BACKSLASH then json_escape q else Inr (c, q)) = Inr (d, q')" "length q' \<le> length q"
        "ducknng_buf_append mem b [d] = Some b'" "json_string_loop mem b' q' = Inr r" unfolding r by blast
    have "json_string_loop all_mem b' q' = Inr r" using less.hyps [OF _ s(4)] s(2) p by simp
    then show ?thesis
      unfolding p json_string_loop.simps(2) s(1) using False c buf_append_mono [OF s(3)] by simp
  qed
qed

lemma parse_string_mono:
  "ducknng_json_parse_string_dup mem p = Inr r \<Longrightarrow> ducknng_json_parse_string_dup all_mem p = Inr r"
  by (auto simp: ducknng_json_parse_string_dup_def split: list.splits if_splits intro: json_string_loop_mono)

lemma header_fields_mono:
  "header_fields mem n fr name hval p = (Inr r, m, fr') \<Longrightarrow> header_fields all_mem n fr name hval p = (Inr r, m, fr')"
proof (induction "length p" arbitrary: n fr name hval p rule: less_induct)
  case less
  obtain a b q where r: "r = (a, b, q)" by (cases r)
  obtain k p1 p2 v p3 d p4 where
      s: "ducknng_json_parse_string_dup mem (ducknng_json_skip_ws p) = Inr (k, p1)" "ducknng_json_skip_ws p1 = CHR '':'' # p2"
        "ducknng_json_parse_string_dup mem (ducknng_json_skip_ws p2) = Inr (v, p3)" "ducknng_json_skip_ws p3 = d # p4"
    and k: "k = ''name'' \<and> name = None \<or> k = ''value'' \<and> hval = None" and d: "d = CHR '','' \<or> d = CHR ''}''"
    by (rule header_fields_success [OF less.prems [unfolded r]])
  note here = header_fields_pieces [OF s k, of n fr]
  note there = header_fields_pieces [OF parse_string_mono [OF s(1)] s(2) parse_string_mono [OF s(3)] s(4) k, of n fr]
  show ?case
  proof (cases "d = CHR '',''")
    case True
    with less.prems less.hyps [OF header_field_shorter [OF s]] show ?thesis
      unfolding here there Let_def by simp
  next
    case False
    with less.prems show ?thesis unfolding here there Let_def by simp
  qed
qed

lemma header_list_mono:
  "header_list_loop mem w reject found n fr p = (Inr r, m, fr') \<Longrightarrow> header_list_loop all_mem w reject found n fr p = (Inr r, m, fr')"
proof (induction "length p" arbitrary: reject found n fr p rule: less_induct)
  case less
  obtain p1 name hval p2 n1 fr1 d p3 where
      s: "ducknng_json_skip_ws p = CHR ''{'' # p1" "header_fields mem n fr None None p1 = (Inr (name, hval, p2), n1, fr1)"
        "ducknng_json_skip_ws p2 = d # p3"
    using less.prems
    by (auto simp: header_list_loop.simps [of mem w reject found n fr p] Let_def simp del: not_None_eq
        split: sum.splits prod.splits list.splits if_splits)
  note shorter = less.hyps [OF header_list_shorter [OF s(1) s(2) [symmetric] s(3)]]
  from less.prems show ?case
    unfolding header_list_loop.simps [of mem w reject found n fr p] header_list_loop.simps [of all_mem w reject found n fr p]
      s header_fields_mono [OF s(2)] list.case prod.case sum.case Let_def
    by (auto simp del: not_None_eq split: if_splits intro: shorter)
qed

lemma get_header_mono:
  assumes "ducknng_http_headers_json_get_header mem h w reject = (Inr f, n, fr)"
  shows "ducknng_http_headers_json_get_header all_mem h w reject = (Inr f, n, fr)"
  using assms unfolding ducknng_http_headers_json_get_header_def
  by (auto simp: Let_def split: if_splits list.splits sum.splits prod.splits dest: header_list_mono)

lemma json_array_loop_mono: "json_array_loop mem w found count p = Inr r \<Longrightarrow> json_array_loop all_mem w found count p = Inr r"
proof (induction mem w found count p rule: json_array_loop.induct)
  case (1 mem w found count p)
  then show ?case
    unfolding json_array_loop.simps [of mem w found count p] json_array_loop.simps [of all_mem w found count p]
    by (auto simp: Let_def split: sum.splits prod.splits list.splits if_splits dest: parse_string_mono)
qed

lemma array_contains_mono:
  "ducknng_json_string_array_contains mem j w = Inr r \<Longrightarrow> ducknng_json_string_array_contains all_mem j w = Inr r"
  unfolding ducknng_json_string_array_contains_def
  by (auto simp: Let_def split: if_splits list.splits sum.splits prod.splits dest: json_array_loop_mono)

end
