(* ===== verification/HttpProfile.thy ===== *)
theory HttpProfile
  imports Runtime Transport JsonLocality
begin

text \<open>
  HTTP profiles (\<open>ducknng_http_profile.c\<close>): named credentials that the client adds to a request when the request is inside the
  scope of the profile. The theory models the registry of profiles, the copies it hands out, and the resolution that decides
  whether a request gets the credential header; it shows that the registry is a finite map of well-formed profiles. What the
  resolution releases is the subject of \<open>Credentials\<close>.

  \<open>mem n\<close>: \<open>n\<close> bytes can be allocated; \<open>ok i\<close>: the \<open>i\<close>-th string copy succeeds. The wall clock and the URL parser of NNG are
  parameters.
\<close>

record http_profile =
  pf_id :: cstring
  pf_scheme :: cstring
  pf_host :: cstring
  pf_port :: u16
  pf_has_port :: bool
  pf_path_prefix :: cstring
  pf_method :: cstring
  pf_tls_required :: bool
  pf_auth_name :: cstring
  pf_auth_value :: cstring
  pf_allow_subjects :: cstring
  pf_version :: u64
  pf_created_ms :: u64
  pf_updated_ms :: u64
  pf_expires_at_ms :: u64

record profile_info =
  pi_id :: cstring
  pi_scheme :: cstring
  pi_host :: cstring
  pi_port :: u16
  pi_has_port :: bool
  pi_path_prefix :: cstring
  pi_method :: cstring
  pi_tls_required :: bool
  pi_auth_names_json :: cstring
  pi_allow_subjects :: cstring
  pi_version :: u64
  pi_created_ms :: u64
  pi_updated_ms :: u64
  pi_expires_at_ms :: u64

record profile_registry =
  profiles :: "http_profile list"
  profile_cap :: nat
  next_profile_version :: u64

definition blank_profile :: http_profile where
  "blank_profile = \<lparr> pf_id = None, pf_scheme = None, pf_host = None, pf_port = 0, pf_has_port = False, pf_path_prefix = None,
     pf_method = None, pf_tls_required = False, pf_auth_name = None, pf_auth_value = None, pf_allow_subjects = None,
     pf_version = 0, pf_created_ms = 0, pf_updated_ms = 0, pf_expires_at_ms = 0 \<rparr>"

definition ducknng_http_profile_reset :: "http_profile \<Rightarrow> http_profile" where
  "ducknng_http_profile_reset p = blank_profile"

section \<open>Strings\<close>

definition ducknng_http_profile_string_clean :: "cstring \<Rightarrow> bool" where
  "ducknng_http_profile_string_clean s = (nonempty s \<and> list_all (\<lambda>c. \<not> (code c < 0x20 \<or> code c = 0x7f)) (deref s))"

definition trim :: "string \<Rightarrow> string" where
  "trim s = rev (dropWhile json_ws (rev (dropWhile json_ws s)))"

definition dup_trim :: "(char \<Rightarrow> char) \<Rightarrow> (nat \<Rightarrow> bool) \<Rightarrow> cstring \<Rightarrow> cstring" where
  "dup_trim f mem s =
     (case s of
        None \<Rightarrow> None
      | Some s \<Rightarrow> if trim s = [] \<or> \<not> mem (length (trim s) + 1) then None else Some (map f (trim s)))"

definition ducknng_http_profile_dup_trim_lower :: "(nat \<Rightarrow> bool) \<Rightarrow> cstring \<Rightarrow> cstring" where
  "ducknng_http_profile_dup_trim_lower = dup_trim ascii_lower"

definition ducknng_http_profile_dup_trim_upper :: "(nat \<Rightarrow> bool) \<Rightarrow> cstring \<Rightarrow> cstring" where
  "ducknng_http_profile_dup_trim_upper = dup_trim ascii_upper"

definition ducknng_http_profile_method_valid :: "cstring \<Rightarrow> bool" where
  "ducknng_http_profile_method_valid m = (nonempty m \<and> (m = Some ''*'' \<or> ducknng_http_token_is_valid m))"

definition ducknng_http_profile_header_value_valid :: "cstring \<Rightarrow> bool" where
  "ducknng_http_profile_header_value_valid v = (nonempty v \<and> ducknng_http_header_value_is_valid v)"

definition ducknng_http_profile_path_in_scope :: "cstring \<Rightarrow> cstring \<Rightarrow> bool" where
  "ducknng_http_profile_path_in_scope path prefix =
     (if path = None \<or> \<not> nonempty prefix \<or> hd (deref prefix) \<noteq> CHR ''/'' then False
      else if prefix = Some ''/'' then True
      else let p = deref prefix; rest = drop (length p) (deref path)
        in if take (length p) (deref path) \<noteq> p then False
           else if rest = [] then True
           else if last p = CHR ''/'' then True
           else hd rest = CHR ''/'')"

section \<open>Copies\<close>

definition ducknng_http_profile_copy :: "(nat \<Rightarrow> bool) \<Rightarrow> http_profile \<Rightarrow> bool \<times> http_profile" where
  "ducknng_http_profile_copy ok src =
     (let dst = blank_profile\<lparr>pf_id := dup ok 0 (pf_id src), pf_scheme := dup ok 1 (pf_scheme src), pf_host := dup ok 2 (pf_host src),
            pf_path_prefix := dup ok 3 (pf_path_prefix src), pf_method := dup ok 4 (pf_method src),
            pf_auth_name := dup ok 5 (pf_auth_name src), pf_auth_value := dup ok 6 (pf_auth_value src),
            pf_allow_subjects := dup ok 7 (pf_allow_subjects src)\<rparr>
      in if pf_id src \<noteq> None \<and> pf_id dst = None \<or> pf_scheme src \<noteq> None \<and> pf_scheme dst = None \<or>
            pf_host src \<noteq> None \<and> pf_host dst = None \<or> pf_path_prefix src \<noteq> None \<and> pf_path_prefix dst = None \<or>
            pf_method src \<noteq> None \<and> pf_method dst = None \<or> pf_auth_name src \<noteq> None \<and> pf_auth_name dst = None \<or>
            pf_auth_value src \<noteq> None \<and> pf_auth_value dst = None \<or>
            pf_allow_subjects src \<noteq> None \<and> pf_allow_subjects dst = None
         then (False, ducknng_http_profile_reset dst)
         else (True, dst\<lparr>pf_port := pf_port src, pf_has_port := pf_has_port src, pf_tls_required := pf_tls_required src,
                pf_version := pf_version src, pf_created_ms := pf_created_ms src, pf_updated_ms := pf_updated_ms src,
                pf_expires_at_ms := pf_expires_at_ms src\<rparr>))"

text \<open>The copy for introspection; \<open>None\<close>: an allocation fails.\<close>

definition ducknng_http_profile_public_copy :: "(nat \<Rightarrow> bool) \<Rightarrow> (nat \<Rightarrow> bool) \<Rightarrow> http_profile \<Rightarrow> profile_info option" where
  "ducknng_http_profile_public_copy mem ok src =
     (let name = deref (pf_auth_name src)
      in if pf_id src \<noteq> None \<and> dup ok 0 (pf_id src) = None \<or> pf_scheme src \<noteq> None \<and> dup ok 1 (pf_scheme src) = None \<or>
            pf_host src \<noteq> None \<and> dup ok 2 (pf_host src) = None \<or>
            pf_path_prefix src \<noteq> None \<and> dup ok 3 (pf_path_prefix src) = None \<or>
            pf_method src \<noteq> None \<and> dup ok 4 (pf_method src) = None
         then None
         else if \<not> mem (length name + 5) then None
         else if pf_allow_subjects src \<noteq> None \<and> dup ok 5 (pf_allow_subjects src) = None then None
         else Some \<lparr> pi_id = dup ok 0 (pf_id src), pi_scheme = dup ok 1 (pf_scheme src), pi_host = dup ok 2 (pf_host src),
           pi_port = pf_port src, pi_has_port = pf_has_port src, pi_path_prefix = dup ok 3 (pf_path_prefix src),
           pi_method = dup ok 4 (pf_method src), pi_tls_required = pf_tls_required src,
           pi_auth_names_json = Some (CHR ''['' # QUOTE # name @ [QUOTE, CHR '']'']),
           pi_allow_subjects = dup ok 5 (pf_allow_subjects src), pi_version = pf_version src,
           pi_created_ms = pf_created_ms src, pi_updated_ms = pf_updated_ms src, pi_expires_at_ms = pf_expires_at_ms src \<rparr>)"

section \<open>The registry\<close>

definition ducknng_http_profiles_reserve :: "bool \<Rightarrow> profile_registry \<Rightarrow> nat \<Rightarrow> cstring \<times> profile_registry" where
  "ducknng_http_profiles_reserve room reg want =
     (if profile_cap reg \<ge> want then (None, reg)
      else if \<not> room then (Some ''ducknng: out of memory growing HTTP profile registry'', reg)
      else (None, reg\<lparr>profile_cap := double_until (if profile_cap reg \<noteq> 0 then profile_cap reg * 2 else 4) want\<rparr>))"

text \<open>The arguments of a registration.\<close>

record profile_args =
  pa_id :: cstring
  pa_scheme :: cstring
  pa_host :: cstring
  pa_port :: int
  pa_has_port :: bool
  pa_path_prefix :: cstring
  pa_method :: cstring
  pa_tls_required :: bool
  pa_auth_name :: cstring
  pa_auth_value :: cstring
  pa_expires_at_ms :: u64
  pa_allow_subjects :: cstring

text \<open>The checks before anything is copied; \<open>None\<close>: they pass.\<close>

definition allow_subjects_error :: "(nat \<Rightarrow> bool) \<Rightarrow> profile_args \<Rightarrow> cstring" where
  "allow_subjects_error mem a =
     (if nonempty (pa_allow_subjects a)
      then (case ducknng_json_string_array_contains mem (pa_allow_subjects a) None of
              Inl err \<Rightarrow> Some ''ducknng: HTTP profile allow_subjects_json must be a JSON array of strings''
            | Inr (found, count) \<Rightarrow>
                if count = 0
                then Some ''ducknng: HTTP profile allow_subjects_json must list at least one subject; pass NULL for an unrestricted profile''
                else None)
      else None)"

definition profile_args_error :: "(nat \<Rightarrow> bool) \<Rightarrow> profile_args \<Rightarrow> cstring" where
  "profile_args_error mem a =
     (if allow_subjects_error mem a \<noteq> None then allow_subjects_error mem a
      else if \<not> ducknng_http_profile_string_clean (pa_id a)
      then Some ''ducknng: HTTP profile id must be a non-empty string without control characters''
      else if \<not> ducknng_http_profile_string_clean (pa_host a)
      then Some ''ducknng: HTTP profile host must be a non-empty host name''
      else if \<not> nonempty (pa_path_prefix a) \<or> hd (deref (pa_path_prefix a)) \<noteq> CHR ''/''
      then Some (''ducknng: HTTP profile path_prefix must start with '' @ quoted ''/'')
      else if \<not> ducknng_http_token_is_valid (pa_auth_name a)
      then Some ''ducknng: HTTP profile auth header name must be an HTTP token''
      else if \<not> ducknng_http_profile_header_value_valid (pa_auth_value a)
      then Some ''ducknng: HTTP profile auth header value must be non-empty and must not contain control characters''
      else if pa_has_port a \<and> (pa_port a \<le> 0 \<or> pa_port a > 65535)
      then Some ''ducknng: HTTP profile port must be between 1 and 65535''
      else None)"

text \<open>The new profile, before its version and times are set.\<close>

definition profile_draft :: "(nat \<Rightarrow> bool) \<Rightarrow> (nat \<Rightarrow> bool) \<Rightarrow> profile_args \<Rightarrow> http_profile" where
  "profile_draft mem ok a =
     blank_profile\<lparr>pf_id := dup ok 0 (pa_id a), pf_scheme := ducknng_http_profile_dup_trim_lower mem (pa_scheme a),
       pf_host := ducknng_http_profile_dup_trim_lower mem (pa_host a), pf_path_prefix := dup ok 1 (pa_path_prefix a),
       pf_method := ducknng_http_profile_dup_trim_upper mem (if nonempty (pa_method a) then pa_method a else Some ''*''),
       pf_auth_name := dup ok 2 (pa_auth_name a), pf_auth_value := dup ok 3 (pa_auth_value a),
       pf_allow_subjects := (if nonempty (pa_allow_subjects a) then dup ok 4 (pa_allow_subjects a) else None)\<rparr>"

definition profile_of_args :: "(nat \<Rightarrow> bool) \<Rightarrow> (nat \<Rightarrow> bool) \<Rightarrow> profile_args \<Rightarrow> string + http_profile" where
  "profile_of_args mem ok a =
     (let new = profile_draft mem ok a
      in if pf_id new = None \<or> pf_scheme new = None \<or> pf_host new = None \<or> pf_path_prefix new = None \<or> pf_method new = None \<or>
            pf_auth_name new = None \<or> pf_auth_value new = None \<or>
            nonempty (pa_allow_subjects a) \<and> pf_allow_subjects new = None
         then Inl ''ducknng: out of memory copying HTTP profile''
         else if \<not> (pf_scheme new = Some ''http'' \<or> pf_scheme new = Some ''https'')
         then Inl ''ducknng: HTTP profile scheme must be http or https''
         else if pa_tls_required a \<and> pf_scheme new \<noteq> Some ''https''
         then Inl (''ducknng: HTTP profile tls_required requires scheme = '' @ quoted ''https'')
         else if \<not> ducknng_http_profile_method_valid (pf_method new)
         then Inl (''ducknng: HTTP profile method must be an HTTP token or '' @ quoted ''*'')
         else Inr (new\<lparr>pf_port := (if pa_has_port a then word_of_int (pa_port a) else 0), pf_has_port := pa_has_port a,
                pf_tls_required := pa_tls_required a, pf_expires_at_ms := pa_expires_at_ms a\<rparr>))"

definition take_version :: "profile_registry \<Rightarrow> u64 \<times> profile_registry" where
  "take_version reg =
     (let v = next_profile_version reg
      in if v = 0 then (v + 1, reg\<lparr>next_profile_version := v + 2\<rparr>) else (v, reg\<lparr>next_profile_version := v + 1\<rparr>))"

definition has_id :: "string \<Rightarrow> http_profile \<Rightarrow> bool" where
  "has_id i p = (pf_id p = Some i)"

text \<open>\<open>now\<close> is the wall clock, \<open>room\<close> whether the array can grow.\<close>

definition ducknng_runtime_upsert_http_profile ::
  "(nat \<Rightarrow> bool) \<Rightarrow> (nat \<Rightarrow> bool) \<Rightarrow> bool \<Rightarrow> u64 \<Rightarrow> profile_registry \<Rightarrow> profile_args \<Rightarrow> cstring \<times> profile_registry" where
  "ducknng_runtime_upsert_http_profile mem ok room now reg a =
     (if profile_args_error mem a \<noteq> None then (profile_args_error mem a, reg)
      else case profile_of_args mem ok a of
        Inl err \<Rightarrow> (Some err, reg)
      | Inr new \<Rightarrow>
          (case find_idx (has_id (deref (pa_id a))) (profiles reg) of
             Some i \<Rightarrow>
               (case take_version reg of (v, reg) \<Rightarrow>
                  (None, reg\<lparr>profiles := (profiles reg)[i :=
                     new\<lparr>pf_created_ms := pf_created_ms (profiles reg ! i), pf_updated_ms := now, pf_version := v\<rparr>]\<rparr>))
           | None \<Rightarrow>
               (case ducknng_http_profiles_reserve room reg (length (profiles reg) + 1) of
                  (Some err, reg) \<Rightarrow> (Some err, reg)
                | (None, reg) \<Rightarrow>
                    (case take_version reg of (v, reg) \<Rightarrow>
                       (None, reg\<lparr>profiles := profiles reg @ [new\<lparr>pf_created_ms := now, pf_updated_ms := now, pf_version := v\<rparr>]\<rparr>)))))"

definition ducknng_runtime_drop_http_profile :: "profile_registry \<Rightarrow> cstring \<Rightarrow> bool \<times> profile_registry" where
  "ducknng_runtime_drop_http_profile reg profile_id =
     (if \<not> nonempty profile_id then (False, reg)
      else case find_idx (has_id (deref profile_id)) (profiles reg) of
        None \<Rightarrow> (False, reg)
      | Some i \<Rightarrow> (True, reg\<lparr>profiles := remove_nth i (profiles reg)\<rparr>))"

text \<open>
  The snapshot; \<open>ok i\<close> are the string copies of profile \<open>i\<close>. On a failed copy the lock is released before the number of entries
  to reset is read: \<open>later\<close> is the number of profiles at that moment. The second component is the number of entries that are
  reset.
\<close>

fun snapshot_loop :: "(nat \<Rightarrow> bool) \<Rightarrow> (nat \<Rightarrow> nat \<Rightarrow> bool) \<Rightarrow> nat \<Rightarrow> http_profile list \<Rightarrow> profile_info list option" where
  "snapshot_loop mem ok i [] = Some []"
| "snapshot_loop mem ok i (p # ps) =
     (case ducknng_http_profile_public_copy mem (ok i) p of
        None \<Rightarrow> None
      | Some c \<Rightarrow> map_option ((#) c) (snapshot_loop mem ok (Suc i) ps))"

definition ducknng_runtime_http_profiles_snapshot ::
  "(nat \<Rightarrow> bool) \<Rightarrow> (nat \<Rightarrow> nat \<Rightarrow> bool) \<Rightarrow> bool \<Rightarrow> profile_registry \<Rightarrow> nat \<Rightarrow> (string + profile_info list) \<times> nat" where
  "ducknng_runtime_http_profiles_snapshot mem ok room reg later =
     (if profiles reg \<noteq> [] \<and> \<not> room then (Inl ''ducknng: out of memory snapshotting HTTP profiles'', 0)
      else case snapshot_loop mem ok 0 (profiles reg) of
        None \<Rightarrow> (Inl ''ducknng: out of memory copying HTTP profile snapshot'', later)
      | Some out \<Rightarrow> (Inr out, 0))"

definition ducknng_runtime_http_profiles_reset :: "profile_registry \<Rightarrow> profile_registry" where
  "ducknng_runtime_http_profiles_reset reg = reg\<lparr>profiles := [], profile_cap := 0\<rparr>"

section \<open>Resolution\<close>

definition ducknng_http_profile_find_copy :: "(nat \<Rightarrow> bool) \<Rightarrow> profile_registry \<Rightarrow> cstring \<Rightarrow> string + http_profile" where
  "ducknng_http_profile_find_copy ok reg profile_id =
     (if \<not> nonempty profile_id then Inl ''ducknng: HTTP profile id is required''
      else case find_idx (has_id (deref profile_id)) (profiles reg) of
        None \<Rightarrow> Inl ''ducknng: HTTP profile not found''
      | Some i \<Rightarrow>
          (case ducknng_http_profile_copy ok (profiles reg ! i) of
             (False, _) \<Rightarrow> Inl ''ducknng: out of memory copying HTTP profile''
           | (True, p) \<Rightarrow> Inr p))"

text \<open>\<open>strtoul (s, &end, 10)\<close>: the value and the text at \<open>end\<close>.\<close>

definition c_space :: "char \<Rightarrow> bool" where
  "c_space c \<longleftrightarrow> code c = 32 \<or> 9 \<le> code c \<and> code c \<le> 13"

definition dec_digit :: "char \<Rightarrow> bool" where
  "dec_digit c \<longleftrightarrow> 48 \<le> code c \<and> code c \<le> 57"

definition decimal :: "string \<Rightarrow> int" where
  "decimal s = foldl (\<lambda>v c. v * 10 + int (code c - 48)) 0 s"

definition strtoul10 :: "string \<Rightarrow> int \<times> string" where
  "strtoul10 s =
     (let t = dropWhile c_space s;
          neg = (t \<noteq> [] \<and> hd t = CHR ''-'');
          u = (if t \<noteq> [] \<and> (hd t = CHR ''-'' \<or> hd t = CHR ''+'') then tl t else t);
          v = decimal (takeWhile dec_digit u)
      in if takeWhile dec_digit u = [] then (0, s)
         else (if v \<ge> 2 ^ 64 then 2 ^ 64 - 1 else if neg then (2 ^ 64 - v) mod 2 ^ 64 else v, dropWhile dec_digit u))"

definition ducknng_http_profile_parse_port :: "cstring \<Rightarrow> u16 \<Rightarrow> u16 option" where
  "ducknng_http_profile_parse_port s dflt =
     (if \<not> nonempty s then Some dflt
      else case strtoul10 (deref s) of
        (v, rest) \<Rightarrow> if rest = deref s \<or> rest \<noteq> [] \<or> v = 0 \<or> v > 65535 then None else Some (word_of_int v))"

definition profile_escape :: "char \<Rightarrow> string" where
  "profile_escape c =
     (if c = QUOTE then [BACKSLASH, QUOTE]
      else if c = BACKSLASH then [BACKSLASH, BACKSLASH]
      else if code c = 10 then [BACKSLASH, CHR ''n'']
      else if code c = 13 then [BACKSLASH, CHR ''r'']
      else if code c = 9 then [BACKSLASH, CHR ''t'']
      else if code c < 0x20 then BACKSLASH # CHR ''u'' # fmt_04x (code c)
      else [c])"

definition ducknng_http_profile_json_escape_dup :: "(nat \<Rightarrow> bool) \<Rightarrow> cstring \<Rightarrow> cstring" where
  "ducknng_http_profile_json_escape_dup mem s =
     (let out = concat (map profile_escape (deref s)) in if mem (length out + 1) then Some out else None)"

definition ducknng_http_profile_auth_header_object :: "(nat \<Rightarrow> bool) \<Rightarrow> cstring \<Rightarrow> cstring \<Rightarrow> cstring" where
  "ducknng_http_profile_auth_header_object mem name value =
     (case (ducknng_http_profile_json_escape_dup mem name, ducknng_http_profile_json_escape_dup mem value) of
        (Some ename, Some evalue) \<Rightarrow>
          if mem (length ename + length evalue + 23)
          then Some (''{\"name\":\"'' @ ename @ ''\",\"value\":\"'' @ evalue @ ''\"}'')
          else None
      | _ \<Rightarrow> None)"

text \<open>\<open>e\<close> is the position of the closing bracket.\<close>

definition ducknng_http_profile_headers_empty_array :: "string \<Rightarrow> nat \<Rightarrow> bool" where
  "ducknng_http_profile_headers_empty_array headers e =
     (let k = length (takeWhile json_ws headers)
      in if k < length headers \<and> headers ! k = CHR ''['' then k + 1 \<le> e \<and> list_all json_ws (take (e - (k + 1)) (drop (k + 1) headers))
         else False)"

definition ducknng_http_profile_merge_headers :: "(nat \<Rightarrow> bool) \<Rightarrow> cstring \<Rightarrow> cstring \<Rightarrow> cstring \<Rightarrow> string + string" where
  "ducknng_http_profile_merge_headers mem headers_json name value =
     (case ducknng_http_profile_auth_header_object mem name value of
        None \<Rightarrow> Inl ''ducknng: out of memory building HTTP profile headers''
      | Some auth \<Rightarrow>
          let alone = (if mem (length auth + 3) then Inr (CHR ''['' # auth @ '']'')
                       else Inl ''ducknng: out of memory merging HTTP profile headers'');
              headers = deref headers_json;
              e = length (rev (dropWhile json_ws (rev headers)))
          in if \<not> nonempty headers_json then alone
             else if e = 0 \<or> headers ! (e - 1) \<noteq> CHR '']'' then Inl ''ducknng: invalid headers_json''
             else if ducknng_http_profile_headers_empty_array headers (e - 1) then alone
             else if \<not> mem (e - 1 + length auth + 3) then Inl ''ducknng: out of memory merging HTTP profile headers''
             else Inr (take (e - 1) headers @ CHR '','' # auth @ '']''))"

text \<open>What the caller's request brings along: the parts of its URL as NNG parses them are \<open>parse\<close>.\<close>

record nng_url =
  u_scheme :: cstring
  u_hostname :: cstring
  u_port :: cstring
  u_path :: cstring

text \<open>
  \<open>ok 0\<close> are the copies of the profile, \<open>ok 1\<close> that of the connection's subject, \<open>ok 2\<close> that of the headers when there is no
  profile. \<open>self\<close> is the address of the runtime, \<open>g\<close> the subject of the calling thread.
\<close>

definition subject_admitted ::
  "(nat \<Rightarrow> bool) \<Rightarrow> (nat \<Rightarrow> bool) \<Rightarrow> runtime \<Rightarrow> ptr \<Rightarrow> thread_subject \<Rightarrow> u64 option \<Rightarrow> cstring \<Rightarrow> bool" where
  "subject_admitted mem ok rt self g con allow =
     (let bound = (case con of None \<Rightarrow> None | Some k \<Rightarrow> ducknng_runtime_execution_subject_for_connection_dup ok rt k);
          subject = (if \<not> nonempty bound
            then (case ducknng_runtime_current_thread_execution_subject_get g self of None \<Rightarrow> None | Some s \<Rightarrow> s)
            else bound)
      in nonempty subject \<and>
         (case ducknng_json_string_array_contains mem allow subject of Inl err \<Rightarrow> False | Inr (found, count) \<Rightarrow> found))"

definition scope_error :: "(nat \<Rightarrow> bool) \<Rightarrow> (string \<Rightarrow> nng_url option) \<Rightarrow> http_profile \<Rightarrow> string \<Rightarrow> cstring \<Rightarrow> cstring" where
  "scope_error mem parse p url method =
     (case ducknng_transport_url_parse (Some url) of
        Inl err \<Rightarrow> Some err
      | Inr transport \<Rightarrow>
          if \<not> ducknng_transport_url_is_http transport then Some ''ducknng: http:// or https:// URL is required''
          else if pf_tls_required p \<and> \<not> uses_tls transport then Some ''ducknng: HTTP profile requires a TLS URL''
          else (case parse url of
            None \<Rightarrow> Some ''ducknng: failed to parse HTTP URL for profile scope''
          | Some u \<Rightarrow>
              if u_scheme u = None \<or> \<not> ducknng_ascii_ieq (u_scheme u) (pf_scheme p)
              then Some ''ducknng: HTTP profile scope rejected URL scheme''
              else if u_hostname u = None \<or> \<not> ducknng_ascii_ieq (u_hostname u) (pf_host p)
              then Some ''ducknng: HTTP profile scope rejected URL host''
              else (case ducknng_http_profile_parse_port (u_port u) (if uses_tls transport then 443 else 80) of
                None \<Rightarrow> Some ''ducknng: HTTP profile scope rejected invalid URL port''
              | Some got_port \<Rightarrow>
                  if pf_has_port p \<and> got_port \<noteq> pf_port p then Some ''ducknng: HTTP profile scope rejected URL port''
                  else if \<not> ducknng_http_profile_path_in_scope (if nonempty (u_path u) then u_path u else Some ''/'') (pf_path_prefix p)
                  then Some ''ducknng: HTTP profile scope rejected URL path''
                  else (case ducknng_http_profile_dup_trim_upper mem (if nonempty method then method else Some ''GET'') of
                    None \<Rightarrow> Some ''ducknng: out of memory copying HTTP method''
                  | Some m \<Rightarrow>
                      if \<not> ducknng_http_token_is_valid (Some m) then Some ''ducknng: HTTP method must be an HTTP token''
                      else if deref (pf_method p) \<noteq> ''*'' \<and> deref (pf_method p) \<noteq> m
                      then Some ''ducknng: HTTP profile scope rejected HTTP method''
                      else None))))"

definition ducknng_runtime_resolve_http_profile_headers ::
  "(nat \<Rightarrow> bool) \<Rightarrow> (nat \<Rightarrow> nat \<Rightarrow> bool) \<Rightarrow> (string \<Rightarrow> nng_url option) \<Rightarrow> u64 \<Rightarrow> runtime \<Rightarrow> ptr \<Rightarrow> thread_subject \<Rightarrow> profile_registry \<Rightarrow>
   cstring \<Rightarrow> cstring \<Rightarrow> cstring \<Rightarrow> cstring \<Rightarrow> u64 option \<Rightarrow> string + cstring" where
  "ducknng_runtime_resolve_http_profile_headers mem ok parse now rt self g reg profile_id url method headers_json con =
     (if \<not> nonempty profile_id then Inr (if nonempty headers_json then dup (ok 2) 0 headers_json else None)
      else if \<not> nonempty url then Inl ''ducknng: HTTP profile resolution requires runtime and URL''
      else case ducknng_http_profile_find_copy (ok 0) reg profile_id of
        Inl err \<Rightarrow> Inl err
      | Inr p \<Rightarrow>
          if pf_expires_at_ms p \<noteq> 0 \<and> now > pf_expires_at_ms p then Inl ''ducknng: HTTP profile expired''
          else if nonempty (pf_allow_subjects p) \<and> \<not> subject_admitted mem (ok 1) rt self g con (pf_allow_subjects p)
          then Inl ''ducknng: HTTP profile admission rejected request subject''
          else (case scope_error mem parse p (deref url) method of
            Some err \<Rightarrow> Inl err
          | None \<Rightarrow>
              (case (if nonempty headers_json
                     then fst (ducknng_http_headers_json_get_header mem headers_json (pf_auth_name p) False) else Inr None) of
                 Inl err \<Rightarrow> Inl err
               | Inr (Some _) \<Rightarrow> Inl ''ducknng: caller header collides with HTTP profile auth header''
               | Inr None \<Rightarrow>
                   map_sum id Some (ducknng_http_profile_merge_headers mem headers_json (pf_auth_name p) (pf_auth_value p)))))"


section \<open>The registry as a map\<close>

definition profile_lookup :: "profile_registry \<Rightarrow> string \<Rightarrow> http_profile option" where
  "profile_lookup reg i = find (has_id i) (profiles reg)"

text \<open>A string whose length leaves room for the bookkeeping of the readers in a \<open>size_t\<close>.\<close>

definition short :: "cstring \<Rightarrow> bool" where
  "short s \<longleftrightarrow> length (deref s) + 2 < 2 ^ 64"

definition profile_ok :: "http_profile \<Rightarrow> bool" where
  "profile_ok p \<longleftrightarrow> ducknng_http_profile_string_clean (pf_id p) \<and> (pf_scheme p = Some ''http'' \<or> pf_scheme p = Some ''https'') \<and>
     (pf_tls_required p \<longrightarrow> pf_scheme p = Some ''https'') \<and> nonempty (pf_host p) \<and>
     nonempty (pf_path_prefix p) \<and> hd (deref (pf_path_prefix p)) = CHR ''/'' \<and> ducknng_http_profile_method_valid (pf_method p) \<and>
     ducknng_http_token_is_valid (pf_auth_name p) \<and> short (pf_auth_name p) \<and>
     ducknng_http_profile_header_value_valid (pf_auth_value p) \<and> short (pf_auth_value p) \<and>
     pf_allow_subjects p \<noteq> Some [] \<and> (pf_has_port p \<longrightarrow> pf_port p \<noteq> 0) \<and> pf_version p \<noteq> 0"

definition profiles_inv :: "profile_registry \<Rightarrow> bool" where
  "profiles_inv reg \<longleftrightarrow> distinct (map pf_id (profiles reg)) \<and> length (profiles reg) \<le> profile_cap reg \<and> (\<forall>p \<in> set (profiles reg). profile_ok p)"

lemma dup_trim_nonempty: "nonempty (dup_trim f mem s) \<longleftrightarrow> dup_trim f mem s \<noteq> None"
  by (auto simp: dup_trim_def split: option.split)

lemma take_version_simps:
  assumes "take_version reg = (v, reg')"
  shows "v \<noteq> 0" "profiles reg' = profiles reg" "profile_cap reg' = profile_cap reg"
  using assms by (auto simp: take_version_def Let_def split: if_splits)

lemma port_nonzero: "0 < (n :: int) \<Longrightarrow> n \<le> 65535 \<Longrightarrow> (word_of_int n :: u16) \<noteq> 0"
proof
  assume n: "0 < n" "n \<le> 65535" and "(word_of_int n :: u16) = 0"
  then have "uint (word_of_int n :: u16) = 0" by simp
  with n show False by (simp add: uint_word_of_int)
qed

text \<open>The copies of a draft, when none is missing.\<close>

lemma profile_draft_copies:
  fixes mem ok a
  defines "dr \<equiv> profile_draft mem ok a"
  shows "pf_id dr = None \<or> pf_id dr = pa_id a" "pf_path_prefix dr = None \<or> pf_path_prefix dr = pa_path_prefix a"
    "pf_auth_name dr = None \<or> pf_auth_name dr = pa_auth_name a" "pf_auth_value dr = None \<or> pf_auth_value dr = pa_auth_value a"
    "pf_allow_subjects dr = None \<or> nonempty (pf_allow_subjects dr)" "pf_host dr = None \<or> nonempty (pf_host dr)"
proof -
  have d: "dup ok i s = None \<or> dup ok i s = s" for i s by (cases s) (auto simp: dup_def)
  show "pf_id dr = None \<or> pf_id dr = pa_id a" "pf_path_prefix dr = None \<or> pf_path_prefix dr = pa_path_prefix a"
    "pf_auth_name dr = None \<or> pf_auth_name dr = pa_auth_name a" "pf_auth_value dr = None \<or> pf_auth_value dr = pa_auth_value a"
    using d by (simp_all add: dr_def profile_draft_def)
  show "pf_allow_subjects dr = None \<or> nonempty (pf_allow_subjects dr)"
    using d [of 4 "pa_allow_subjects a"] by (auto simp: dr_def profile_draft_def blank_profile_def)
  show "pf_host dr = None \<or> nonempty (pf_host dr)"
    by (simp add: dr_def profile_draft_def ducknng_http_profile_dup_trim_lower_def dup_trim_nonempty del: not_None_eq)
qed

lemma profile_of_args_cases:
  assumes "profile_of_args mem ok a = Inr new"
  defines "dr \<equiv> profile_draft mem ok a"
  shows "pf_id dr \<noteq> None" "pf_path_prefix dr \<noteq> None" "pf_auth_name dr \<noteq> None" "pf_auth_value dr \<noteq> None" "pf_host dr \<noteq> None"
    "pf_scheme dr = Some ''http'' \<or> pf_scheme dr = Some ''https''" "pa_tls_required a \<longrightarrow> pf_scheme dr = Some ''https''"
    "ducknng_http_profile_method_valid (pf_method dr)"
    "new = dr\<lparr>pf_port := (if pa_has_port a then word_of_int (pa_port a) else 0), pf_has_port := pa_has_port a,
       pf_tls_required := pa_tls_required a, pf_expires_at_ms := pa_expires_at_ms a\<rparr>"
  using assms(1) unfolding profile_of_args_def Let_def dr_def [symmetric] by (simp_all split: if_split_asm)

text \<open>What the checks guarantee of the new profile.\<close>

lemma profile_args_checked:
  assumes "profile_args_error mem a = None"
  shows "ducknng_http_profile_string_clean (pa_id a)" "nonempty (pa_path_prefix a)" "hd (deref (pa_path_prefix a)) = CHR ''/''"
    "ducknng_http_token_is_valid (pa_auth_name a)" "ducknng_http_profile_header_value_valid (pa_auth_value a)"
    "pa_has_port a \<longrightarrow> 0 < pa_port a \<and> pa_port a \<le> 65535"
  using assms unfolding profile_args_error_def by (auto split: if_split_asm)

lemma profile_of_args_ok:
  assumes "profile_args_error mem a = None" "profile_of_args mem ok a = Inr new" "short (pa_auth_name a)" "short (pa_auth_value a)" "v \<noteq> 0"
  shows "profile_ok (new\<lparr>pf_created_ms := c, pf_updated_ms := t, pf_version := v\<rparr>)" "pf_id new = pa_id a"
    "pf_auth_name new = pa_auth_name a" "pf_auth_value new = pa_auth_value a"
proof -
  note a = profile_args_checked [OF assms(1)] and n = profile_of_args_cases [OF assms(2)]
  note copies = profile_draft_copies [of mem ok a]
  show eq: "pf_id new = pa_id a" using n(1) copies(1) unfolding n(9) by auto
  show name: "pf_auth_name new = pa_auth_name a" using n(3) copies(3) unfolding n(9) by auto
  show val: "pf_auth_value new = pa_auth_value a" using n(4) copies(4) unfolding n(9) by auto
  have path: "pf_path_prefix new = pa_path_prefix a" using n(2) copies(2) unfolding n(9) by auto
  have host: "nonempty (pf_host new)" using n(5) copies(6) unfolding n(9) by auto
  have allow: "pf_allow_subjects new \<noteq> Some []" using copies(5) unfolding n(9) by auto
  have port: "pf_has_port new \<longrightarrow> pf_port new \<noteq> 0" using a(6) port_nonzero [of "pa_port a"] unfolding n(9) by simp
  have scheme: "pf_scheme new = Some ''http'' \<or> pf_scheme new = Some ''https''" "pf_tls_required new \<longrightarrow> pf_scheme new = Some ''https''"
      "ducknng_http_profile_method_valid (pf_method new)"
    using n(6-8) unfolding n(9) by simp_all
  show "profile_ok (new\<lparr>pf_created_ms := c, pf_updated_ms := t, pf_version := v\<rparr>)"
    unfolding profile_ok_def using a(1-5) assms(3-5) eq name val path host allow port scheme by simp
qed

definition profile_append :: "http_profile \<Rightarrow> profile_registry \<Rightarrow> profile_registry" where
  "profile_append p reg = (snd (ducknng_http_profiles_reserve True reg (length (profiles reg) + 1)))\<lparr>profiles := profiles reg @ [p]\<rparr>"

lemma profiles_reserve_cases:
  assumes "ducknng_http_profiles_reserve room reg want = (err, reg')"
  shows "err \<noteq> None \<and> reg' = reg \<or> err = None \<and> reg' = snd (ducknng_http_profiles_reserve True reg want)"
    "profiles reg' = profiles reg" "err = None \<Longrightarrow> want \<le> profile_cap reg'"
  using assms double_until_ge [of "if profile_cap reg \<noteq> 0 then profile_cap reg * 2 else 4" want]
  by (auto simp: ducknng_http_profiles_reserve_def split: if_splits)

lemma profiles_inv_id: "profiles_inv reg \<Longrightarrow> p \<in> set (profiles reg) \<Longrightarrow> nonempty (pf_id p)"
  unfolding profiles_inv_def profile_ok_def ducknng_http_profile_string_clean_def by blast

lemma drop_profiles:
  assumes "profiles_inv reg"
  shows "profiles (snd (ducknng_runtime_drop_http_profile reg (Some i))) = filter (\<lambda>p. pf_id p \<noteq> Some i) (profiles reg) \<and>
    profile_cap (snd (ducknng_runtime_drop_http_profile reg (Some i))) = profile_cap reg \<and>
    fst (ducknng_runtime_drop_http_profile reg (Some i)) = (Some i \<in> pf_id ` set (profiles reg))"
proof (cases "find_idx (has_id i) (profiles reg)")
  case None
  then have none: "Some i \<notin> pf_id ` set (profiles reg)" by (auto simp: has_id_def)
  then have "filter (\<lambda>p. pf_id p \<noteq> Some i) (profiles reg) = profiles reg" by (intro filter_True ballI) (metis image_eqI)
  with None none show ?thesis by (simp add: ducknng_runtime_drop_http_profile_def del: find_idx_None)
next
  case (Some k)
  note k = find_idx_SomeD [OF Some]
  have "i \<noteq> []" using profiles_inv_id [OF assms k(3)] k(2) by (auto simp: has_id_def)
  moreover have "Some i \<in> pf_id ` set (profiles reg)" using k(2,3) by (auto simp: has_id_def intro: rev_image_eqI)
  moreover have "remove_nth k (profiles reg) = filter (\<lambda>p. pf_id p \<noteq> Some i) (profiles reg)"
    using filter_key_remove_nth [of pf_id "profiles reg" k] k assms by (simp add: profiles_inv_def has_id_def)
  ultimately show ?thesis using Some by (simp add: ducknng_runtime_drop_http_profile_def)
qed

interpretation profile_table: keyed_table profiles pf_id "\<lambda>reg k. find (\<lambda>p. pf_id p = k) (profiles reg)" profile_append
  "\<lambda>k reg. case k of None \<Rightarrow> reg | Some i \<Rightarrow> snd (ducknng_runtime_drop_http_profile reg (Some i))" profiles_inv profile_ok "\<lambda>_. True"
proof unfold_locales
  fix reg and p :: http_profile and k
  assume inv: "profiles_inv reg"
  show "distinct (map pf_id (profiles reg))" using inv by (simp add: profiles_inv_def)
  have some: "pf_id q \<noteq> None" if "q \<in> set (profiles reg)" for q
    using profiles_inv_id [OF inv that] by (cases "pf_id q") simp_all
  show del: "profiles (case k of None \<Rightarrow> reg | Some i \<Rightarrow> snd (ducknng_runtime_drop_http_profile reg (Some i))) =
      filter (\<lambda>r. pf_id r \<noteq> k) (profiles reg)"
    using drop_profiles [OF inv] some by (cases k) (auto simp: filter_id_conv)
  show "profiles_inv (case k of None \<Rightarrow> reg | Some i \<Rightarrow> snd (ducknng_runtime_drop_http_profile reg (Some i)))"
    using inv del drop_profiles [OF inv] unfolding profiles_inv_def
    by (cases k) (auto simp: distinct_map_filter intro: le_trans [OF length_filter_le])
  assume new: "profile_ok p" "pf_id p \<notin> pf_id ` set (profiles reg)"
  note res = profiles_reserve_cases(3) [of True reg "length (profiles reg) + 1"]
  have "fst (ducknng_http_profiles_reserve True reg want) = None" for want by (simp add: ducknng_http_profiles_reserve_def)
  with res have cap: "length (profiles reg) + 1 \<le> profile_cap (profile_append p reg)"
    by (simp add: profile_append_def) (metis prod.collapse)
  show "profiles (profile_append p reg) = profiles reg @ [p]" by (simp add: profile_append_def)
  then show "profiles_inv (profile_append p reg)" using inv new cap by (auto simp: profiles_inv_def)
qed simp_all

lemma profile_lookup_find: "profile_lookup reg i = find (\<lambda>p. pf_id p = Some i) (profiles reg)"
  by (simp add: profile_lookup_def has_id_def [abs_def])

text \<open>The effect of a registration: a refusal changes nothing; otherwise the profile is replaced or appended.\<close>

lemma upsert_cases:
  assumes up: "ducknng_runtime_upsert_http_profile mem ok room now reg a = (err, reg')" and inv: "profiles_inv reg"
    and short: "short (pa_auth_name a)" "short (pa_auth_value a)"
  obtains (refused) "err \<noteq> None" "reg' = reg"
  | (replaced) i new where "err = None" "i < length (profiles reg)" "pf_id (profiles reg ! i) = pa_id a"
      "profiles reg' = (profiles reg)[i := new]" "profile_cap reg' = profile_cap reg" "profile_ok new" "pf_id new = pa_id a"
      "pf_auth_name new = pa_auth_name a" "pf_auth_value new = pa_auth_value a"
      "pf_created_ms new = pf_created_ms (profiles reg ! i)" "pf_updated_ms new = now"
  | (appended) new where "err = None" "pa_id a \<notin> pf_id ` set (profiles reg)"
      "profiles reg' = profiles (profile_append new reg)" "profile_cap reg' = profile_cap (profile_append new reg)"
      "profile_ok new" "pf_id new = pa_id a" "pf_auth_name new = pa_auth_name a" "pf_auth_value new = pa_auth_value a"
      "pf_created_ms new = now" "pf_updated_ms new = now"
proof (cases "profile_args_error mem a")
  case (Some e)
  with up show ?thesis by (intro refused) (simp_all add: ducknng_runtime_upsert_http_profile_def, metis option.discI)
next
  case checked: None
  show ?thesis
  proof (cases "profile_of_args mem ok a")
    case (Inl e)
    with up checked show ?thesis by (intro refused) (auto simp: ducknng_runtime_upsert_http_profile_def)
  next
    case (Inr new)
    note new = profile_of_args_ok [OF checked Inr short]
    obtain j where j: "pa_id a = Some j" using profile_args_checked(1) [OF checked]
      by (cases "pa_id a") (simp_all add: ducknng_http_profile_string_clean_def)
    obtain v r where v: "take_version reg = (v, r)" by (cases "take_version reg")
    show ?thesis
    proof (cases "find_idx (has_id j) (profiles reg)")
      case (Some i)
      let ?new = "new\<lparr>pf_created_ms := pf_created_ms (profiles reg ! i), pf_updated_ms := now, pf_version := v\<rparr>"
      have "reg' = r\<lparr>profiles := (profiles reg)[i := ?new]\<rparr>" "err = None"
        using up checked Inr j Some v take_version_simps [OF v] by (simp_all add: ducknng_runtime_upsert_http_profile_def)
      with find_idx_SomeD [OF Some] new(2-4) new(1) [OF take_version_simps(1) [OF v]] take_version_simps [OF v] j show ?thesis
        by (intro replaced [of i ?new]) (simp_all add: has_id_def)
    next
      case None
      obtain e r' where r': "ducknng_http_profiles_reserve room reg (length (profiles reg) + 1) = (e, r')"
        by (cases "ducknng_http_profiles_reserve room reg (length (profiles reg) + 1)")
      note res = profiles_reserve_cases [OF r']
      show ?thesis
      proof (cases e)
        case (Some e')
        with up checked Inr j None r' res(1) show ?thesis
          by (intro refused) (auto simp: ducknng_runtime_upsert_http_profile_def simp del: find_idx_None)
      next
        case e: None
        obtain w r2 where w: "take_version r' = (w, r2)" by (cases "take_version r'")
        let ?new = "new\<lparr>pf_created_ms := now, pf_updated_ms := now, pf_version := w\<rparr>"
        have "reg' = r2\<lparr>profiles := profiles reg @ [?new]\<rparr>" "err = None"
          using up checked Inr j None r' e w take_version_simps [OF w] res(2)
          by (simp_all add: ducknng_runtime_upsert_http_profile_def del: find_idx_None)
        moreover have "pa_id a \<notin> pf_id ` set (profiles reg)" using None j by (auto simp: has_id_def)
        ultimately show ?thesis
          using new(2-4) new(1) [OF take_version_simps(1) [OF w]] take_version_simps [OF w] e res(1)
          by (intro appended [of ?new]) (simp_all add: profile_append_def)
      qed
    qed
  qed
qed

lemma find_update:
  assumes "i < length xs" "f (xs ! i) = k" "f y = k" "distinct (map f xs)"
  shows "find (\<lambda>x. f x = j) (xs[i := y]) = (if j = k then Some y else find (\<lambda>x. f x = j) xs)"
  using assms by (induction xs arbitrary: i) (auto split: nat.splits simp: nth_eq_iff_index_eq image_iff)

lemma upsert_inv:
  assumes "ducknng_runtime_upsert_http_profile mem ok room now reg a = (err, reg')" "profiles_inv reg"
    "short (pa_auth_name a)" "short (pa_auth_value a)"
  shows "profiles_inv reg'"
  using assms
proof (cases rule: upsert_cases)
  case (replaced i new)
  have "map pf_id (profiles reg') = map pf_id (profiles reg)"
    using replaced by (simp add: map_update list_update_same_conv)
  moreover have "set (profiles reg') \<subseteq> insert new (set (profiles reg))"
    using replaced(4) set_update_subset_insert by metis
  moreover have "length (profiles reg') = length (profiles reg)" using replaced(4) by simp
  ultimately show ?thesis using replaced assms(2) by (auto simp: profiles_inv_def)
next
  case (appended new)
  then have "profiles_inv (profile_append new reg)" using profile_table.invar_add [OF assms(2)] by simp
  with appended show ?thesis by (simp add: profiles_inv_def)
qed (use assms(2) in simp)

lemma upsert_lookup:
  assumes "ducknng_runtime_upsert_http_profile mem ok room now reg a = (None, reg')" "profiles_inv reg"
    "short (pa_auth_name a)" "short (pa_auth_value a)"
  shows "\<exists>p i. pa_id a = Some i \<and> (\<forall>j. profile_lookup reg' j = (if j = i then Some p else profile_lookup reg j)) \<and>
    pf_auth_name p = pa_auth_name a \<and> pf_auth_value p = pa_auth_value a \<and> pf_updated_ms p = now \<and>
    pf_created_ms p = (case profile_lookup reg i of None \<Rightarrow> now | Some old \<Rightarrow> pf_created_ms old)"
  using assms
proof (cases rule: upsert_cases)
  case (replaced k new)
  have "nonempty (pa_id a)" using profiles_inv_id [OF assms(2), of "profiles reg ! k"] replaced(2,3) by simp
  then obtain i where i: "pa_id a = Some i" by (cases "pa_id a") auto
  have old: "profile_lookup reg i = Some (profiles reg ! k)"
    using profile_table.lookup_Some [OF assms(2)] replaced(2,3) i by (simp add: profile_lookup_find)
  have "profile_lookup reg' j = (if j = i then Some new else profile_lookup reg j)" for j
    using find_update [of k "profiles reg" pf_id "Some i" new "Some j"] replaced i assms(2)
    by (simp add: profile_lookup_find profiles_inv_def)
  with i old replaced show ?thesis by (intro exI [of _ new] exI [of _ i]) simp
next
  case (appended new)
  have "nonempty (pf_id new)" using appended(5) by (simp add: profile_ok_def ducknng_http_profile_string_clean_def)
  then obtain i where i: "pf_id new = Some i" by (cases "pf_id new") auto
  have fresh: "pf_id new \<notin> pf_id ` set (profiles reg)" using appended by simp
  have "profile_lookup reg' j = (if j = i then Some new else profile_lookup reg j)" for j
    using profile_table.lookup_add [OF assms(2) appended(5) fresh, of "Some j"] appended(3) i by (simp add: profile_lookup_find)
  moreover have "profile_lookup reg i = None"
    using profile_table.lookup_None [OF assms(2), of "Some i"] fresh i by (simp add: profile_lookup_find)
  ultimately show ?thesis using i appended by (intro exI [of _ new] exI [of _ i]) simp
qed simp

inductive profile_step :: "profile_registry \<Rightarrow> profile_registry \<Rightarrow> bool" where
  step_upsert: "ducknng_runtime_upsert_http_profile mem ok room now s a = (err, t) \<Longrightarrow>
    short (pa_auth_name a) \<Longrightarrow> short (pa_auth_value a) \<Longrightarrow> profile_step s t"
| step_drop: "ducknng_runtime_drop_http_profile s i = (gone, t) \<Longrightarrow> profile_step s t"
| step_reset: "ducknng_runtime_http_profiles_reset s = t \<Longrightarrow> profile_step s t"

definition profile_init :: "profile_registry \<Rightarrow> bool" where
  "profile_init reg \<longleftrightarrow> reg = \<lparr> profiles = [], profile_cap = 0, next_profile_version = 1 \<rparr>"

interpretation profile_runs: machine profile_init profile_step profiles_inv
proof unfold_locales
  fix s
  assume "profile_init s"
  then show "profiles_inv s" by (simp add: profile_init_def profiles_inv_def)
next
  fix s t
  assume inv: "profiles_inv s" and "profile_step s t"
  from this(2) show "profiles_inv t"
  proof cases
    case (step_upsert mem ok room now a err)
    then show ?thesis using upsert_inv inv by blast
  next
    case (step_drop i gone)
    then have "t = s \<or> (\<exists>j. i = Some j \<and> t = snd (ducknng_runtime_drop_http_profile s (Some j)))"
      by (cases i) (auto simp: ducknng_runtime_drop_http_profile_def)
    then show ?thesis using inv profile_table.invar_del [OF inv, of i] by auto
  next
    case step_reset
    then show ?thesis by (auto simp: ducknng_runtime_http_profiles_reset_def profiles_inv_def)
  qed
qed

text \<open>
  C39. The profile registry is a finite map of well-formed profiles. After any sequence of registrations, removals and resets, the
  profiles have different identifiers and each is well formed: a scheme of http or https that agrees with its TLS demand, a path
  prefix from the root, a valid method, an HTTP token and a clean value for its header, a version other than 0. A registration
  that is refused changes nothing. One that succeeds makes its identifier denote the new header and leaves every other identifier
  alone; it keeps the creation time of the profile it replaces. A removal removes its identifier, and only that.
\<close>

theorem profile_registry_exact:
  assumes "reachable profile_init profile_step reg" "short (pa_auth_name a)" "short (pa_auth_value a)"
    "ducknng_runtime_upsert_http_profile mem ok room now reg a = (err, reg1)" "ducknng_runtime_drop_http_profile reg (Some k) = (gone, reg2)"
  shows "distinct (map pf_id (profiles reg)) \<and> list_all profile_ok (profiles reg) \<and>
    (if err \<noteq> None then reg1 = reg
     else \<exists>p i. pa_id a = Some i \<and> (\<forall>j. profile_lookup reg1 j = (if j = i then Some p else profile_lookup reg j)) \<and>
       pf_auth_name p = pa_auth_name a \<and> pf_auth_value p = pa_auth_value a \<and> pf_updated_ms p = now \<and>
       pf_created_ms p = (case profile_lookup reg i of None \<Rightarrow> now | Some old \<Rightarrow> pf_created_ms old)) \<and>
    gone = (profile_lookup reg k \<noteq> None) \<and> (\<forall>j. profile_lookup reg2 j = (if j = k then None else profile_lookup reg j))"
proof -
  have inv: "profiles_inv reg" by (rule profile_runs.reachable_inv [OF assms(1)])
  have up: "if err \<noteq> None then reg1 = reg
     else \<exists>p i. pa_id a = Some i \<and> (\<forall>j. profile_lookup reg1 j = (if j = i then Some p else profile_lookup reg j)) \<and>
       pf_auth_name p = pa_auth_name a \<and> pf_auth_value p = pa_auth_value a \<and> pf_updated_ms p = now \<and>
       pf_created_ms p = (case profile_lookup reg i of None \<Rightarrow> now | Some old \<Rightarrow> pf_created_ms old)"
  proof (cases err)
    case None
    show ?thesis using upsert_lookup [OF assms(4) [unfolded None] inv assms(2,3)] unfolding None by simp
  next
    case (Some e)
    from assms(4) inv assms(2,3) have "reg1 = reg" by (cases rule: upsert_cases) (simp_all add: Some)
    with Some show ?thesis by simp
  qed
  have "profile_lookup reg2 j = (if j = k then None else profile_lookup reg j)" for j
    using profile_table.lookup_del [OF inv, of "Some j" "Some k"] assms(5) by (simp add: profile_lookup_find)
  moreover have "gone = (profile_lookup reg k \<noteq> None)"
    using drop_profiles [OF inv, of k] profile_table.lookup_None [OF inv, of "Some k"] assms(5)
    by (simp add: profile_lookup_find del: not_None_eq)
  ultimately show ?thesis using inv up by (simp add: profiles_inv_def list_all_iff del: not_None_eq)
qed

definition sample_args :: profile_args where
  "sample_args = \<lparr> pa_id = Some ''api'', pa_scheme = Some ''HTTPS'', pa_host = Some ''Example.com'', pa_port = 0, pa_has_port = False,
     pa_path_prefix = Some ''/v1'', pa_method = None, pa_tls_required = True, pa_auth_name = Some ''Authorization'',
     pa_auth_value = Some ''Bearer k'', pa_expires_at_ms = 0, pa_allow_subjects = Some ''[\"alice\"]'' \<rparr>"

definition no_profiles :: profile_registry where
  "no_profiles = \<lparr> profiles = [], profile_cap = 0, next_profile_version = 1 \<rparr>"

definition sample_profile :: http_profile where
  "sample_profile = \<lparr> pf_id = Some ''api'', pf_scheme = Some ''https'', pf_host = Some ''example.com'', pf_port = 0, pf_has_port = False,
     pf_path_prefix = Some ''/v1'', pf_method = Some ''*'', pf_tls_required = True, pf_auth_name = Some ''Authorization'',
     pf_auth_value = Some ''Bearer k'', pf_allow_subjects = Some ''[\"alice\"]'', pf_version = 1, pf_created_ms = 5, pf_updated_ms = 5,
     pf_expires_at_ms = 0 \<rparr>"

definition sample_registry :: profile_registry where
  "sample_registry = \<lparr> profiles = [sample_profile], profile_cap = 4, next_profile_version = 2 \<rparr>"

lemma sample_upsert: "ducknng_runtime_upsert_http_profile all_mem all_mem True 5 no_profiles sample_args = (None, sample_registry)"
  by code_simp

lemma sample_short: "short (pa_auth_name sample_args)" "short (pa_auth_value sample_args)"
  by (simp_all add: sample_args_def short_def)

lemma sample_profiles_reachable: "reachable profile_init profile_step sample_registry"
proof (rule reach_step [where s = no_profiles])
  show "reachable profile_init profile_step no_profiles"
    by (rule reach_init) (simp add: profile_init_def no_profiles_def)
  show "profile_step no_profiles sample_registry" by (rule step_upsert [OF sample_upsert sample_short])
qed

theorem profile_registry_exact_witness:
  "\<exists>p. profile_lookup (snd (ducknng_runtime_upsert_http_profile all_mem all_mem True 9 sample_registry sample_args)) ''api'' = Some p \<and>
     pf_created_ms p = 5 \<and> pf_updated_ms p = 9 \<and> pf_auth_value p = Some ''Bearer k'' \<and>
     profile_lookup (snd (ducknng_runtime_drop_http_profile sample_registry (Some ''api''))) ''api'' = None"
proof -
  obtain err reg1 where up': "ducknng_runtime_upsert_http_profile all_mem all_mem True 9 sample_registry sample_args = (err, reg1)"
    by (cases "ducknng_runtime_upsert_http_profile all_mem all_mem True 9 sample_registry sample_args")
  have "fst (ducknng_runtime_upsert_http_profile all_mem all_mem True 9 sample_registry sample_args) = None" by code_simp
  then have "err = None" unfolding up' by simp
  note up = up' [unfolded this]
  obtain gone reg2 where drop: "ducknng_runtime_drop_http_profile sample_registry (Some ''api'') = (gone, reg2)"
    by (cases "ducknng_runtime_drop_http_profile sample_registry (Some ''api'')")
  have old: "profile_lookup sample_registry ''api'' = Some sample_profile"
    by (simp add: profile_lookup_def sample_registry_def has_id_def sample_profile_def)
  note exact = profile_registry_exact [OF sample_profiles_reachable sample_short up drop]
  have id: "pa_id sample_args = Some ''api''" "pa_auth_value sample_args = Some ''Bearer k''" "pf_created_ms sample_profile = 5"
    by (simp_all add: sample_args_def sample_profile_def)
  have "\<not> ((None :: cstring) \<noteq> None)" by simp
  from exact [THEN conjunct2, THEN conjunct2, THEN conjunct1, unfolded if_not_P [OF this] id] obtain p i where
    p: "Some ''api'' = Some i" "\<forall>j. profile_lookup reg1 j = (if j = i then Some p else profile_lookup sample_registry j)"
      "pf_auth_value p = Some ''Bearer k''" "pf_updated_ms p = 9"
      "pf_created_ms p = (case profile_lookup sample_registry i of None \<Rightarrow> 9 | Some old \<Rightarrow> pf_created_ms old)" by blast
  have i: "i = ''api''" using p(1) by simp
  have "profile_lookup reg1 ''api'' = Some p" using p(2) unfolding i by simp
  moreover have "pf_created_ms p = 5" using p(5) unfolding i old option.case id .
  moreover have "profile_lookup reg2 ''api'' = None"
    using exact [THEN conjunct2, THEN conjunct2, THEN conjunct2, THEN conjunct2, rule_format, of "''api''"] by simp
  moreover note p(3,4)
  ultimately show ?thesis unfolding up drop snd_conv by blast
qed

lemma dup_kept: "\<not> (s \<noteq> None \<and> dup ok i s = None) \<Longrightarrow> dup ok i s = s"
  by (cases s) (auto simp: dup_def split: if_splits)

text \<open>A registration without a scheme is refused, with the message of a failed allocation.\<close>

lemma blank_scheme_refused:
  assumes "profile_args_error mem a = None" "pa_scheme a = None \<or> trim (deref (pa_scheme a)) = []"
  shows "ducknng_runtime_upsert_http_profile mem ok room now reg a = (Some ''ducknng: out of memory copying HTTP profile'', reg)"
proof -
  have "pf_scheme (profile_draft mem ok a) = None"
    using assms(2) by (cases "pa_scheme a") (simp_all add: profile_draft_def ducknng_http_profile_dup_trim_lower_def dup_trim_def)
  then have "profile_of_args mem ok a = Inl ''ducknng: out of memory copying HTTP profile''"
    by (simp add: profile_of_args_def Let_def)
  with assms(1) show ?thesis by (simp add: ducknng_runtime_upsert_http_profile_def)
qed

text \<open>A profile without its secret.\<close>

definition hide :: "http_profile \<Rightarrow> http_profile" where
  "hide p = p\<lparr>pf_auth_value := None\<rparr>"

lemma public_copy_hide: "ducknng_http_profile_public_copy mem ok (hide p) = ducknng_http_profile_public_copy mem ok p"
proof -
  have "pf_id (hide p) = pf_id p" "pf_scheme (hide p) = pf_scheme p" "pf_host (hide p) = pf_host p" "pf_port (hide p) = pf_port p"
    "pf_has_port (hide p) = pf_has_port p" "pf_path_prefix (hide p) = pf_path_prefix p" "pf_method (hide p) = pf_method p"
    "pf_tls_required (hide p) = pf_tls_required p" "pf_auth_name (hide p) = pf_auth_name p"
    "pf_allow_subjects (hide p) = pf_allow_subjects p" "pf_version (hide p) = pf_version p" "pf_created_ms (hide p) = pf_created_ms p"
    "pf_updated_ms (hide p) = pf_updated_ms p" "pf_expires_at_ms (hide p) = pf_expires_at_ms p"
    by (simp_all add: hide_def)
  then show ?thesis unfolding ducknng_http_profile_public_copy_def by (simp only:)
qed

lemma snapshot_loop_hide: "snapshot_loop mem ok n (map hide ps) = snapshot_loop mem ok n ps"
  by (induction ps arbitrary: n) (simp_all add: public_copy_hide cong: option.case_cong)

lemma public_copy_id: "ducknng_http_profile_public_copy mem ok p = Some c \<Longrightarrow> pi_id c = pf_id p"
  using dup_kept [of "pf_id p" ok 0] by (auto simp: ducknng_http_profile_public_copy_def Let_def split: if_split_asm)

lemma snapshot_loop_ids: "snapshot_loop mem ok n ps = Some cs \<Longrightarrow> map pi_id cs = map pf_id ps"
  by (induction ps arbitrary: n cs) (auto split: option.splits dest: public_copy_id)

text \<open>
  C40. A snapshot never shows a secret: two registries that differ only in the values of their credential headers have the same
  snapshot, in every pattern of allocation failures. A snapshot that succeeds lists every profile, in order. When a copy
  fails, the entries that are reset reach beyond those allocated exactly when the registry has grown since the lock was released.
\<close>

theorem snapshot_hides_secrets:
  assumes "map hide (profiles reg) = map hide (profiles reg')"
  shows "ducknng_runtime_http_profiles_snapshot mem ok room reg later = ducknng_runtime_http_profiles_snapshot mem ok room reg' later \<and>
    (case fst (ducknng_runtime_http_profiles_snapshot mem ok room reg later) of
       Inr infos \<Rightarrow> map pi_id infos = map pf_id (profiles reg) \<and> snd (ducknng_runtime_http_profiles_snapshot mem ok room reg later) = 0
     | Inl err \<Rightarrow> (snd (ducknng_runtime_http_profiles_snapshot mem ok room reg later) > length (profiles reg) \<longleftrightarrow>
         err = ''ducknng: out of memory copying HTTP profile snapshot'' \<and> later > length (profiles reg)))"
proof -
  have "snapshot_loop mem ok 0 (profiles reg) = snapshot_loop mem ok 0 (profiles reg')"
    using snapshot_loop_hide [of mem ok 0 "profiles reg"] snapshot_loop_hide [of mem ok 0 "profiles reg'"] unfolding assms by metis
  moreover have "profiles reg = [] \<longleftrightarrow> profiles reg' = []" using assms by (metis Nil_is_map_conv)
  ultimately have same: "ducknng_runtime_http_profiles_snapshot mem ok room reg later = ducknng_runtime_http_profiles_snapshot mem ok room reg' later"
    unfolding ducknng_runtime_http_profiles_snapshot_def by simp
  show ?thesis
  proof (rule conjI [OF same])
    show "case fst (ducknng_runtime_http_profiles_snapshot mem ok room reg later) of
       Inr infos \<Rightarrow> map pi_id infos = map pf_id (profiles reg) \<and> snd (ducknng_runtime_http_profiles_snapshot mem ok room reg later) = 0
     | Inl err \<Rightarrow> (snd (ducknng_runtime_http_profiles_snapshot mem ok room reg later) > length (profiles reg) \<longleftrightarrow>
         err = ''ducknng: out of memory copying HTTP profile snapshot'' \<and> later > length (profiles reg))"
      by (auto simp: ducknng_runtime_http_profiles_snapshot_def snapshot_loop_ids split: option.split)
  qed
qed

theorem snapshot_hides_secrets_witness:
  "(let other = sample_registry\<lparr>profiles := [sample_profile\<lparr>pf_auth_value := Some ''another''\<rparr>]\<rparr>
    in ducknng_runtime_http_profiles_snapshot all_mem (\<lambda>_. all_mem) True other 0 =
         ducknng_runtime_http_profiles_snapshot all_mem (\<lambda>_. all_mem) True sample_registry 0 \<and>
       ducknng_runtime_http_profiles_snapshot all_mem (\<lambda>_ _. False) True sample_registry 2 =
         (Inl ''ducknng: out of memory copying HTTP profile snapshot'', 2))"
proof -
  let ?other = "sample_registry\<lparr>profiles := [sample_profile\<lparr>pf_auth_value := Some ''another''\<rparr>]\<rparr>"
  have h: "map hide (profiles ?other) = map hide (profiles sample_registry)" by (simp add: sample_registry_def hide_def)
  have "ducknng_runtime_http_profiles_snapshot all_mem (\<lambda>_ _. False) True sample_registry 2 =
      (Inl ''ducknng: out of memory copying HTTP profile snapshot'', 2)" by code_simp
  with snapshot_hides_secrets [OF h, of all_mem "\<lambda>_. all_mem" True 0] show ?thesis by (simp add: Let_def)
qed

end
