(* ===== verification/Credentials.thy ===== *)
theory Credentials
  imports HttpProfile
begin

text \<open>
  What the resolution of HTTP profiles releases (\<open>ducknng_http_profile.c\<close>): the merged header list is read back by the program's
  own reader, a credential is released exactly inside the scope of its profile, and failing allocations release nothing more,
  with one exception that the last section states.
\<close>

section \<open>Merging headers\<close>

interpretation credential: json_escaper profile_escape
proof unfold_locales
  fix c :: char and rest
  assume "code c \<noteq> 0"
  moreover have "x = c" if "code x = code c" for x
    using that by (simp add: of_char_eq_iff)
  note controls = this [of "CHR 9"] this [of "CHR 10"] this [of "CHR 13"]
  ultimately show "reads_char (profile_escape c @ rest) c rest"
    by (auto simp: reads_char_def profile_escape_def unicode_loop_04x intro: controls)
qed

lemma auth_header_object_eq:
  "ducknng_http_profile_auth_header_object all_mem (Some name) (Some value) = Some (render_header profile_escape (name, value))"
proof -
  have plain: "profile_escape c = [c]" if "c \<in> set ''namevalue''" for c
    using that by (auto simp: profile_escape_def)
  have "ducknng_http_profile_json_escape_dup all_mem (Some s) = Some (concat (map profile_escape s))" for s
    by (simp add: ducknng_http_profile_json_escape_dup_def Let_def)
  then show ?thesis
    by (simp add: ducknng_http_profile_auth_header_object_def render_header_def render_member_def json_quote_def plain)
qed

text \<open>What the caller's header list gives for a name.\<close>

definition caller_header :: "(nat \<Rightarrow> bool) \<Rightarrow> cstring \<Rightarrow> cstring \<Rightarrow> string + block option" where
  "caller_header mem h w = (if nonempty h then fst (ducknng_http_headers_json_get_header mem h w False) else Inr None)"

lemma trimmed_end:
  assumes "list_all json_ws q" "\<not> json_ws c"
  shows "rev (dropWhile json_ws (rev (a @ c # q))) = a @ [c]"
  using assms by (simp add: list_all_iff dropWhile_append)

lemma empty_array_at:
  assumes "list_all json_ws u0"
  shows "ducknng_http_profile_headers_empty_array (u0 @ CHR ''['' # u @ CHR '']'' # q) (length (u0 @ CHR ''['' # u)) = list_all json_ws u"
proof -
  have ws: "\<not> json_ws (CHR ''['')" by (simp add: json_ws_def)
  have "takeWhile json_ws (u0 @ CHR ''['' # u @ CHR '']'' # q) = u0"
    using assms ws by (simp add: list_all_iff takeWhile_append)
  then show ?thesis by (simp add: ducknng_http_profile_headers_empty_array_def Let_def)
qed

text \<open>The caller's text, taken apart by a lookup that succeeds.\<close>

lemma caller_text:
  assumes "ducknng_http_headers_json_get_header mem (Some t) (Some w) False = (Inr f, n, fr)" "w \<noteq> []"
  obtains u0 u q where "t = u0 @ CHR ''['' # u @ CHR '']'' # q" "list_all json_ws u0" "list_all json_ws q"
    "list_all json_ws u \<and> f = None \<or> \<not> list_all json_ws u \<and>
      (\<forall>r. header_list_loop mem w False None 0 [] (ducknng_json_skip_ws (u @ CHR '','' # r)) = header_list_loop mem w False f n fr r)"
proof -
  obtain p where p: "ducknng_json_skip_ws t = CHR ''['' # p"
    using assms by (auto simp: ducknng_http_headers_json_get_header_def split: list.splits if_splits)
  obtain u0 where u0: "t = u0 @ CHR ''['' # p" "list_all json_ws u0" by (rule skip_ws_local [OF p]) (rule that)
  have all: "list_all json_ws q" if "ducknng_json_skip_ws q = []" for q
    using that by (simp add: ducknng_json_skip_ws_def list_all_iff dropWhile_eq_Nil_conv)
  show ?thesis
  proof (cases "ducknng_json_skip_ws p \<noteq> [] \<and> hd (ducknng_json_skip_ws p) = CHR '']''")
    case True
    then obtain q where q: "ducknng_json_skip_ws p = CHR '']'' # q" by (cases "ducknng_json_skip_ws p") auto
    obtain u where u: "p = u @ CHR '']'' # q" "list_all json_ws u" by (rule skip_ws_local [OF q]) (rule that)
    have "ducknng_json_skip_ws q = []" "f = None"
      using assms p q by (auto simp: ducknng_http_headers_json_get_header_def Let_def split: if_splits)
    with all u u0 show ?thesis by (intro that [of u0 u q]) auto
  next
    case False
    then obtain q where q: "header_list_loop mem w False None 0 [] (ducknng_json_skip_ws p) = (Inr (f, q), n, fr)"
        "ducknng_json_skip_ws q = []"
      using assms p
      by (auto simp: ducknng_http_headers_json_get_header_def Let_def split: if_splits sum.splits prod.splits)
    from header_list_local [OF q(1)] obtain v where v: "ducknng_json_skip_ws p = v @ CHR '']'' # q" "\<not> list_all json_ws v"
      "\<forall>r. header_list_loop mem w False None 0 [] (v @ CHR '','' # r) = header_list_loop mem w False f n fr r" by blast
    then obtain c v' where c: "v = c # v'" by (cases v) auto
    have s: "ducknng_json_skip_ws p = c # v' @ CHR '']'' # q" using v(1) c by simp
    obtain u1 where u1: "p = u1 @ c # v' @ CHR '']'' # q" "\<And>r. ducknng_json_skip_ws (u1 @ c # r) = c # r"
      by (rule skip_ws_local [OF s]) (rule that)
    show ?thesis
    proof (rule that [of u0 "u1 @ v" q])
      show "t = u0 @ CHR ''['' # (u1 @ v) @ CHR '']'' # q" using u0(1) u1(1) c by simp
      have "ducknng_json_skip_ws ((u1 @ v) @ CHR '','' # r) = v @ CHR '','' # r" for r using u1(2) c by simp
      then show "list_all json_ws (u1 @ v) \<and> f = None \<or> \<not> list_all json_ws (u1 @ v) \<and>
          (\<forall>r. header_list_loop mem w False None 0 [] (ducknng_json_skip_ws ((u1 @ v) @ CHR '','' # r)) = header_list_loop mem w False f n fr r)"
        using v(2,3) by simp
    qed (use u0(2) all [OF q(2)] in auto)
  qed
qed

lemma header_list_starts:
  assumes "header_list_loop mem w reject found n fr p = (Inr r, m, fr')"
  shows "\<exists>p'. ducknng_json_skip_ws p = CHR ''{'' # p'"
  using assms by (auto simp: header_list_loop.simps [of mem w reject found n fr p] split: list.splits if_splits)

lemma headers_alone_read:
  assumes "headers_ok [(name, value)]" "w \<noteq> []"
  shows "\<exists>f. fst (ducknng_http_headers_json_get_header all_mem (Some (CHR ''['' # render_header profile_escape (name, value) @ '']'')) (Some w) False) = Inr f \<and>
    map_option snd f = (if ducknng_ascii_ieq (Some name) (Some w) then Some value else None)"
  using credential.headers_read [of all_mem "[(name, value)]" w False] assms by force

lemma headers_appended_read:
  assumes ok: "headers_ok [(name, value)]" and w: "w \<noteq> []" and ws: "list_all json_ws u0"
    and loop: "\<And>r. header_list_loop all_mem w False None 0 [] (ducknng_json_skip_ws (u @ CHR '','' # r)) = header_list_loop all_mem w False f n fr r"
  shows "\<exists>f'. fst (ducknng_http_headers_json_get_header all_mem
      (Some (u0 @ CHR ''['' # u @ CHR '','' # render_header profile_escape (name, value) @ '']'')) (Some w) False) = Inr f' \<and>
    map_option snd f' = (if ducknng_ascii_ieq (Some name) (Some w) then Some value else map_option snd f)"
proof -
  let ?r = "render_header profile_escape (name, value) @ '']''"
  let ?f = "if ducknng_ascii_ieq (Some name) (Some w) then Some (n + 4, value) else f"
  let ?p = "u @ CHR '','' # ?r"
  have sep: "(CHR '']'' = CHR '','') = False" by simp
  obtain n' fr' where "header_list_loop all_mem w False f n fr ?r = (Inr (?f, []), n', fr')"
    using credential.header_list_step [of all_mem name "value" "[]" "CHR '']''" w False f n fr "[]"] ok
    unfolding sep by (auto simp: Let_def)
  then have l: "header_list_loop all_mem w False None 0 [] (ducknng_json_skip_ws ?p) = (Inr (?f, []), n', fr')" unfolding loop .
  have idem: "ducknng_json_skip_ws (ducknng_json_skip_ws p) = ducknng_json_skip_ws p" for p
    by (simp add: ducknng_json_skip_ws_def dropWhile_idem)
  obtain p' where p': "ducknng_json_skip_ws ?p = CHR ''{'' # p'" using header_list_starts [OF l] unfolding idem by blast
  have bracket: "ducknng_json_skip_ws (u0 @ CHR ''['' # q) = CHR ''['' # q" for q
    using ws by (simp add: ducknng_json_skip_ws_def list_all_iff dropWhile_append json_ws_def)
  have nil: "ducknng_json_skip_ws [] = []" by (simp add: ducknng_json_skip_ws_def)
  have "fst (ducknng_http_headers_json_get_header all_mem (Some (u0 @ CHR ''['' # ?p)) (Some w) False) = Inr ?f"
    unfolding ducknng_http_headers_json_get_header_def deref_simps bracket list.case Let_def l [unfolded p'] p'
    using w by (simp add: nil)
  then show ?thesis by simp
qed

lemma merge_headers_read:
  assumes ok: "headers_ok [(name, value)]" and w: "w \<noteq> []" and f: "caller_header all_mem h (Some w) = Inr f"
  shows "\<exists>m f'. ducknng_http_profile_merge_headers all_mem h (Some name) (Some value) = Inr m \<and> caller_header all_mem (Some m) (Some w) = Inr f' \<and>
    map_option snd f' = (if ducknng_ascii_ieq (Some name) (Some w) then Some value else map_option snd f)"
proof (cases "nonempty h")
  case False
  then have "f = None" using f by (simp add: caller_header_def)
  with False headers_alone_read [OF ok w] show ?thesis
    by (auto simp: ducknng_http_profile_merge_headers_def auth_header_object_eq caller_header_def Let_def split: if_splits)
next
  case True
  then obtain t where h: "h = Some t" "t \<noteq> []" by (cases h) auto
  obtain n fr where "ducknng_http_headers_json_get_header all_mem (Some t) (Some w) False = (Inr f, n, fr)"
    using f h by (cases "ducknng_http_headers_json_get_header all_mem (Some t) (Some w) False") (auto simp: caller_header_def)
  from caller_text [OF this w] obtain u0 u q where
    t: "t = u0 @ CHR ''['' # u @ CHR '']'' # q" "list_all json_ws u0" "list_all json_ws q"
    and loop: "list_all json_ws u \<and> f = None \<or> \<not> list_all json_ws u \<and>
      (\<forall>r. header_list_loop all_mem w False None 0 [] (ducknng_json_skip_ws (u @ CHR '','' # r)) = header_list_loop all_mem w False f n fr r)"
    by metis
  have e: "length (rev (dropWhile json_ws (rev t))) = length (u0 @ CHR ''['' # u) + 1"
    using trimmed_end [OF t(3), of "CHR '']''" "u0 @ CHR ''['' # u"] t(1) by (simp add: json_ws_def)
  have at: "t ! length (u0 @ CHR ''['' # u) = CHR '']''" "take (length (u0 @ CHR ''['' # u)) t = u0 @ CHR ''['' # u"
    unfolding t(1) by (simp_all add: nth_append)
  have m: "ducknng_http_profile_merge_headers all_mem h (Some name) (Some value) =
      Inr (if list_all json_ws u then CHR ''['' # render_header profile_escape (name, value) @ '']''
           else u0 @ CHR ''['' # u @ CHR '','' # render_header profile_escape (name, value) @ '']'')"
    unfolding ducknng_http_profile_merge_headers_def auth_header_object_eq Let_def h(1) deref_simps e
    using h(2) at empty_array_at [OF t(2), of u q, folded t(1)] by simp
  show ?thesis
  proof (cases "list_all json_ws u")
    case True
    with loop m headers_alone_read [OF ok w] show ?thesis by (auto simp: caller_header_def split: if_splits)
  next
    case False
    with loop m headers_appended_read [OF ok w t(2), of u f n fr] show ?thesis by (auto simp: caller_header_def split: if_splits)
  qed
qed

section \<open>Copies and memory\<close>

lemma dup_all [simp]: "dup all_mem i s = s"
  by (cases s) (simp_all add: dup_def)

lemma profile_copy_exact:
  assumes "ducknng_http_profile_copy ok p = (True, q)"
  shows "q = p"
proof -
  note kept = dup_kept [of "pf_id p" ok 0] dup_kept [of "pf_scheme p" ok 1] dup_kept [of "pf_host p" ok 2]
    dup_kept [of "pf_path_prefix p" ok 3] dup_kept [of "pf_method p" ok 4] dup_kept [of "pf_auth_name p" ok 5]
    dup_kept [of "pf_auth_value p" ok 6] dup_kept [of "pf_allow_subjects p" ok 7]
  have ok: "\<not> (pf_id p \<noteq> None \<and> dup ok 0 (pf_id p) = None)" "\<not> (pf_scheme p \<noteq> None \<and> dup ok 1 (pf_scheme p) = None)"
      "\<not> (pf_host p \<noteq> None \<and> dup ok 2 (pf_host p) = None)" "\<not> (pf_path_prefix p \<noteq> None \<and> dup ok 3 (pf_path_prefix p) = None)"
      "\<not> (pf_method p \<noteq> None \<and> dup ok 4 (pf_method p) = None)" "\<not> (pf_auth_name p \<noteq> None \<and> dup ok 5 (pf_auth_name p) = None)"
      "\<not> (pf_auth_value p \<noteq> None \<and> dup ok 6 (pf_auth_value p) = None)"
      "\<not> (pf_allow_subjects p \<noteq> None \<and> dup ok 7 (pf_allow_subjects p) = None)"
    and q: "q = blank_profile\<lparr>pf_id := dup ok 0 (pf_id p), pf_scheme := dup ok 1 (pf_scheme p), pf_host := dup ok 2 (pf_host p),
            pf_path_prefix := dup ok 3 (pf_path_prefix p), pf_method := dup ok 4 (pf_method p),
            pf_auth_name := dup ok 5 (pf_auth_name p), pf_auth_value := dup ok 6 (pf_auth_value p),
            pf_allow_subjects := dup ok 7 (pf_allow_subjects p), pf_port := pf_port p, pf_has_port := pf_has_port p,
            pf_tls_required := pf_tls_required p, pf_version := pf_version p, pf_created_ms := pf_created_ms p,
            pf_updated_ms := pf_updated_ms p, pf_expires_at_ms := pf_expires_at_ms p\<rparr>"
    using assms by (simp_all add: ducknng_http_profile_copy_def Let_def del: not_None_eq split: if_split_asm)
  show ?thesis unfolding q using kept ok by (cases p) (simp add: blank_profile_def del: not_None_eq)
qed

lemma profile_copy_all: "ducknng_http_profile_copy all_mem p = (True, p)"
proof -
  have "fst (ducknng_http_profile_copy all_mem p)" by (simp add: ducknng_http_profile_copy_def Let_def del: not_None_eq)
  with profile_copy_exact [of all_mem p] show ?thesis by (cases "ducknng_http_profile_copy all_mem p") auto
qed

lemma profile_lookup_idx: "profile_lookup reg i = map_option ((!) (profiles reg)) (find_idx (has_id i) (profiles reg))"
proof -
  have "find P xs = map_option ((!) xs) (find_idx P xs)" for P and xs :: "http_profile list"
    by (induction xs) (auto simp: option.map_comp comp_def)
  then show ?thesis by (simp add: profile_lookup_def)
qed

lemma find_copy_all:
  "i \<noteq> [] \<Longrightarrow> ducknng_http_profile_find_copy all_mem reg (Some i) =
     (case profile_lookup reg i of None \<Rightarrow> Inl ''ducknng: HTTP profile not found'' | Some p \<Rightarrow> Inr p)"
  by (simp add: ducknng_http_profile_find_copy_def profile_lookup_idx profile_copy_all split: option.split del: find_idx_None)

lemma find_copy_exact:
  assumes "ducknng_http_profile_find_copy ok reg (Some i) = Inr p"
  shows "i \<noteq> []" "profile_lookup reg i = Some p"
  using assms
  by (auto simp: ducknng_http_profile_find_copy_def profile_lookup_idx dest: profile_copy_exact
      split: if_split_asm option.splits prod.splits bool.splits simp del: find_idx_None)

lemma dup_trim_mono: "dup_trim f mem s = Some t \<Longrightarrow> dup_trim f all_mem s = Some t"
  by (auto simp: dup_trim_def split: option.splits if_splits)

lemma scope_error_mono:
  assumes "scope_error mem parse p url m = None"
  shows "scope_error all_mem parse p url m = None"
proof -
  let ?m = "if nonempty m then m else Some ''GET''"
  obtain t where "ducknng_http_profile_dup_trim_upper mem ?m = Some t"
    using assms by (auto simp: scope_error_def split: sum.splits option.splits if_split_asm)
  then have "ducknng_http_profile_dup_trim_upper all_mem ?m = ducknng_http_profile_dup_trim_upper mem ?m"
    by (simp add: ducknng_http_profile_dup_trim_upper_def dup_trim_mono)
  then show ?thesis using assms unfolding scope_error_def by (simp only:)
qed

lemma merge_mono:
  assumes "ducknng_http_profile_merge_headers mem h n v = Inr m"
  shows "ducknng_http_profile_merge_headers all_mem h n v = Inr m"
proof -
  obtain auth where auth: "ducknng_http_profile_auth_header_object mem n v = Some auth"
    using assms by (auto simp: ducknng_http_profile_merge_headers_def split: option.splits)
  have esc: "ducknng_http_profile_json_escape_dup mem s = Some e \<Longrightarrow> ducknng_http_profile_json_escape_dup all_mem s = Some e" for s e
    by (auto simp: ducknng_http_profile_json_escape_dup_def Let_def split: if_splits)
  have "ducknng_http_profile_auth_header_object all_mem n v = Some auth"
    using auth by (auto simp: ducknng_http_profile_auth_header_object_def split: option.splits if_split_asm dest!: esc)
  with assms auth show ?thesis
    unfolding ducknng_http_profile_merge_headers_def Let_def by (auto split: if_split_asm)
qed

lemma subject_admitted_mono:
  assumes "subject_admitted mem ok rt self g con allow"
  shows "subject_admitted all_mem all_mem rt self g (if ok 0 then con else None) allow"
proof -
  let ?thread = "case ducknng_runtime_current_thread_execution_subject_get g self of None \<Rightarrow> None | Some s \<Rightarrow> s"
  let ?bound = "\<lambda>ok con. case con of None \<Rightarrow> None | Some k \<Rightarrow> ducknng_runtime_execution_subject_for_connection_dup ok rt k"
  let ?subject = "\<lambda>ok con. if \<not> nonempty (?bound ok con) then ?thread else ?bound ok con"
  have "?bound ok con = ?bound all_mem (if ok 0 then con else None)"
    by (cases con) (auto simp: ducknng_runtime_execution_subject_for_connection_dup_def dup_def split: option.split)
  then have subject: "?subject ok con = ?subject all_mem (if ok 0 then con else None)" by simp
  have adm: "subject_admitted mem ok rt self g con allow \<longleftrightarrow> nonempty (?subject ok con) \<and>
      (case ducknng_json_string_array_contains mem allow (?subject ok con) of Inl err \<Rightarrow> False | Inr (found, count) \<Rightarrow> found)" for mem ok con
    unfolding subject_admitted_def Let_def ..
  from assms obtain count where "nonempty (?subject ok con)"
      "ducknng_json_string_array_contains mem allow (?subject ok con) = Inr (True, count)"
    unfolding adm by (auto split: sum.splits prod.splits)
  then show ?thesis unfolding adm using array_contains_mono unfolding subject by fastforce
qed

section \<open>Who gets a credential\<close>

lemma resolve_iff:
  assumes "i \<noteq> []" "url \<noteq> []"
  shows "ducknng_runtime_resolve_http_profile_headers mem ok parse now rt self g reg (Some i) (Some url) method h con = Inr r \<longleftrightarrow>
    (\<exists>p m. ducknng_http_profile_find_copy (ok 0) reg (Some i) = Inr p \<and> \<not> (pf_expires_at_ms p \<noteq> 0 \<and> now > pf_expires_at_ms p) \<and>
      (nonempty (pf_allow_subjects p) \<longrightarrow> subject_admitted mem (ok 1) rt self g con (pf_allow_subjects p)) \<and>
      scope_error mem parse p url method = None \<and> caller_header mem h (pf_auth_name p) = Inr None \<and>
      ducknng_http_profile_merge_headers mem h (pf_auth_name p) (pf_auth_value p) = Inr m \<and> r = Some m)"
proof (cases "ducknng_http_profile_find_copy (ok 0) reg (Some i)")
  case (Inr p)
  have "map_sum id Some x = Inr r \<longleftrightarrow> (\<exists>m. x = Inr m \<and> r = Some m)" for x :: "string + string" by (cases x) auto
  then show ?thesis
    using assms unfolding ducknng_runtime_resolve_http_profile_headers_def caller_header_def [symmetric] Inr
    by (auto split: option.split sum.split)
qed (use assms in \<open>simp add: ducknng_runtime_resolve_http_profile_headers_def\<close>)

lemma profile_headers_ok:
  assumes "profile_ok p"
  obtains n v where "pf_auth_name p = Some n" "pf_auth_value p = Some v" "headers_ok [(n, v)]" "n \<noteq> []"
proof -
  have p: "ducknng_http_token_is_valid (pf_auth_name p)" "short (pf_auth_name p)"
      "ducknng_http_profile_header_value_valid (pf_auth_value p)" "short (pf_auth_value p)"
    using assms by (simp_all add: profile_ok_def)
  obtain n v where nv: "pf_auth_name p = Some n" "pf_auth_value p = Some v"
    using p(1,3) by (cases "pf_auth_name p"; cases "pf_auth_value p")
      (auto simp: ducknng_http_token_is_valid_def ducknng_http_profile_header_value_valid_def)
  have "code c \<noteq> 0" if "token_char c" for c using that by (auto simp: token_char_def alnum_def)
  then have "nul_free n" "n \<noteq> []" using p(1) nv by (auto simp: nul_free_def list_all_iff ducknng_http_token_is_valid_def)
  moreover have "nul_free v"
    using p(3) nv by (auto simp: nul_free_def list_all_iff ducknng_http_profile_header_value_valid_def ducknng_http_header_value_is_valid_def)
  ultimately show ?thesis using nv p
    by (intro that [of n v]) (simp_all add: headers_ok_def members_ok_def short_def ducknng_http_profile_header_value_valid_def)
qed

text \<open>The subject that governs a request: that of its connection when one is bound, otherwise that of the thread.\<close>

definition effective_subject :: "runtime \<Rightarrow> ptr \<Rightarrow> thread_subject \<Rightarrow> u64 option \<Rightarrow> cstring" where
  "effective_subject rt self g con =
     (case map_option snd (Option.bind con (assoc_get (rt_subject_bindings rt))) of
        Some (c # s) \<Rightarrow> Some (c # s)
      | _ \<Rightarrow> (case g of Some (owner, s) \<Rightarrow> if owner = self then s else None | None \<Rightarrow> None))"

text \<open>\<open>path\<close> is \<open>prefix\<close> or lies below it.\<close>

definition under_prefix :: "string \<Rightarrow> string \<Rightarrow> bool" where
  "under_prefix path prefix \<longleftrightarrow> prefix = ''/'' \<or> path = prefix \<or>
     (\<exists>rest. rest \<noteq> [] \<and> path = prefix @ rest \<and> (last prefix = CHR ''/'' \<or> hd rest = CHR ''/''))"

lemma subject_admitted_all:
  "subject_admitted all_mem all_mem rt self g con allow \<longleftrightarrow>
     (\<exists>s n. effective_subject rt self g con = Some s \<and> s \<noteq> [] \<and> ducknng_json_string_array_contains all_mem allow (Some s) = Inr (True, n))"
proof -
  let ?thread = "case g of Some (owner, s) \<Rightarrow> if owner = self then s else None | None \<Rightarrow> None"
  have thread: "(case ducknng_runtime_current_thread_execution_subject_get g self of None \<Rightarrow> None | Some s \<Rightarrow> s) = ?thread"
    by (auto simp: ducknng_runtime_current_thread_execution_subject_get_def split: option.split)
  have bound: "(case con of None \<Rightarrow> None | Some k \<Rightarrow> ducknng_runtime_execution_subject_for_connection_dup all_mem rt k) =
      map_option snd (Option.bind con (assoc_get (rt_subject_bindings rt)))"
    by (cases con) (simp_all add: ducknng_runtime_execution_subject_for_connection_dup_def)
  have subject: "(if \<not> nonempty b then ?thread else b) = (case b of Some (c # s) \<Rightarrow> Some (c # s) | _ \<Rightarrow> ?thread)" for b
    by (auto split: option.split list.split)
  have "nonempty x \<and> (case ducknng_json_string_array_contains all_mem allow x of Inl err \<Rightarrow> False | Inr (found, count) \<Rightarrow> found) \<longleftrightarrow>
      (\<exists>s n. x = Some s \<and> s \<noteq> [] \<and> ducknng_json_string_array_contains all_mem allow (Some s) = Inr (True, n))" for x
    by (cases x) (auto split: sum.split)
  then show ?thesis unfolding subject_admitted_def Let_def thread bound subject effective_subject_def .
qed

lemma path_in_scope_iff:
  assumes "nonempty prefix" "hd (deref prefix) = CHR ''/''"
  shows "ducknng_http_profile_path_in_scope (Some path) prefix \<longleftrightarrow> under_prefix path (deref prefix)"
proof -
  obtain p where p: "prefix = Some p" "p \<noteq> []" using assms(1) by (cases prefix) auto
  have "take (length p) path = p \<longleftrightarrow> (\<exists>rest. path = p @ rest)" by (metis append_eq_conv_conj append_take_drop_id)
  moreover have "drop (length p) (p @ rest) = rest" for rest by simp
  ultimately show ?thesis
    using p assms(2) by (auto simp: ducknng_http_profile_path_in_scope_def under_prefix_def Let_def)
qed

text \<open>A request lies in the scope of a profile.\<close>

definition in_scope :: "(string \<Rightarrow> nng_url option) \<Rightarrow> http_profile \<Rightarrow> string \<Rightarrow> cstring \<Rightarrow> bool" where
  "in_scope parse p url method \<longleftrightarrow>
    (\<exists>tr u port m. ducknng_transport_url_parse (Some url) = Inr tr \<and> tu_family tr = FAMILY_HTTP \<and> (pf_tls_required p \<longrightarrow> uses_tls tr) \<and>
      parse url = Some u \<and> ducknng_ascii_ieq (u_scheme u) (pf_scheme p) \<and> ducknng_ascii_ieq (u_hostname u) (pf_host p) \<and>
      ducknng_http_profile_parse_port (u_port u) (if uses_tls tr then 443 else 80) = Some port \<and> (pf_has_port p \<longrightarrow> port = pf_port p) \<and>
      under_prefix (if nonempty (u_path u) then deref (u_path u) else ''/'') (deref (pf_path_prefix p)) \<and>
      m = map ascii_upper (trim (if nonempty method then deref method else ''GET'')) \<and> ducknng_http_token_is_valid (Some m) \<and>
      (pf_method p = Some ''*'' \<or> pf_method p = Some m))"

lemma scope_error_all:
  assumes "profile_ok p"
  shows "scope_error all_mem parse p url method = None \<longleftrightarrow> in_scope parse p url method"
proof -
  have pre: "nonempty (pf_path_prefix p)" "hd (deref (pf_path_prefix p)) = CHR ''/''"
    and "ducknng_http_profile_method_valid (pf_method p)" using assms by (simp_all add: profile_ok_def)
  then obtain pm where pm: "pf_method p = Some pm" by (cases "pf_method p") (auto simp: ducknng_http_profile_method_valid_def)
  have path: "(if nonempty q then q else Some ''/'') = Some (if nonempty q then deref q else ''/'')" for q :: cstring
    by (cases q) simp_all
  have up: "ducknng_http_profile_dup_trim_upper all_mem (if nonempty method then method else Some ''GET'') =
      (let t = trim (if nonempty method then deref method else ''GET'') in if t = [] then None else Some (map ascii_upper t))"
    by (cases "method") (auto simp: ducknng_http_profile_dup_trim_upper_def dup_trim_def)
  have token: "\<not> ducknng_http_token_is_valid (Some [])" by (simp add: ducknng_http_token_is_valid_def)
  have ieq: "(x = None \<or> \<not> ducknng_ascii_ieq x y) = (\<not> ducknng_ascii_ieq x y)" for x y
    by (cases x) (simp_all add: ducknng_ascii_ieq_def)
  define t where "t = trim (if nonempty method then deref method else ''GET'')"
  show ?thesis
  proof (cases "ducknng_transport_url_parse (Some url)")
    case tr: (Inr tr)
    show ?thesis
    proof (cases "parse url")
      case u: (Some u)
      show ?thesis
      proof (cases "ducknng_http_profile_parse_port (u_port u) (if uses_tls tr then 443 else 80)")
        case port: (Some port)
        define q where "q = (if nonempty (u_path u) then deref (u_path u) else ''/'')"
        have "scope_error all_mem parse p url method = None \<longleftrightarrow>
            tu_family tr = FAMILY_HTTP \<and> (pf_tls_required p \<longrightarrow> uses_tls tr) \<and>
            ducknng_ascii_ieq (u_scheme u) (pf_scheme p) \<and> ducknng_ascii_ieq (u_hostname u) (pf_host p) \<and>
            (pf_has_port p \<longrightarrow> port = pf_port p) \<and> under_prefix q (deref (pf_path_prefix p)) \<and>
            ducknng_http_token_is_valid (Some (map ascii_upper t)) \<and> (pm = ''*'' \<or> pm = map ascii_upper t)"
          unfolding scope_error_def tr sum.case u option.case port path path_in_scope_iff [OF pre] up Let_def pm ieq t_def [symmetric] q_def [symmetric]
          using token by (cases "t = []") (simp_all add: ducknng_transport_url_is_http_def)
        then show ?thesis
          unfolding in_scope_def t_def [symmetric] tr u using port by (simp add: pm q_def)
      qed (auto simp: scope_error_def in_scope_def tr u)
    qed (auto simp: scope_error_def in_scope_def tr)
  qed (auto simp: scope_error_def in_scope_def)
qed

text \<open>
  C6. A credential is released exactly inside the scope of its profile. With memory available, a request that names a profile gets
  headers exactly when the profile exists and has not expired; when it lists subjects, the subject of the request's connection, or
  that of the thread when none is bound, is one of them; the URL is an HTTP URL with TLS if the profile demands it, with the
  scheme, the host and (when the profile has one) the port of the profile; its path is the prefix of the profile or below it; the
  method is the profile's or the profile accepts all; and the caller's headers can be read and do not set the same header.
\<close>

theorem credential_release:
  assumes "reachable profile_init profile_step reg" "i \<noteq> []" "url \<noteq> []"
  shows "(\<exists>m. ducknng_runtime_resolve_http_profile_headers all_mem (\<lambda>_. all_mem) parse now rt self g reg (Some i) (Some url) method h con = Inr (Some m)) \<longleftrightarrow>
    (\<exists>p. profile_lookup reg i = Some p \<and> (pf_expires_at_ms p = 0 \<or> now \<le> pf_expires_at_ms p) \<and>
      (pf_allow_subjects p = None \<or> (\<exists>s n. effective_subject rt self g con = Some s \<and> s \<noteq> [] \<and>
         ducknng_json_string_array_contains all_mem (pf_allow_subjects p) (Some s) = Inr (True, n))) \<and>
      in_scope parse p url method \<and> caller_header all_mem h (pf_auth_name p) = Inr None)"
proof (cases "profile_lookup reg i")
  case None
  then show ?thesis by (simp add: resolve_iff [OF assms(2,3)] find_copy_all [OF assms(2)])
next
  case (Some p)
  have inv: "profiles_inv reg" by (rule profile_runs.reachable_inv [OF assms(1)])
  have "p \<in> set (profiles reg)" using Some by (auto simp: profile_lookup_def find_Some_iff)
  then have ok: "profile_ok p" using inv by (simp add: profiles_inv_def)
  then have allow: "nonempty (pf_allow_subjects p) \<longleftrightarrow> pf_allow_subjects p \<noteq> None"
    by (auto simp: profile_ok_def nonempty_def)
  obtain n v where nv: "pf_auth_name p = Some n" "pf_auth_value p = Some v" "headers_ok [(n, v)]" "n \<noteq> []"
    by (rule profile_headers_ok [OF ok])
  have merged: "\<exists>m. ducknng_http_profile_merge_headers all_mem h (pf_auth_name p) (pf_auth_value p) = Inr m"
    if "caller_header all_mem h (pf_auth_name p) = Inr None"
    using merge_headers_read [OF nv(3,4)] that unfolding nv(1,2) by blast
  have expired: "\<not> (pf_expires_at_ms p \<noteq> 0 \<and> now > pf_expires_at_ms p) \<longleftrightarrow> pf_expires_at_ms p = 0 \<or> now \<le> pf_expires_at_ms p" by auto
  show ?thesis
    unfolding resolve_iff [OF assms(2,3)] find_copy_all [OF assms(2)] Some option.case sum.inject option.inject
    using merged by (cases "caller_header all_mem h (pf_auth_name p) = Inr None")
      (simp_all add: expired allow scope_error_all [OF ok] subject_admitted_all not_less disj_imp del: not_None_eq)
qed

definition sample_url :: string where
  "sample_url = ''https://EXAMPLE.com/v1/items''"

definition sample_parse :: "string \<Rightarrow> nng_url option" where
  "sample_parse url = Some \<lparr> u_scheme = Some ''https'', u_hostname = Some ''EXAMPLE.com'', u_port = Some ''443'', u_path = Some ''/v1/items'' \<rparr>"

text \<open>Connection 7 runs on behalf of bob.\<close>

definition bound_runtime :: runtime where
  "bound_runtime = \<lparr> rt_services = [], rt_service_cap = 0, rt_next_service_id = 1, rt_client_sockets = handle_table_init,
     rt_client_aios = handle_table_init, rt_http_client_streams = handle_table_init, rt_tls_configs = handle_table_init,
     rt_user_codecs = \<lparr> as_rows = [], as_cap = 0 \<rparr>, rt_subject_bindings = \<lparr> as_rows = [(7, ''bob'')], as_cap = 4 \<rparr>,
     rt_execution_pool_capacity = 1, rt_execution_pool_max = 1 \<rparr>"

theorem credential_release_witness:
  "\<exists>p. profile_lookup sample_registry ''api'' = Some p \<and> in_scope sample_parse p sample_url None \<and>
     effective_subject bound_runtime 1 (Some (1, Some ''alice'')) None = Some ''alice''"
proof -
  have "ducknng_runtime_resolve_http_profile_headers all_mem (\<lambda>_. all_mem) sample_parse 9 bound_runtime 1 (Some (1, Some ''alice''))
      sample_registry (Some ''api'') (Some sample_url) None None None = Inr (Some ''[{\"name\":\"Authorization\",\"value\":\"Bearer k\"}]'')"
    by code_simp
  moreover have "sample_url \<noteq> []" by (simp add: sample_url_def)
  ultimately show ?thesis
    using credential_release [OF sample_profiles_reachable, of "''api''" sample_url sample_parse 9 bound_runtime 1 "Some (1, Some ''alice'')" None None None]
    by (auto simp: effective_subject_def)
qed

text \<open>
  C38. Allocation failures release nothing more. A request that gets headers while some allocations fail gets the same headers when
  none fails, with one exception: when the copy of the connection's subject fails, the outcome is that of a request without a
  connection, decided by the subject of the thread.
\<close>

theorem allocation_failures_release:
  assumes "ducknng_runtime_resolve_http_profile_headers mem ok parse now rt self g reg (Some i) url method h con = Inr r" "i \<noteq> []"
  shows "ducknng_runtime_resolve_http_profile_headers all_mem (\<lambda>_. all_mem) parse now rt self g reg (Some i) url method h
    (if ok 1 0 then con else None) = Inr r"
proof -
  obtain t where t: "url = Some t" "t \<noteq> []"
    using assms by (cases url) (auto simp: ducknng_runtime_resolve_http_profile_headers_def split: if_splits)
  from assms(1) obtain p m where p: "ducknng_http_profile_find_copy (ok 0) reg (Some i) = Inr p"
      "\<not> (pf_expires_at_ms p \<noteq> 0 \<and> now > pf_expires_at_ms p)"
      "nonempty (pf_allow_subjects p) \<longrightarrow> subject_admitted mem (ok 1) rt self g con (pf_allow_subjects p)"
      "scope_error mem parse p t method = None" "caller_header mem h (pf_auth_name p) = Inr None"
      "ducknng_http_profile_merge_headers mem h (pf_auth_name p) (pf_auth_value p) = Inr m" "r = Some m"
    unfolding t(1) resolve_iff [OF assms(2) t(2)] by blast
  have "ducknng_http_profile_find_copy all_mem reg (Some i) = Inr p"
    using find_copy_all [OF assms(2)] find_copy_exact [OF p(1)] by simp
  moreover have "caller_header all_mem h (pf_auth_name p) = Inr None"
    using p(5) get_header_mono
    by (cases "ducknng_http_headers_json_get_header mem h (pf_auth_name p) False") (fastforce simp: caller_header_def split: if_splits)
  ultimately show ?thesis
    unfolding t(1) resolve_iff [OF assms(2) t(2)]
    using p(2,3,7) scope_error_mono [OF p(4)] merge_mono [OF p(6)] subject_admitted_mono [of mem "ok 1"] by blast
qed

theorem allocation_failures_release_witness:
  "(let resolve = (\<lambda>ok con. ducknng_runtime_resolve_http_profile_headers all_mem ok sample_parse 9 bound_runtime 1 (Some (1, Some ''alice''))
          sample_registry (Some ''api'') (Some sample_url) None None con)
    in resolve (\<lambda>_. all_mem) (Some 7) = Inl ''ducknng: HTTP profile admission rejected request subject'' \<and>
       resolve (\<lambda>k _. k \<noteq> 1) (Some 7) = Inr (Some ''[{\"name\":\"Authorization\",\"value\":\"Bearer k\"}]'') \<and>
       resolve (\<lambda>_. all_mem) None = Inr (Some ''[{\"name\":\"Authorization\",\"value\":\"Bearer k\"}]''))"
proof -
  let ?resolve = "\<lambda>ok con. ducknng_runtime_resolve_http_profile_headers all_mem ok sample_parse 9 bound_runtime 1 (Some (1, Some ''alice''))
    sample_registry (Some ''api'') (Some sample_url) None None con"
  have 1: "?resolve (\<lambda>_. all_mem) (Some 7) = Inl ''ducknng: HTTP profile admission rejected request subject''" by code_simp
  have 2: "?resolve (\<lambda>k _. k \<noteq> 1) (Some 7) = Inr (Some ''[{\"name\":\"Authorization\",\"value\":\"Bearer k\"}]'')" by code_simp
  from allocation_failures_release [OF 2] 1 2 show ?thesis by (simp add: Let_def)
qed

text \<open>
  C37. The headers a request gets are the caller's headers and the credential. For every name: the program's own reader finds the
  secret under the header name of the profile, and under any other name whatever it found in the caller's list, for every list it
  accepts, however that is written.
\<close>

theorem credential_merged:
  assumes "reachable profile_init profile_step reg" "i \<noteq> []" "w \<noteq> []" "caller_header all_mem h (Some w) = Inr f"
    "ducknng_runtime_resolve_http_profile_headers mem ok parse now rt self g reg (Some i) (Some url) method h con = Inr r"
  shows "\<exists>p m f'. profile_lookup reg i = Some p \<and> r = Some m \<and> caller_header all_mem (Some m) (Some w) = Inr f' \<and>
    map_option snd f' = (if ducknng_ascii_ieq (pf_auth_name p) (Some w) then pf_auth_value p else map_option snd f)"
proof -
  have "url \<noteq> []" using assms(2,5) by (auto simp: ducknng_runtime_resolve_http_profile_headers_def)
  from assms(5) obtain p m where p: "ducknng_http_profile_find_copy (ok 0) reg (Some i) = Inr p"
      "ducknng_http_profile_merge_headers mem h (pf_auth_name p) (pf_auth_value p) = Inr m" "r = Some m"
    unfolding resolve_iff [OF assms(2) \<open>url \<noteq> []\<close>] by blast
  have look: "profile_lookup reg i = Some p" by (rule find_copy_exact(2) [OF p(1)])
  then have "p \<in> set (profiles reg)" by (auto simp: profile_lookup_def find_Some_iff)
  then have "profile_ok p" using profile_runs.reachable_inv [OF assms(1)] by (simp add: profiles_inv_def)
  then obtain n v where nv: "pf_auth_name p = Some n" "pf_auth_value p = Some v" "headers_ok [(n, v)]" "n \<noteq> []"
    by (rule profile_headers_ok)
  from merge_headers_read [OF nv(3) assms(3,4)] merge_mono [OF p(2)] look p(3) show ?thesis unfolding nv(1,2)
    by (intro exI [of _ p] exI [of _ m]) (auto simp: nv(1,2))
qed

theorem credential_merged_witness:
  "\<exists>m f. ducknng_runtime_resolve_http_profile_headers all_mem (\<lambda>_. all_mem) sample_parse 9 bound_runtime 1 (Some (1, Some ''alice''))
      sample_registry (Some ''api'') (Some sample_url) None (Some ''[ {\"value\" : \"1\", \"name\":\"X-Id\"} ] '') None = Inr (Some m) \<and>
    caller_header all_mem (Some m) (Some ''x-id'') = Inr f \<and> map_option snd f = Some ''1''"
proof -
  let ?h = "Some ''[ {\"value\" : \"1\", \"name\":\"X-Id\"} ] ''"
  have r: "ducknng_runtime_resolve_http_profile_headers all_mem (\<lambda>_. all_mem) sample_parse 9 bound_runtime 1 (Some (1, Some ''alice''))
      sample_registry (Some ''api'') (Some sample_url) None ?h None =
      Inr (Some ''[ {\"value\" : \"1\", \"name\":\"X-Id\"} ,{\"name\":\"Authorization\",\"value\":\"Bearer k\"}]'')"
    by code_simp
  have f: "caller_header all_mem ?h (Some ''x-id'') = Inr (Some (4, ''1''))" by code_simp
  have n: "\<not> ducknng_ascii_ieq (pf_auth_name sample_profile) (Some ''x-id'')" "profile_lookup sample_registry ''api'' = Some sample_profile"
    by code_simp+
  from credential_merged [OF sample_profiles_reachable _ _ f r] n r show ?thesis by auto
qed

end
