(* ===== verification/Spec2Isabelle.thy ===== *)
theory Spec2Isabelle
  imports Wire QuackCore QuackTypes HttpStream Limits Session Util Registry Transport Admission PipeMonitor Routes StaticFiles Runtime HttpProfile Credentials
begin

text \<open>
  ducknng: an RPC, HTTP and session service inside DuckDB.

  The development models the parts of the program that are its own logic: the framed wire format,
  and in further theories the value encoding, the registries, sessions, admission, routes, HTTP
  profiles and the HTTP body decoder.
\<close>

end
